(* ===== verification/Xv6_Prelude.thy ===== *)
theory Xv6_Prelude
  imports Main "HOL-Library.Word"
begin

text \<open>
  Shared vocabulary of the development: machine words and the byte order of the target, the
  outcome type of a kernel routine (return, panic, sleep, undefined behaviour), sequencing and
  loops over outcomes, and the reasoning rules that the component theories use.
\<close>

unbundle bit_operations_syntax

section \<open>Machine integers and bytes\<close>

text \<open>The integer types of \<^verbatim>\<open>types.h\<close> and the signed \<^verbatim>\<open>short\<close>, read with \<open>sint\<close>.\<close>

type_synonym uchar = "8 word"
type_synonym ushort = "16 word"
type_synonym uint = "32 word"

text \<open>A byte array, indexed by offset (a disk block, a struct) or by address (memory).\<close>

type_synonym block = "nat \<Rightarrow> uchar"
type_synonym memory = "uint \<Rightarrow> uchar"

text \<open>The i-th byte of a word in the little-endian order of the x86.\<close>

definition byte :: "nat \<Rightarrow> 'a::len word \<Rightarrow> uchar" where
  "byte i w = ucast (drop_bit (8 * i) w)"

definition load32 :: "('i::{plus,numeral} \<Rightarrow> uchar) \<Rightarrow> 'i \<Rightarrow> uint" where
  "load32 m a = ucast (m a) OR push_bit 8 (ucast (m (a + 1)))
     OR push_bit 16 (ucast (m (a + 2))) OR push_bit 24 (ucast (m (a + 3)))"

definition store32 :: "'i::{plus,numeral} \<Rightarrow> uint \<Rightarrow> ('i \<Rightarrow> uchar) \<Rightarrow> ('i \<Rightarrow> uchar)" where
  "store32 a w m = m(a := byte 0 w, a + 1 := byte 1 w, a + 2 := byte 2 w, a + 3 := byte 3 w)"

definition load16 :: "('i::{plus,numeral} \<Rightarrow> uchar) \<Rightarrow> 'i \<Rightarrow> ushort" where
  "load16 m a = ucast (m a) OR push_bit 8 (ucast (m (a + 1)))"

definition store16 :: "'i::{plus,numeral} \<Rightarrow> ushort \<Rightarrow> ('i \<Rightarrow> uchar) \<Rightarrow> ('i \<Rightarrow> uchar)" where
  "store16 a w m = m(a := byte 0 w, a + 1 := byte 1 w)"

lemma join_bytes32 [simp]:
  "ucast (byte 0 w) OR push_bit 8 (ucast (byte (Suc 0) w))
     OR push_bit 16 (ucast (byte 2 w)) OR push_bit 24 (ucast (byte 3 w)) = (w :: uint)"
proof (rule bit_word_eqI)
  fix n
  assume "n < LENGTH(32)"
  then consider "n < 8" | "8 \<le> n" "n < 16" | "16 \<le> n" "n < 24" | "24 \<le> n" "n < 32"
    by (simp, linarith)
  then show "bit (ucast (byte 0 w) OR push_bit 8 (ucast (byte (Suc 0) w))
     OR push_bit 16 (ucast (byte 2 w)) OR push_bit 24 (ucast (byte 3 w)) :: uint) n = bit w n"
    by cases (auto simp: byte_def bit_simps)
qed

lemma join_bytes16 [simp]:
  "ucast (byte 0 w) OR push_bit 8 (ucast (byte (Suc 0) w)) = (w :: ushort)"
proof (rule bit_word_eqI)
  fix n
  assume "n < LENGTH(16)"
  then consider "n < 8" | "8 \<le> n" "n < 16"
    by (simp, linarith)
  then show "bit (ucast (byte 0 w) OR push_bit 8 (ucast (byte (Suc 0) w)) :: ushort) n = bit w n"
    by cases (auto simp: byte_def bit_simps)
qed

lemma load32_store32_nat [simp]: "load32 (store32 (a::nat) w m) a = w"
  by (simp add: load32_def store32_def)

lemma load32_store32_word [simp]: "load32 (store32 (a::uint) w m) a = w"
  by (simp add: load32_def store32_def)

lemma load32_store32_other [simp]:
  "\<lbrakk> (a::nat) + 4 \<le> b \<or> b + 4 \<le> a \<rbrakk> \<Longrightarrow> load32 (store32 a w m) b = load32 m b"
  by (auto simp add: load32_def store32_def)

lemma load16_store16_nat [simp]: "load16 (store16 (a::nat) w m) a = w"
  by (simp add: load16_def store16_def)

lemma load16_store16_other [simp]:
  "(a::nat) + 2 \<le> b \<or> b + 2 \<le> a \<Longrightarrow> load16 (store16 a w m) b = load16 m b"
  by (auto simp add: load16_def store16_def)

lemma load16_store32_other [simp]:
  "(a::nat) + 4 \<le> b \<or> b + 2 \<le> a \<Longrightarrow> load16 (store32 a w m) b = load16 m b"
  by (auto simp add: load16_def store32_def)

lemma load32_store16_other [simp]:
  "(a::nat) + 2 \<le> b \<or> b + 4 \<le> a \<Longrightarrow> load32 (store16 a w m) b = load32 m b"
  by (auto simp add: load32_def store16_def)

text \<open>Distances between addresses, modulo the size of the address space.\<close>

lemma unat_bound: "unat (w :: uint) < 2 ^ 32"
proof -
  have "unat w < 2 ^ LENGTH(32)" by (rule unsigned_less)
  then show ?thesis by simp
qed

lemma unat_diff_Suc: "(x::uint) \<noteq> a \<Longrightarrow> unat (x - (a + 1)) = unat (x - a) - 1"
  using unat_minus_one [of "x - a"] by (simp add: diff_diff_eq)

lemma unat_diff_pos: "(x::uint) \<noteq> a \<Longrightarrow> 0 < unat (x - a)"
  by (simp add: unat_gt_0)

lemma unat_uminus_1 [simp]: "unat (- 1 :: uint) = 4294967295"
  by (simp add: unsigned_minus_1_eq_mask mask_eq_exp_minus_1)

lemma unat_mirror: "unat (n - 1 - y) < unat n \<longleftrightarrow> unat y < unat (n :: uint)"
proof (cases "n = 0")
  case False
  then have n1: "unat (n - 1) = unat n - 1" "0 < unat n"
    by (simp_all add: unat_minus_one unat_gt_0)
  then show ?thesis
    using unat_bound [of y] unat_bound [of n] unat_sub_if' [of "n - 1" y]
    by (auto split: if_splits)
qed simp

text \<open>
  Copying \<open>n\<close> bytes between two arrays that do not overlap: what \<^verbatim>\<open>memmove\<close> does between two
  objects (\<^verbatim>\<open>string.c\<close>, proved for the address-level routine in the theory of strings).
\<close>

definition blit :: "nat \<Rightarrow> block \<Rightarrow> nat \<Rightarrow> nat \<Rightarrow> block \<Rightarrow> block" where
  "blit so src do n dst = (\<lambda>i. if do \<le> i \<and> i < do + n then src (so + (i - do)) else dst i)"

lemma blit_in [simp]: "do \<le> i \<Longrightarrow> i < do + n \<Longrightarrow> blit so src do n dst i = src (so + (i - do))"
  by (simp add: blit_def)

lemma blit_out [simp]: "\<not> (do \<le> i \<and> i < do + n) \<Longrightarrow> blit so src do n dst i = dst i"
  by (auto simp add: blit_def)

lemma blit_zero [simp]: "blit so src do 0 dst = dst"
  by (rule ext) (auto simp add: blit_def)

section \<open>Outcomes of kernel routines\<close>

text \<open>
  A routine started in some state returns a value and a state, panics with a message (the
  machine stops), gives up the processor by switching to the scheduler (with the state it leaves
  behind), or does something C leaves undefined (a null dereference, an index out of range).
\<close>

datatype ('s, 'a) outcome =
    Ret 'a 's
  | Panic string
  | Switch 's
  | Undef string

definition andthen :: "('s, 'a) outcome \<Rightarrow> ('a \<Rightarrow> 's \<Rightarrow> ('s, 'b) outcome) \<Rightarrow> ('s, 'b) outcome" where
  "andthen m f = (case m of Ret a s \<Rightarrow> f a s | Panic e \<Rightarrow> Panic e | Switch s \<Rightarrow> Switch s | Undef e \<Rightarrow> Undef e)"

lemma andthen_simps [simp]:
  "andthen (Ret a s) f = f a s"
  "andthen (Panic e) f = Panic e"
  "andthen (Switch s) f = Switch s"
  "andthen (Undef e) f = Undef e"
  by (simp_all add: andthen_def)

lemma andthen_cong [fundef_cong]:
  "\<lbrakk> m = m'; \<And>a s. m' = Ret a s \<Longrightarrow> f a s = g a s \<rbrakk> \<Longrightarrow> andthen m f = andthen m' g"
  by (cases m') simp_all

lemma andthen_assoc: "andthen (andthen m f) g = andthen m (\<lambda>a s. andthen (f a s) g)"
  by (cases m) simp_all

lemma andthen_eq_Ret:
  "andthen m f = Ret b t \<longleftrightarrow> (\<exists>a s. m = Ret a s \<and> f a s = Ret b t)"
  by (cases m) simp_all

lemma andthen_if: "andthen (if b then m else n) f = (if b then andthen m f else andthen n f)"
  by simp

text \<open>A loop whose body runs once for each element of a list, in order.\<close>

primrec for_each :: "'x list \<Rightarrow> ('x \<Rightarrow> 's \<Rightarrow> ('s, unit) outcome) \<Rightarrow> 's \<Rightarrow> ('s, unit) outcome" where
  "for_each [] f s = Ret () s"
| "for_each (x # xs) f s = andthen (f x s) (\<lambda>_ s. for_each xs f s)"

lemma for_each_append:
  "for_each (xs @ ys) f s = andthen (for_each xs f s) (\<lambda>_ s. for_each ys f s)"
  by (induction xs arbitrary: s) (simp_all add: andthen_assoc)

lemma for_each_cong [fundef_cong]:
  "\<lbrakk> xs = ys; s = t; \<And>x s. x \<in> set ys \<Longrightarrow> f x s = g x s \<rbrakk> \<Longrightarrow> for_each xs f s = for_each ys g t"
proof (induction xs arbitrary: ys s t)
  case (Cons x xs)
  then show ?case by (cases "g x t") auto
qed simp

text \<open>A loop that ends early, with a value, in the first round whose body yields one.\<close>

primrec for_until :: "'x list \<Rightarrow> ('x \<Rightarrow> 's \<Rightarrow> ('s, 'a option) outcome) \<Rightarrow> 's \<Rightarrow> ('s, 'a option) outcome" where
  "for_until [] f s = Ret None s"
| "for_until (x # xs) f s = andthen (f x s) (\<lambda>r s. if r = None then for_until xs f s else Ret r s)"

section \<open>Reasoning about outcomes\<close>

text \<open>
  \<open>returns m Q\<close>: the routine returns, and value and state satisfy \<open>Q\<close> (total correctness).
  \<open>keeps m Q\<close>: in whatever state the routine hands over the processor, by returning or by
  switching to the scheduler, \<open>Q\<close> holds (an invariant; a panic stops the machine).
\<close>

definition returns :: "('s, 'a) outcome \<Rightarrow> ('a \<Rightarrow> 's \<Rightarrow> bool) \<Rightarrow> bool" where
  "returns m Q \<longleftrightarrow> (\<exists>a s. m = Ret a s \<and> Q a s)"

definition keeps :: "('s, 'a) outcome \<Rightarrow> ('s \<Rightarrow> bool) \<Rightarrow> bool" where
  "keeps m Q \<longleftrightarrow> (\<forall>a s. m = Ret a s \<longrightarrow> Q s) \<and> (\<forall>s. m = Switch s \<longrightarrow> Q s)"

named_theorems outcome_simps \<open>evaluation of \<open>returns\<close> and \<open>keeps\<close> over the constructs\<close>
named_theorems frame_simps \<open>fields an operation does not touch\<close>

lemma returns_simps [simp, outcome_simps]:
  "returns (Ret a s) Q = Q a s"
  "returns (Panic e) Q = False"
  "returns (Switch s) Q = False"
  "returns (Undef e) Q = False"
  by (simp_all add: returns_def)

lemma returns_andthen [simp, outcome_simps]:
  "returns (andthen m f) Q = returns m (\<lambda>a s. returns (f a s) Q)"
  by (cases m) (simp_all add: returns_def)

lemma returns_if [simp, outcome_simps]:
  "returns (if b then m else n) Q = (if b then returns m Q else returns n Q)"
  by simp

lemma returns_mono: "returns m P \<Longrightarrow> (\<And>a s. P a s \<Longrightarrow> Q a s) \<Longrightarrow> returns m Q"
  by (auto simp add: returns_def)

lemma returns_andthenI:
  "returns m P \<Longrightarrow> (\<And>a s. P a s \<Longrightarrow> returns (f a s) Q) \<Longrightarrow> returns (andthen m f) Q"
  by (auto simp add: returns_def)

lemma returns_conj: "returns m P \<Longrightarrow> returns m Q \<Longrightarrow> returns m (\<lambda>a s. P a s \<and> Q a s)"
  by (auto simp add: returns_def)

lemma returnsE: "returns m Q \<Longrightarrow> (\<And>a s. m = Ret a s \<Longrightarrow> Q a s \<Longrightarrow> R) \<Longrightarrow> R"
  by (auto simp add: returns_def)

lemma keeps_simps [simp, outcome_simps]:
  "keeps (Ret a s) Q = Q s"
  "keeps (Panic e) Q"
  "keeps (Switch s) Q = Q s"
  "keeps (Undef e) Q"
  by (simp_all add: keeps_def)

lemma keeps_andthenI:
  "keeps m P \<Longrightarrow> (\<And>s. P s \<Longrightarrow> Q s) \<Longrightarrow> (\<And>a s. m = Ret a s \<Longrightarrow> P s \<Longrightarrow> keeps (f a s) Q) \<Longrightarrow> keeps (andthen m f) Q"
  by (cases m) simp_all

lemma keeps_mono: "keeps m P \<Longrightarrow> (\<And>s. P s \<Longrightarrow> Q s) \<Longrightarrow> keeps m Q"
  by (auto simp add: keeps_def)

lemma keeps_for_each:
  "P s \<Longrightarrow> (\<And>x s. x \<in> set xs \<Longrightarrow> P s \<Longrightarrow> keeps (f x s) P) \<Longrightarrow> keeps (for_each xs f s) P"
proof (induction xs arbitrary: s)
  case (Cons x xs)
  from Cons.prems have "keeps (f x s) P" by simp
  then show ?case
    by (auto intro!: keeps_andthenI [of _ P] Cons.IH Cons.prems(2))
qed simp

text \<open>
  The rule for a counting loop that returns: \<open>P i\<close> describes the state before round \<open>i\<close>.
\<close>

lemma returns_for_upto:
  assumes start: "P a s"
    and step: "\<And>i s. a \<le> i \<Longrightarrow> i < b \<Longrightarrow> P i s \<Longrightarrow> returns (f i s) (\<lambda>_. P (Suc i))"
    and le: "a \<le> b"
  shows "returns (for_each [a..<b] f s) (\<lambda>_. P b)"
  using le
proof (induction b rule: dec_induct)
  case base
  then show ?case using start by simp
next
  case (step n)
  have "returns (for_each [a..<n] f s) (\<lambda>_. P n)" by fact
  then have "returns (for_each [a..<n] f s) (\<lambda>_ t. returns (f n t) (\<lambda>_. P (Suc n)))"
    by (rule returns_mono) (simp add: assms(2) step.hyps)
  then show ?case
    using step.hyps by (simp add: for_each_append)
qed

text \<open>
  The rule for a loop with early exit: rounds before that of \<open>x\<close> keep \<open>P\<close> and go on, the round
  of \<open>x\<close> ends the loop.
\<close>

lemma returns_for_until:
  assumes "P s"
    and "\<And>y s. y \<in> set xs \<Longrightarrow> P s \<Longrightarrow> returns (f y s) (\<lambda>r t. r = None \<and> P t)"
    and "\<And>s. P s \<Longrightarrow> returns (f x s) (\<lambda>r t. r \<noteq> None \<and> Q r t)"
  shows "returns (for_until (xs @ x # ys) f s) Q"
  using assms(1,2)
proof (induction xs arbitrary: s)
  case Nil
  then have "returns (f x s) (\<lambda>r t. r \<noteq> None \<and> Q r t)" using assms(3) by blast
  then show ?case unfolding append_Nil for_until.simps by (rule returns_andthenI) auto
next
  case (Cons y xs)
  then have "returns (f y s) (\<lambda>r t. r = None \<and> P t)" by simp
  then show ?case unfolding append_Cons for_until.simps by (rule returns_andthenI) (use Cons in auto)
qed

lemma returns_for_until_none:
  assumes "P s" and "\<And>y s. y \<in> set xs \<Longrightarrow> P s \<Longrightarrow> returns (f y s) (\<lambda>r t. r = None \<and> P t)"
  shows "returns (for_until xs f s) (\<lambda>r t. r = None \<and> P t)"
  using assms
proof (induction xs arbitrary: s)
  case (Cons y xs)
  then have "returns (f y s) (\<lambda>r t. r = None \<and> P t)" by simp
  then show ?case unfolding append_Cons for_until.simps by (rule returns_andthenI) (use Cons in auto)
qed simp

end
