(* ===== verification/Xv6_String.thy ===== *)
theory Xv6_String
  imports Xv6_Prelude
begin

text \<open>
  The memory and string routines of the kernel (\<^verbatim>\<open>string.c\<close>) and of the user library
  (\<^verbatim>\<open>ulib.c\<close>). Routines that write take and return the whole memory, since source and destination
  may overlap; a read-only argument \<open>p\<close> is the function that reads \<open>p[i]\<close>, so \<open>p++\<close> is
  \<open>p \<circ> Suc\<close>. The theorems give the effect of each routine on every byte of memory.
\<close>

section \<open>Kernel routines (string.c)\<close>

text \<open>\<^verbatim>\<open>rep stosb\<close> and \<^verbatim>\<open>rep stosl\<close>: store a byte or a word \<open>cnt\<close> times.\<close>

primrec stosb :: "nat \<Rightarrow> uint \<Rightarrow> uchar \<Rightarrow> memory \<Rightarrow> memory" where
  "stosb 0 a c m = m"
| "stosb (Suc n) a c m = stosb n (a + 1) c (m(a := c))"

primrec stosl :: "nat \<Rightarrow> uint \<Rightarrow> uint \<Rightarrow> memory \<Rightarrow> memory" where
  "stosl 0 a w m = m"
| "stosl (Suc n) a w m = stosl n (a + 4) w (store32 a w m)"

definition memset :: "uint \<Rightarrow> uint \<Rightarrow> uint \<Rightarrow> memory \<Rightarrow> memory" where
  "memset dst c n m =
     (if dst mod 4 = 0 \<and> n mod 4 = 0
      then let c = c AND 0xFF
           in stosl (unat (n div 4)) dst (push_bit 24 c OR push_bit 16 c OR push_bit 8 c OR c) m
      else stosb (unat n) dst (ucast c) m)"

primrec memcmp :: "nat \<Rightarrow> (nat \<Rightarrow> uchar) \<Rightarrow> (nat \<Rightarrow> uchar) \<Rightarrow> int" where
  "memcmp 0 s1 s2 = 0"
| "memcmp (Suc n) s1 s2 =
     (if s1 0 \<noteq> s2 0 then uint (s1 0) - uint (s2 0) else memcmp n (s1 \<circ> Suc) (s2 \<circ> Suc))"

text \<open>The two loops of \<^verbatim>\<open>memmove\<close>: \<^verbatim>\<open>*d++ = *s++\<close> and \<^verbatim>\<open>*--d = *--s\<close>.\<close>

primrec copy_up :: "nat \<Rightarrow> uint \<Rightarrow> uint \<Rightarrow> memory \<Rightarrow> memory" where
  "copy_up 0 d s m = m"
| "copy_up (Suc n) d s m = copy_up n (d + 1) (s + 1) (m(d := m s))"

primrec copy_down :: "nat \<Rightarrow> uint \<Rightarrow> uint \<Rightarrow> memory \<Rightarrow> memory" where
  "copy_down 0 d s m = m"
| "copy_down (Suc n) d s m = copy_down n (d - 1) (s - 1) (m(d - 1 := m (s - 1)))"

definition memmove :: "uint \<Rightarrow> uint \<Rightarrow> uint \<Rightarrow> memory \<Rightarrow> memory" where
  "memmove d s n m =
     (if s < d \<and> s + n > d then copy_down (unat n) (d + n) (s + n) m
      else copy_up (unat n) d s m)"

primrec strncmp :: "nat \<Rightarrow> (nat \<Rightarrow> uchar) \<Rightarrow> (nat \<Rightarrow> uchar) \<Rightarrow> int" where
  "strncmp 0 p q = 0"
| "strncmp (Suc n) p q =
     (if p 0 \<noteq> 0 \<and> p 0 = q 0 then strncmp n (p \<circ> Suc) (q \<circ> Suc)
      else uint (p 0) - uint (q 0))"

text \<open>
  \<^verbatim>\<open>strncpy\<close>: the first loop copies up to and including the terminator, the second pads. The
  loops' count is \<open>nat n\<close>: a negative \<open>n\<close> copies nothing.
\<close>

primrec strncpy_pad :: "nat \<Rightarrow> uint \<Rightarrow> memory \<Rightarrow> memory" where
  "strncpy_pad 0 s m = m"
| "strncpy_pad (Suc n) s m = strncpy_pad n (s + 1) (m(s := 0))"

primrec strncpy_loop :: "nat \<Rightarrow> uint \<Rightarrow> uint \<Rightarrow> memory \<Rightarrow> memory" where
  "strncpy_loop 0 s t m = m"
| "strncpy_loop (Suc n) s t m =
     (if m t \<noteq> 0 then strncpy_loop n (s + 1) (t + 1) (m(s := m t))
      else strncpy_pad n (s + 1) (m(s := m t)))"

definition strncpy :: "uint \<Rightarrow> uint \<Rightarrow> int \<Rightarrow> memory \<Rightarrow> memory" where
  "strncpy s t n m = strncpy_loop (nat n) s t m"

text \<open>\<^verbatim>\<open>safestrcpy\<close>: at most \<open>n - 1\<close> bytes, then a terminator.\<close>

primrec safestrcpy_loop :: "nat \<Rightarrow> uint \<Rightarrow> uint \<Rightarrow> memory \<Rightarrow> memory" where
  "safestrcpy_loop 0 s t m = m(s := 0)"
| "safestrcpy_loop (Suc n) s t m =
     (if m t \<noteq> 0 then safestrcpy_loop n (s + 1) (t + 1) (m(s := m t))
      else (m(s := m t))(s + 1 := 0))"

definition safestrcpy :: "uint \<Rightarrow> uint \<Rightarrow> int \<Rightarrow> memory \<Rightarrow> memory" where
  "safestrcpy s t n m = (if n \<le> 0 then m else safestrcpy_loop (nat (n - 1)) s t m)"

text \<open>\<^verbatim>\<open>strlen\<close> does not return when no terminator follows.\<close>

partial_function (option) strlen_from :: "nat \<Rightarrow> (nat \<Rightarrow> uchar) \<Rightarrow> nat option" where
  "strlen_from n s = (if s n \<noteq> 0 then strlen_from (Suc n) s else Some n)"

definition strlen :: "(nat \<Rightarrow> uchar) \<Rightarrow> nat option" where
  "strlen s = strlen_from 0 s"


section \<open>User library (ulib.c)\<close>

text \<open>
  The pattern of these loops is to run until a terminator; without one they do not return
  (\<open>None\<close>).
\<close>

partial_function (option) strcpy :: "uint \<Rightarrow> uint \<Rightarrow> memory \<Rightarrow> memory option" where
  "strcpy s t m = (if m t \<noteq> 0 then strcpy (s + 1) (t + 1) (m(s := m t)) else Some (m(s := m t)))"

partial_function (option) strcmp :: "(nat \<Rightarrow> uchar) \<Rightarrow> (nat \<Rightarrow> uchar) \<Rightarrow> int option" where
  "strcmp p q =
     (if p 0 \<noteq> 0 \<and> p 0 = q 0 then strcmp (p \<circ> Suc) (q \<circ> Suc)
      else Some (uint (p 0) - uint (q 0)))"

text \<open>\<^verbatim>\<open>strchr\<close> returns the offset of the first match, or a null pointer (\<open>Some None\<close>).\<close>

partial_function (option) strchr_from :: "nat \<Rightarrow> (nat \<Rightarrow> uchar) \<Rightarrow> uchar \<Rightarrow> nat option option" where
  "strchr_from i s c =
     (if s i = 0 then Some None else if s i = c then Some (Some i) else strchr_from (Suc i) s c)"

definition strchr :: "(nat \<Rightarrow> uchar) \<Rightarrow> uchar \<Rightarrow> nat option option" where
  "strchr s c = strchr_from 0 s c"

text \<open>\<^verbatim>\<open>atoi\<close>: the value of the leading decimal digits, in 32-bit arithmetic.\<close>

partial_function (option) atoi_from :: "nat \<Rightarrow> uint \<Rightarrow> (nat \<Rightarrow> uchar) \<Rightarrow> uint option" where
  "atoi_from i n s =
     (if 48 \<le> sint (s i) \<and> sint (s i) \<le> 57
      then atoi_from (Suc i) (n * 10 + ucast (s i) - 48) s else Some n)"

definition atoi :: "(nat \<Rightarrow> uchar) \<Rightarrow> uint option" where
  "atoi s = atoi_from 0 0 s"

definition memset_user :: "uint \<Rightarrow> uchar \<Rightarrow> uint \<Rightarrow> memory \<Rightarrow> memory" where
  "memset_user dst c n m = stosb (unat n) dst c m"

definition memmove_user :: "uint \<Rightarrow> uint \<Rightarrow> int \<Rightarrow> memory \<Rightarrow> memory" where
  "memmove_user dst src n m = copy_up (nat n) dst src m"

section \<open>Memory routines\<close>

lemma stosb_eq: "n \<le> 2 ^ 32 \<Longrightarrow> stosb n a c m x = (if unat (x - a) < n then c else m x)"
proof (induction n arbitrary: a m)
  case (Suc n)
  then show ?case
    using unat_diff_Suc [of x a] unat_diff_pos [of x a] by (cases "x = a") auto
qed simp

lemma stosb_add: "stosb (j + k) a c m = stosb k (a + of_nat j) c (stosb j a c m)"
  by (induction j arbitrary: a m) (simp_all add: algebra_simps)

lemma stosl_eq_stosb:
  assumes "byte 0 w = c" "byte 1 w = c" "byte 2 w = c" "byte 3 w = c"
  shows "stosl n a w m = stosb (4 * n) a c m"
proof (induction n arbitrary: a m)
  case (Suc n)
  have "store32 a w m = stosb 4 a c m"
    using assms by (simp add: store32_def eval_nat_numeral algebra_simps)
  moreover have "stosb (4 * Suc n) a c m = stosb (4 * n) (a + 4) c (stosb 4 a c m)"
    using stosb_add [of 4 "4 * n" a c m] by simp
  ultimately show ?case using Suc.IH by simp
qed simp

lemma byte_spread:
  fixes c :: uint
  assumes "w = push_bit 24 (c AND 0xFF) OR push_bit 16 (c AND 0xFF) OR push_bit 8 (c AND 0xFF) OR (c AND 0xFF)"
    and "i < 4"
  shows "byte i w = ucast c"
proof (rule bit_word_eqI)
  fix n
  assume n: "n < LENGTH(8)"
  have ff: "(0xFF :: uint) = mask 8" by (simp add: mask_eq_exp_minus_1)
  from assms(2) consider "i = 0" | "i = 1" | "i = 2" | "i = 3" by linarith
  then show "bit (byte i w) n = bit (ucast c :: uchar) n"
    using n unfolding assms(1) ff by cases (simp_all add: byte_def bit_simps)
qed

lemma memset_eq: "memset d c n m x = (if unat (x - d) < unat n then ucast c else m x)"
proof (cases "d mod 4 = 0 \<and> n mod 4 = 0")
  case True
  then have "unat n mod 4 = 0"
    using unat_mod [of n 4] by simp
  then have len: "4 * unat (n div 4) = unat n" using mult_div_mod_eq [of 4 "unat n"] by (simp add: unat_div)
  define w where "w = push_bit 24 (c AND 0xFF) OR push_bit 16 (c AND 0xFF) OR push_bit 8 (c AND 0xFF) OR (c AND 0xFF)"
  have "stosl k a w m = stosb (4 * k) a (ucast c) m" for k a
    using byte_spread [OF w_def] by (simp add: stosl_eq_stosb)
  moreover have "memset d c n m = stosl (unat (n div 4)) d w m"
    using True by (simp only: memset_def Let_def w_def if_P)
  ultimately show ?thesis
    using len unat_bound [of n] by (simp add: stosb_eq)
next
  case False
  then show ?thesis using unat_bound [of n] by (auto simp add: memset_def stosb_eq)
qed

lemma copy_up_eq:
  "n \<le> 2 ^ 32 \<Longrightarrow> n \<le> unat (d - s) \<or> d = s \<Longrightarrow>
   copy_up n d s m x = (if unat (x - d) < n then m (s + (x - d)) else m x)"
proof (induction n arbitrary: d s m)
  case (Suc n)
  show ?case
  proof (cases "x = d")
    case False
    have "s + (x - d) \<noteq> d \<or> s = d" if "unat (x - d) < Suc n"
    proof -
      have "s + (x - d) = d \<Longrightarrow> x - d = d - s" by (simp add: algebra_simps)
      then show ?thesis using that Suc.prems(2) by fastforce
    qed
    with Suc unat_diff_Suc [OF False] unat_diff_pos [OF False] show ?thesis
      by (auto simp: algebra_simps)
  qed (use Suc in auto)
qed simp

lemma copy_down_eq:
  "n \<le> 2 ^ 32 \<Longrightarrow> n \<le> unat (s - d) \<or> d = s \<Longrightarrow>
   copy_down n d s m x = (if unat (d - 1 - x) < n then m (s - (d - x)) else m x)"
proof (induction n arbitrary: d s m)
  case (Suc n)
  show ?case
  proof (cases "x = d - 1")
    case False
    have step: "unat (d - 1 - 1 - x) = unat (d - 1 - x) - 1" "0 < unat (d - 1 - x)"
      using unat_minus_one [of "d - 1 - x"] False unat_diff_pos [of "d - 1" x]
      by (auto simp: algebra_simps)
    have "s - (d - x) \<noteq> d - 1 \<or> s = d" if "unat (d - 1 - x) < Suc n"
    proof -
      have "s - (d - x) = d - 1 \<Longrightarrow> d - 1 - x = s - d" by (simp add: algebra_simps)
      then show ?thesis using that Suc.prems(2) by fastforce
    qed
    then show ?thesis using Suc step False by (auto simp: algebra_simps)
  qed (use Suc in auto)
qed simp

text \<open>
  \<^verbatim>\<open>memmove\<close> moves the bytes whatever the overlap, and changes nothing else, as long as neither
  area reaches the end of the address space.
\<close>

lemma memmove_eq:
  assumes "unat s + unat n < 2 ^ 32" "unat d + unat n < 2 ^ 32"
  shows "memmove d s n m x = (if unat (x - d) < unat n then m (s + (x - d)) else m x)"
proof (cases "s < d \<and> s + n > d")
  case True
  have "unat n \<le> unat (s - d)"
    using assms True by (simp add: unat_sub_if' word_less_nat_alt split: if_splits)
  moreover have "unat (d + n - 1 - x) < unat n \<longleftrightarrow> unat (x - d) < unat n"
    using unat_mirror [of n "x - d"] by (simp add: algebra_simps)
  ultimately have "copy_down (unat n) (d + n) (s + n) m x =
      (if unat (x - d) < unat n then m (s + n - (d + n - x)) else m x)"
    using unat_bound [of n] by (subst copy_down_eq) auto
  moreover have "s + n - (d + n - x) = s + (x - d)" by (simp add: algebra_simps)
  ultimately show ?thesis using True by (simp add: memmove_def)
next
  case False
  have "unat n \<le> unat (d - s) \<or> d = s"
    using assms False
    by (auto simp: unat_sub_if' word_less_nat_alt unat_plus_if' word_unat_eq_iff split: if_splits)
  then show ?thesis
    using False unat_bound [of n] by (auto simp: memmove_def copy_up_eq)
qed

section \<open>String routines\<close>

text \<open>
  The bytes \<^verbatim>\<open>strncpy\<close> leaves in its destination: those of the source up to its terminator,
  then zeros.
\<close>

definition padded :: "(nat \<Rightarrow> uchar) \<Rightarrow> nat \<Rightarrow> uchar" where
  "padded r i = (if \<forall>j<i. r j \<noteq> 0 then r i else 0)"

lemma padded_0 [simp]: "padded r 0 = r 0"
  by (simp add: padded_def)

lemma padded_Suc: "padded r (Suc i) = (if r 0 \<noteq> 0 then padded (r \<circ> Suc) i else 0)"
  by (auto simp add: padded_def less_Suc_eq_0_disj)

lemma padded_cong: "(\<And>j. j \<le> i \<Longrightarrow> r j = r' j) \<Longrightarrow> padded r i = padded r' i"
  by (auto simp add: padded_def)

lemma next_source_kept:
  fixes s t :: uint
  assumes "Suc n \<le> unat (s - t) \<or> s = t" and "j < n"
  shows "(m(s := m t)) (t + 1 + of_nat j) = m (t + 1 + of_nat j)"
proof (cases "s = t")
  case False
  with assms have far: "Suc j < unat (s - t)" by simp
  have "s \<noteq> t + 1 + of_nat j"
  proof
    assume "s = t + 1 + of_nat j"
    then have "s - t = of_nat (Suc j)" by (simp add: algebra_simps)
    moreover have "Suc j < 2 ^ 32" using far unat_bound [of "s - t"] by linarith
    ultimately have "unat (s - t) = Suc j" by (simp add: unat_of_nat del: of_nat_Suc)
    with far show False by simp
  qed
  then show ?thesis by simp
qed simp

lemma strncpy_pad_eq: "n \<le> 2 ^ 32 \<Longrightarrow> strncpy_pad n s m x = (if unat (x - s) < n then 0 else m x)"
proof (induction n arbitrary: s m)
  case (Suc n)
  then show ?case
    using unat_diff_Suc [of x s] unat_diff_pos [of x s] by (cases "x = s") auto
qed simp

lemma strncpy_loop_eq:
  "n \<le> 2 ^ 32 \<Longrightarrow> n \<le> unat (s - t) \<or> s = t \<Longrightarrow>
   strncpy_loop n s t m x =
     (if unat (x - s) < n then padded (\<lambda>i. m (t + of_nat i)) (unat (x - s)) else m x)"
proof (induction n arbitrary: s t m)
  case (Suc n)
  show ?case
  proof (cases "x = s")
    case True
    with Suc show ?thesis by (auto simp: strncpy_pad_eq)
  next
    case False
    define m' where "m' = m(s := m t)"
    define k where "k = unat (x - s) - 1"
    have k: "unat (x - s) = Suc k" "unat (x - (s + 1)) = k"
      using unat_diff_pos [OF False] unat_diff_Suc [OF False] by (simp_all add: k_def)
    have rest: "padded (\<lambda>i. m' (t + 1 + of_nat i)) k = padded ((\<lambda>i. m (t + of_nat i)) \<circ> Suc) k" if "k < n"
    proof (rule padded_cong)
      fix j
      assume "j \<le> k"
      then have "m' (t + 1 + of_nat j) = m (t + 1 + of_nat j)"
        unfolding m'_def using that by (intro next_source_kept [OF Suc.prems(2)]) simp
      then show "m' (t + 1 + of_nat j) = ((\<lambda>i. m (t + of_nat i)) \<circ> Suc) j"
        by (simp add: add.assoc)
    qed
    show ?thesis
    proof (cases "m t = 0")
      case True
      then show ?thesis
        using Suc.prems False k by (auto simp: strncpy_pad_eq padded_Suc)
    next
      case nz: False
      have "strncpy_loop n (s + 1) (t + 1) m' x =
         (if k < n then padded (\<lambda>i. m' (t + 1 + of_nat i)) k else m' x)"
        using Suc.prems Suc.IH [of "s + 1" "t + 1" m'] k by auto
      with nz k rest False show ?thesis by (auto simp: m'_def padded_Suc)
    qed
  qed
qed simp

text \<open>\<^verbatim>\<open>strncpy\<close> fills exactly \<open>n\<close> bytes: the string, cut at \<open>n\<close>, padded with zeros.\<close>

lemma strncpy_eq:
  assumes "nat n \<le> unat (s - t) \<or> s = t" and "n \<le> 2 ^ 32"
  shows "strncpy s t n m x =
     (if unat (x - s) < nat n then padded (\<lambda>i. m (t + of_nat i)) (unat (x - s)) else m x)"
  unfolding strncpy_def using assms by (intro strncpy_loop_eq) auto

text \<open>
  \<^verbatim>\<open>safestrcpy\<close> leaves a terminated string in the first \<open>n\<close> bytes of the destination: a prefix
  of the source, cut at \<open>n - 1\<close>, and touches nothing outside those \<open>n\<close> bytes.
\<close>

lemma safestrcpy_loop_prefix:
  "Suc n \<le> unat (s - t) \<or> s = t \<Longrightarrow> Suc n < 2 ^ 32 \<Longrightarrow>
   \<exists>k\<le>n. (\<forall>i<k. safestrcpy_loop n s t m (s + of_nat i) = m (t + of_nat i) \<and> m (t + of_nat i) \<noteq> 0)
     \<and> safestrcpy_loop n s t m (s + of_nat k) = 0
     \<and> (k < n \<longrightarrow> m (t + of_nat k) = 0)
     \<and> (\<forall>x. unat (x - s) > n \<longrightarrow> safestrcpy_loop n s t m x = m x)"
proof (induction n arbitrary: s t m)
  case 0
  then show ?case by auto
next
  case (Suc n)
  show ?case
  proof (cases "m t = 0")
    case True
    then show ?thesis by (intro exI [of _ 0]) auto
  next
    case False
    define m' where "m' = m(s := m t)"
    let ?r = "safestrcpy_loop n (s + 1) (t + 1) m'"
    have kept: "m' (t + 1 + of_nat j) = m (t + 1 + of_nat j)" if "j < Suc n" for j
      unfolding m'_def using next_source_kept [OF Suc.prems(1) that] .
    obtain k where k: "k \<le> n"
      "\<And>i. i < k \<Longrightarrow> ?r (s + 1 + of_nat i) = m' (t + 1 + of_nat i) \<and> m' (t + 1 + of_nat i) \<noteq> 0"
      "?r (s + 1 + of_nat k) = 0" "k < n \<Longrightarrow> m' (t + 1 + of_nat k) = 0"
      "\<And>x. unat (x - (s + 1)) > n \<Longrightarrow> ?r x = m' x"
    proof -
      have "Suc n \<le> unat (s + 1 - (t + 1)) \<or> s + 1 = t + 1" "Suc n < 2 ^ 32"
        using Suc.prems by auto
      from Suc.IH [OF this, of m'] that show thesis by blast
    qed
    have at_s: "?r s = m t" using k(5) [of s] Suc.prems(2) by (simp add: m'_def)
    have r: "safestrcpy_loop (Suc n) s t m = ?r" using False by (simp add: m'_def)
    have "?r x = m x" if "unat (x - s) > Suc n" for x
    proof -
      have "x \<noteq> s" using that by auto
      with that k(5) [of x] unat_diff_Suc [of x s] show ?thesis by (simp add: m'_def)
    qed
    moreover have "?r (s + of_nat i) = m (t + of_nat i) \<and> m (t + of_nat i) \<noteq> 0" if "i < Suc k" for i
      using that k(1) k(2) [of "i - 1"] kept [of "i - 1"] at_s False
      by (cases i) (auto simp: add.assoc)
    moreover have "?r (s + of_nat (Suc k)) = 0" using k(3) by (simp add: add.assoc)
    moreover have "Suc k < Suc n \<longrightarrow> m (t + of_nat (Suc k)) = 0"
      using k(4) kept [of k] by (simp add: add.assoc)
    ultimately show ?thesis using k(1) unfolding r by (intro exI [of _ "Suc k"]) auto
  qed
qed

section \<open>Comparison and search\<close>

lemma memcmp_eq_0: "memcmp n s1 s2 = 0 \<longleftrightarrow> (\<forall>i<n. s1 i = s2 i)"
  by (induction n arbitrary: s1 s2) (simp_all add: All_less_Suc2 word_uint_eq_iff)

lemma strncmp_eq_0: "strncmp n p q = 0 \<longleftrightarrow> (\<forall>i<n. (\<forall>j<i. p j \<noteq> 0) \<longrightarrow> p i = q i)"
proof (induction n arbitrary: p q)
  case (Suc n)
  show ?case
    by (cases "p 0 = 0"; cases "p 0 = q 0") (simp_all add: Suc All_less_Suc2 word_uint_eq_iff)
qed simp

lemma strncmp_swap: "strncmp n q p = - strncmp n p q"
proof (induction n arbitrary: p q)
  case (Suc n)
  show ?case by (cases "p 0 = q 0") (simp_all add: comp_def Suc [of "\<lambda>a. q (Suc a)"])
qed simp

text \<open>\<^verbatim>\<open>strlen\<close> returns the offset of the first terminator, and returns only if there is one.\<close>

lemma strlen_from_terminated:
  "n \<le> k \<Longrightarrow> s k = 0 \<Longrightarrow> (\<And>j. n \<le> j \<Longrightarrow> j < k \<Longrightarrow> s j \<noteq> 0) \<Longrightarrow> strlen_from n s = Some k"
  by (induction rule: inc_induct) (simp_all add: strlen_from.simps)

lemma strlen_from_Some:
  assumes "strlen_from n s = Some k"
  shows "s k = 0 \<and> n \<le> k \<and> (\<forall>j. n \<le> j \<and> j < k \<longrightarrow> s j \<noteq> 0)"
proof (rule strlen_from.raw_induct [where P = "\<lambda>n s k. s k = 0 \<and> n \<le> k \<and> (\<forall>j. n \<le> j \<and> j < k \<longrightarrow> s j \<noteq> 0)", OF _ assms])
  fix f n s k
  assume IH: "\<And>n s k. f n s = Some k \<Longrightarrow> s k = 0 \<and> n \<le> k \<and> (\<forall>j. n \<le> j \<and> j < k \<longrightarrow> s j \<noteq> 0)"
    and eq: "(if s n \<noteq> 0 then f (Suc n) s else Some n) = Some k"
  show "s k = 0 \<and> n \<le> k \<and> (\<forall>j. n \<le> j \<and> j < k \<longrightarrow> s j \<noteq> 0)"
    using eq IH [of "Suc n" s k] by (cases "s n = 0") (auto, metis Suc_leI le_neq_implies_less)
qed

lemma strlen_Some_iff: "strlen s = Some k \<longleftrightarrow> s k = 0 \<and> (\<forall>j<k. s j \<noteq> 0)"
  unfolding strlen_def using strlen_from_Some [of 0 s k] by (auto intro: strlen_from_terminated)

lemma strchr_from_found:
  "n \<le> k \<Longrightarrow> s k = c \<Longrightarrow> c \<noteq> 0 \<Longrightarrow> (\<And>j. n \<le> j \<Longrightarrow> j < k \<Longrightarrow> s j \<noteq> 0 \<and> s j \<noteq> c) \<Longrightarrow>
   strchr_from n s c = Some (Some k)"
  by (induction rule: inc_induct) (simp_all add: strchr_from.simps)

lemma strchr_from_end:
  "n \<le> k \<Longrightarrow> s k = 0 \<Longrightarrow> (\<And>j. n \<le> j \<Longrightarrow> j < k \<Longrightarrow> s j \<noteq> 0 \<and> s j \<noteq> c) \<Longrightarrow>
   strchr_from n s c = Some None"
  by (induction rule: inc_induct) (simp_all add: strchr_from.simps)

text \<open>\<^verbatim>\<open>strchr\<close> never finds the terminator itself: \<^verbatim>\<open>strchr(s, 0)\<close> is a null pointer.\<close>

lemma strchr_eq:
  assumes "s n = 0" and "\<forall>j<n. s j \<noteq> 0"
  shows "strchr s c = Some (find (\<lambda>i. s i = c) [0..<n])"
proof (cases "find (\<lambda>i. s i = c) [0..<n]")
  case None
  then have "\<forall>j<n. s j \<noteq> c" by (auto simp: find_None_iff)
  then show ?thesis using None assms by (auto simp: strchr_def intro: strchr_from_end)
next
  case (Some i)
  then have "i < n" "s i = c" "\<forall>j<i. s j \<noteq> c" by (auto simp: find_Some_iff)
  then show ?thesis using Some assms by (auto simp: strchr_def intro!: strchr_from_found)
qed

lemma strcmp_terminated:
  "p n = 0 \<Longrightarrow> strcmp p q = Some (strncmp (Suc n) p q)"
proof (induction n arbitrary: p q)
  case 0
  then show ?case by (simp add: strcmp.simps [of p q])
next
  case (Suc n)
  then show ?case using Suc.IH [of "p \<circ> Suc" "q \<circ> Suc"] by (simp add: strcmp.simps [of p q] comp_def)
qed

section \<open>Properties\<close>

text \<open>
  \<^bold>\<open>C18.\<close> Kernel \<^verbatim>\<open>memmove\<close> copies correctly whatever the overlap. When neither range wraps around the
  address space, afterwards every byte of the destination range holds what the corresponding
  source byte held before the call, and no other byte has changed.
\<close>
theorem memmove_correct:
  assumes "unat s + unat n < 2 ^ 32" "unat d + unat n < 2 ^ 32"
  shows "memmove d s n m x = (if unat (x - d) < unat n then m (s + (x - d)) else m x)"
  by (rule memmove_eq [OF assms])

theorem memmove_correct_witness:
  "memmove 101 100 3 (\<lambda>a. ucast a) 103 = 102"
  using memmove_correct [of 100 3 101 "\<lambda>a. ucast a" 103] by simp

text \<open>
  Kernel \<^verbatim>\<open>memset\<close>, which stores whole words when pointer and length are multiples of four,
  is the byte-by-byte loop: both leave the same memory for every address, byte and length.
\<close>
lemma memset_is_byte_loop: "memset d c n m = stosb (unat n) d (ucast c) m"
proof
  fix x
  have "unat n \<le> 2 ^ 32" using unat_bound [of n] by simp
  then show "memset d c n m x = stosb (unat n) d (ucast c) m x" by (simp add: memset_eq stosb_eq)
qed

text \<open>
  \<^verbatim>\<open>safestrcpy\<close> always terminates what it copies: for \<open>n > 0\<close> the destination holds a prefix of
  the source string, of at most \<open>n - 1\<close> bytes, followed by a zero byte within the first \<open>n\<close> bytes.
\<close>

lemma safestrcpy_terminates_string:
  assumes "0 < n" "n < 2 ^ 32" "nat n \<le> unat (s - t) \<or> s = t"
  shows "\<exists>k<nat n. safestrcpy s t n m (s + of_nat k) = 0
     \<and> (\<forall>i<k. safestrcpy s t n m (s + of_nat i) = m (t + of_nat i) \<and> m (t + of_nat i) \<noteq> 0)"
proof -
  have n: "Suc (nat (n - 1)) = nat n" using assms(1) by simp
  have "nat n < 2 ^ 32" using assms(1,2) by (simp add: nat_less_iff)
  then have "\<exists>k\<le>nat (n - 1). (\<forall>i<k. safestrcpy_loop (nat (n - 1)) s t m (s + of_nat i) = m (t + of_nat i) \<and> m (t + of_nat i) \<noteq> 0)
     \<and> safestrcpy_loop (nat (n - 1)) s t m (s + of_nat k) = 0"
    using safestrcpy_loop_prefix [of "nat (n - 1)" s t m] assms(3) unfolding n by blast
  then show ?thesis using assms(1) n by (auto simp: safestrcpy_def less_Suc_eq_le [symmetric])
qed

end
