(* ===== verification/Xv6_Kernel.thy ===== *)
theory Xv6_Kernel
  imports Xv6_String
begin

text \<open>
  The state every part of the kernel shares (\<^verbatim>\<open>proc.h\<close>, \<^verbatim>\<open>x86.h\<close>, \<^verbatim>\<open>param.h\<close>): the process
  table, the running process, the locks this processor holds, physical memory and the symbols
  the linker defines; and the primitives the other parts are written with: taking and releasing
  a lock, \<^verbatim>\<open>sched\<close>, \<^verbatim>\<open>sleep\<close> and \<^verbatim>\<open>wakeup\<close> (\<^verbatim>\<open>proc.c\<close>).

  A kernel routine is modelled as it runs on one processor. \<open>acquire\<close> and \<open>release\<close> keep the set
  of locks this processor holds and panic exactly where \<^verbatim>\<open>spinlock.c\<close> does; waiting for another
  processor is not visible in this view. The theory of spin locks models the routines of
  \<^verbatim>\<open>spinlock.c\<close> themselves, with several processors, and relates the two.
\<close>

section \<open>Parameters (param.h)\<close>

abbreviation "NPROC \<equiv> (64::nat)"
abbreviation "KSTACKSIZE \<equiv> (4096::nat)"
abbreviation "NCPU \<equiv> (8::nat)"
abbreviation "NOFILE \<equiv> (16::nat)"
abbreviation "NFILE \<equiv> (100::nat)"
abbreviation "NINODE \<equiv> (50::nat)"
abbreviation "NDEV \<equiv> (10::nat)"
abbreviation "ROOTDEV \<equiv> (1::uint)"
abbreviation "MAXARG \<equiv> (32::nat)"
abbreviation "MAXOPBLOCKS \<equiv> (10::nat)"
abbreviation "LOGSIZE \<equiv> (30::nat)"
abbreviation "NBUF \<equiv> (30::nat)"
abbreviation "FSSIZE \<equiv> (1000::uint)"

section \<open>Data\<close>

datatype lock = LkPtable | LkKmem | LkBcache | LkLog | LkIcache | LkFtable | LkIde | LkTicks
  | LkCons | LkPipe uint

text \<open>
  The addresses that processes sleep on: a buffer, an inode, a process, the log, the tick
  counter, the two counters of a pipe, the console input.
\<close>

datatype chan = ChBuf nat | ChInode nat | ChProc nat | ChLog | ChTicks
  | ChPipeRead uint | ChPipeWrite uint | ChInput

datatype procstate = UNUSED | EMBRYO | SLEEPING | RUNNABLE | RUNNING | ZOMBIE

record kcontext =
  c_edi :: uint
  c_esi :: uint
  c_ebx :: uint
  c_ebp :: uint
  c_eip :: uint

record trapframe =
  tf_edi :: uint
  tf_esi :: uint
  tf_ebp :: uint
  tf_oesp :: uint
  tf_ebx :: uint
  tf_edx :: uint
  tf_ecx :: uint
  tf_eax :: uint
  tf_gs :: ushort
  tf_fs :: ushort
  tf_es :: ushort
  tf_ds :: ushort
  tf_trapno :: uint
  tf_err :: uint
  tf_eip :: uint
  tf_cs :: ushort
  tf_eflags :: uint
  tf_esp :: uint
  tf_ss :: ushort

text \<open>
  \<^verbatim>\<open>struct proc\<close>. Pointers into a table are indices (\<open>None\<close> is the null pointer), page
  directories and kernel stacks are kernel addresses with 0 for null.
\<close>

record proc =
  p_sz :: uint
  p_pgdir :: uint
  p_kstack :: uint
  p_state :: procstate
  p_pid :: int
  p_parent :: "nat option"
  p_tf :: trapframe
  p_context :: kcontext
  p_chan :: "chan option"
  p_killed :: bool
  p_ofile :: "nat \<Rightarrow> nat option"
  p_cwd :: "nat option"
  p_name :: string
  p_priority :: int
  p_timecpu :: int

text \<open>Addresses the linker assigns: constants of a kernel image.\<close>

record symbols =
  sym_end :: uint
  sym_data :: uint
  sym_forkret :: uint
  sym_trapret :: uint

text \<open>
  The last three fields are the page directory the scheduler runs on, the page-table register and
  the stack pointer that the processor loads on a trap from user mode.
\<close>

record kstate =
  held :: "lock set"
  curproc :: "nat option"
  ptable :: "nat \<Rightarrow> proc"
  initproc :: "nat option"
  nextpid :: int
  ticks :: uint
  syscount :: int
  prioritybump :: int
  mem :: memory
  syms :: symbols
  consout :: string
  kpgdir :: uint
  cr3 :: uint
  ts_esp0 :: uint

definition upd_proc :: "nat \<Rightarrow> (proc \<Rightarrow> proc) \<Rightarrow> 'a kstate_scheme \<Rightarrow> 'a kstate_scheme" where
  "upd_proc i f s = s\<lparr>ptable := (ptable s)(i := f (ptable s i))\<rparr>"

definition cputs :: "string \<Rightarrow> 'a kstate_scheme \<Rightarrow> 'a kstate_scheme" where
  "cputs msg s = s\<lparr>consout := consout s @ msg\<rparr>"

section \<open>Locks, as one processor sees them\<close>

definition acquire :: "lock \<Rightarrow> 'a kstate_scheme \<Rightarrow> ('a kstate_scheme, unit) outcome" where
  "acquire lk s = (if lk \<in> held s then Panic ''acquire'' else Ret () (s\<lparr>held := insert lk (held s)\<rparr>))"

definition release :: "lock \<Rightarrow> 'a kstate_scheme \<Rightarrow> ('a kstate_scheme, unit) outcome" where
  "release lk s = (if lk \<notin> held s then Panic ''release'' else Ret () (s\<lparr>held := held s - {lk}\<rparr>))"

section \<open>Giving up the processor (proc.c)\<close>

text \<open>
  \<^verbatim>\<open>sched\<close>: a processor that holds exactly \<^verbatim>\<open>ptable.lock\<close> switches to its scheduler. Every
  \<^verbatim>\<open>pushcli\<close> of these routines comes from \<^verbatim>\<open>acquire\<close>, so \<^verbatim>\<open>cpu->ncli\<close> is the number of locks held and
  interrupts are off.
\<close>

definition sched :: "'a kstate_scheme \<Rightarrow> ('a kstate_scheme, unit) outcome" where
  "sched s =
     (if LkPtable \<notin> held s then Panic ''sched ptable.lock''
      else if held s \<noteq> {LkPtable} then Panic ''sched locks''
      else case curproc s of
        None \<Rightarrow> Undef ''sched: proc''
      | Some p \<Rightarrow> if p_state (ptable s p) = RUNNING then Panic ''sched running'' else Switch s)"

text \<open>
  \<^verbatim>\<open>sleep\<close>, up to the switch, and what it does when the process is scheduled again. A caller that
  sleeps in a loop is modelled up to the switch: when it runs again it starts over at the head
  of that loop.
\<close>

definition sleep :: "chan \<Rightarrow> lock \<Rightarrow> 'a kstate_scheme \<Rightarrow> ('a kstate_scheme, unit) outcome" where
  "sleep ch lk s =
     (case curproc s of
        None \<Rightarrow> Panic ''sleep''
      | Some p \<Rightarrow>
          andthen (if lk \<noteq> LkPtable
                   then andthen (acquire LkPtable s) (\<lambda>_ s. release lk s) else Ret () s) (\<lambda>_ s.
          sched (upd_proc p (\<lambda>q. q\<lparr>p_chan := Some ch, p_state := SLEEPING\<rparr>) s)))"

definition sleep_resume :: "lock \<Rightarrow> 'a kstate_scheme \<Rightarrow> ('a kstate_scheme, unit) outcome" where
  "sleep_resume lk s =
     (case curproc s of
        None \<Rightarrow> Undef ''sleep: proc''
      | Some p \<Rightarrow>
          let s = upd_proc p (\<lambda>q. q\<lparr>p_chan := None\<rparr>) s in
          if lk \<noteq> LkPtable then andthen (release LkPtable s) (\<lambda>_ s. acquire lk s) else Ret () s)"

definition yield :: "'a kstate_scheme \<Rightarrow> ('a kstate_scheme, unit) outcome" where
  "yield s =
     andthen (acquire LkPtable s) (\<lambda>_ s.
     case curproc s of
       None \<Rightarrow> Undef ''yield: proc''
     | Some p \<Rightarrow>
         andthen (sched (upd_proc p (\<lambda>q. q\<lparr>p_state := RUNNABLE\<rparr>) s)) (\<lambda>_ s. release LkPtable s))"

definition wakeup1 :: "chan \<Rightarrow> 'a kstate_scheme \<Rightarrow> 'a kstate_scheme" where
  "wakeup1 ch s = s\<lparr>ptable := (\<lambda>i.
     if i < NPROC \<and> p_state (ptable s i) = SLEEPING \<and> p_chan (ptable s i) = Some ch
     then (ptable s i)\<lparr>p_state := RUNNABLE\<rparr> else ptable s i)\<rparr>"

definition wakeup :: "chan \<Rightarrow> 'a kstate_scheme \<Rightarrow> ('a kstate_scheme, unit) outcome" where
  "wakeup ch s =
     andthen (acquire LkPtable s) (\<lambda>_ s. release LkPtable (wakeup1 ch s))"

section \<open>Basic facts\<close>

lemma upd_proc_simps [simp]:
  "ptable (upd_proc i f s) j = (if j = i then f (ptable s i) else ptable s j)"
  "held (upd_proc i f s) = held s"
  "curproc (upd_proc i f s) = curproc s"
  "initproc (upd_proc i f s) = initproc s"
  "nextpid (upd_proc i f s) = nextpid s"
  "mem (upd_proc i f s) = mem s"
  "syms (upd_proc i f s) = syms s"
  "ticks (upd_proc i f s) = ticks s"
  "consout (upd_proc i f s) = consout s"
  "kpgdir (upd_proc i f s) = kpgdir s"
  "cr3 (upd_proc i f s) = cr3 s"
  "ts_esp0 (upd_proc i f s) = ts_esp0 s"
  "kstate.more (upd_proc i f s) = kstate.more s"
  by (simp_all add: upd_proc_def)

lemma wakeup1_simps [simp]:
  "held (wakeup1 ch s) = held s"
  "curproc (wakeup1 ch s) = curproc s"
  "initproc (wakeup1 ch s) = initproc s"
  "nextpid (wakeup1 ch s) = nextpid s"
  "mem (wakeup1 ch s) = mem s"
  "syms (wakeup1 ch s) = syms s"
  "ticks (wakeup1 ch s) = ticks s"
  "consout (wakeup1 ch s) = consout s"
  "kpgdir (wakeup1 ch s) = kpgdir s"
  "cr3 (wakeup1 ch s) = cr3 s"
  "ts_esp0 (wakeup1 ch s) = ts_esp0 s"
  "kstate.more (wakeup1 ch s) = kstate.more s"
  by (simp_all add: wakeup1_def)

lemma acquire_free [simp]:
  "lk \<notin> held s \<Longrightarrow> acquire lk s = Ret () (s\<lparr>held := insert lk (held s)\<rparr>)"
  by (simp add: acquire_def)

lemma release_held [simp]:
  "lk \<in> held s \<Longrightarrow> release lk s = Ret () (s\<lparr>held := held s - {lk}\<rparr>)"
  by (simp add: release_def)

text \<open>A wakeup leaves everything but process states alone, and the lock set as it was.\<close>

lemma wakeup_eq:
  "LkPtable \<notin> held s \<Longrightarrow> wakeup ch s = Ret () (wakeup1 ch s)"
  by (simp add: wakeup_def wakeup1_def cong: if_cong)

lemma wakeup_held: "LkPtable \<in> held s \<Longrightarrow> wakeup ch s = Panic ''acquire''"
  by (simp add: wakeup_def acquire_def)

end
