(* ===== verification/Xv6_Mmu.thy ===== *)
theory Xv6_Mmu
  imports Xv6_Prelude
begin

text \<open>
  The address arithmetic of \<^verbatim>\<open>memlayout.h\<close> and \<^verbatim>\<open>mmu.h\<close>: the kernel's direct map, page rounding
  and the three-part structure of a virtual address.
\<close>

section \<open>Definitions\<close>

abbreviation "EXTMEM \<equiv> (0x100000 :: uint)"
abbreviation "PHYSTOP \<equiv> (0xE000000 :: uint)"
abbreviation "DEVSPACE \<equiv> (0xFE000000 :: uint)"
abbreviation "KERNBASE \<equiv> (0x80000000 :: uint)"
abbreviation "KERNLINK \<equiv> (0x80100000 :: uint)"
abbreviation "PGSIZE \<equiv> (4096 :: uint)"
abbreviation "NPDENTRIES \<equiv> (1024 :: nat)"
abbreviation "NPTENTRIES \<equiv> (1024 :: nat)"
abbreviation "PTE_P \<equiv> (0x001 :: uint)"
abbreviation "PTE_W \<equiv> (0x002 :: uint)"
abbreviation "PTE_U \<equiv> (0x004 :: uint)"

definition V2P :: "uint \<Rightarrow> uint" where
  "V2P a = a - KERNBASE"

definition P2V :: "uint \<Rightarrow> uint" where
  "P2V a = a + KERNBASE"

definition PDX :: "uint \<Rightarrow> uint" where
  "PDX va = drop_bit 22 va AND 0x3FF"

definition PTX :: "uint \<Rightarrow> uint" where
  "PTX va = drop_bit 12 va AND 0x3FF"

definition PGADDR :: "uint \<Rightarrow> uint \<Rightarrow> uint \<Rightarrow> uint" where
  "PGADDR d t o' = push_bit 22 d OR push_bit 12 t OR o'"

definition PGROUNDUP :: "uint \<Rightarrow> uint" where
  "PGROUNDUP sz = (sz + PGSIZE - 1) AND NOT (PGSIZE - 1)"

definition PGROUNDDOWN :: "uint \<Rightarrow> uint" where
  "PGROUNDDOWN a = a AND NOT (PGSIZE - 1)"

definition PTE_ADDR :: "uint \<Rightarrow> uint" where
  "PTE_ADDR pte = pte AND NOT 0xFFF"

definition PTE_FLAGS :: "uint \<Rightarrow> uint" where
  "PTE_FLAGS pte = pte AND 0xFFF"

section \<open>Facts\<close>

lemma V2P_P2V [simp]: "V2P (P2V a) = a" and P2V_V2P [simp]: "P2V (V2P a) = a"
  by (simp_all add: V2P_def P2V_def)

lemma mask12: "(0xFFF :: uint) = mask 12" and mask10: "(0x3FF :: uint) = mask 10"
  by (simp_all add: mask_eq_exp_minus_1)

lemma and_mask12: "a AND 0xFFF = a mod (4096 :: uint)"
  unfolding mask12 by (simp add: take_bit_eq_mask [symmetric] take_bit_eq_mod)

lemma and_not_mask12: "a AND NOT 0xFFF = a div 4096 * (4096 :: uint)"
proof -
  have "a AND NOT (mask 12) = push_bit 12 (drop_bit 12 a)"
    by (rule bit_word_eqI) (auto simp: bit_simps)
  then show ?thesis unfolding mask12 by (simp add: push_bit_eq_mult drop_bit_eq_div)
qed

lemma unat_div_4096 [simp]: "unat (a div 4096 :: uint) = unat a div 4096"
  by (simp add: unat_div)

lemma unat_mod_4096 [simp]: "unat (a mod 4096 :: uint) = unat a mod 4096"
  by (simp add: unat_mod)

lemma unat_page_down [simp]: "unat (a div 4096 * 4096 :: uint) = unat a div 4096 * 4096"
  using unat_bound [of a] by (simp add: unat_word_ariths div_times_less_eq_dividend less_le_trans)

lemma unat_PGROUNDDOWN: "unat (PGROUNDDOWN a) = unat a div 4096 * 4096"
  using and_not_mask12 [of a] by (simp add: PGROUNDDOWN_def)

lemma unat_PTE_ADDR: "unat (PTE_ADDR a) = unat a div 4096 * 4096"
  using and_not_mask12 [of a] by (simp add: PTE_ADDR_def)

lemma unat_PGROUNDUP:
  assumes "unat a + 4095 < 2 ^ 32"
  shows "unat (PGROUNDUP a) = (unat a + 4095) div 4096 * 4096"
proof -
  have "PGROUNDUP a = (4095 + a) div 4096 * 4096"
    using and_not_mask12 [of "4095 + a"] by (simp add: PGROUNDUP_def)
  moreover have "unat (4095 + a) = 4095 + unat a"
    using assms by (simp add: unat_word_ariths)
  ultimately show ?thesis by (simp add: add.commute)
qed

lemma aligned_unat: "v mod PGSIZE = 0 \<longleftrightarrow> unat v mod 4096 = 0"
  by (simp add: word_unat_eq_iff)

text \<open>The addresses of a page are those with its page number.\<close>

definition page_no :: "uint \<Rightarrow> nat" where
  "page_no a = unat a div 4096"

lemma in_page_iff:
  assumes "p mod PGSIZE = 0"
  shows "unat (x - p) < 4096 \<longleftrightarrow> page_no x = page_no p"
proof -
  obtain k where k: "unat p = 4096 * k" using assms unfolding aligned_unat by auto
  have "4096 * k < 4294967296" using unat_bound [of p] k by simp
  then have "k < 1048576" by simp
  then show ?thesis
    using unat_bound [of x] unfolding page_no_def
    by (auto simp: unat_sub_if' k)
qed

lemma page_no_eq: "p mod PGSIZE = 0 \<Longrightarrow> q mod PGSIZE = 0 \<Longrightarrow> page_no p = page_no q \<longleftrightarrow> p = q"
  unfolding aligned_unat page_no_def word_unat_eq_iff by auto

lemma page_no_offset:
  assumes "p mod PGSIZE = 0" "unat i < 4096"
  shows "page_no (p + i) = page_no p"
  using in_page_iff [OF assms(1), of "p + i"] assms(2) by simp

section \<open>The parts of a virtual address\<close>

lemma PGADDR_split: "PGADDR (PDX va) (PTX va) (va AND 0xFFF) = va"
proof (rule bit_word_eqI)
  fix n
  assume "n < LENGTH(32)"
  then consider "n < 12" | "12 \<le> n" "n < 22" | "22 \<le> n" "n < 32" by (simp, linarith)
  then show "bit (PGADDR (PDX va) (PTX va) (va AND 0xFFF)) n = bit va n"
    unfolding PGADDR_def PDX_def PTX_def mask10 mask12 by cases (auto simp: bit_simps)
qed

end
