(* ===== verification/Xv6_Spinlock.thy ===== *)
theory Xv6_Spinlock
  imports Xv6_Kernel Xv6_Mmu
begin

text \<open>
  Spin locks (\<^verbatim>\<open>spinlock.c\<close>). The straight-line routines are functions on the processor and lock
  records; \<^verbatim>\<open>acquire\<close> and \<^verbatim>\<open>release\<close> are cut at the atomic exchange and at the store that frees the
  lock, and the step relation \<open>spin_step\<close> interleaves those pieces over any number of processors.
\<close>

section \<open>State and routines\<close>

record cpu =
  ncli :: int
  intena :: bool
  ifl :: bool

record spinlock =
  lk_locked :: uint
  lk_name :: string
  lk_cpu :: "nat option"
  lk_pcs :: "nat \<Rightarrow> uint"

definition initlock :: "string \<Rightarrow> spinlock \<Rightarrow> spinlock" where
  "initlock nm lk = lk\<lparr>lk_name := nm, lk_locked := 0, lk_cpu := None\<rparr>"

text \<open>
  \<^verbatim>\<open>getcallerpcs\<close> follows the chain of saved frame pointers; \<open>v\<close> is the address of the caller's
  first argument.
\<close>

primrec pcs_loop :: "nat \<Rightarrow> nat \<Rightarrow> uint \<Rightarrow> memory \<Rightarrow> (nat \<Rightarrow> uint) \<Rightarrow> (nat \<Rightarrow> uint)" where
  "pcs_loop 0 i ebp m pcs = pcs"
| "pcs_loop (Suc k) i ebp m pcs =
     (if ebp = 0 \<or> ebp < KERNBASE \<or> ebp = 0xFFFFFFFF
      then (\<lambda>j. if i \<le> j \<and> j < 10 then 0 else pcs j)
      else pcs_loop k (Suc i) (load32 m ebp) m (pcs(i := load32 m (ebp + 4))))"

definition getcallerpcs :: "uint \<Rightarrow> memory \<Rightarrow> (nat \<Rightarrow> uint) \<Rightarrow> (nat \<Rightarrow> uint)" where
  "getcallerpcs v m pcs = pcs_loop 10 0 (v - 8) m pcs"

definition holding :: "nat \<Rightarrow> spinlock \<Rightarrow> bool" where
  "holding c lk \<longleftrightarrow> lk_locked lk \<noteq> 0 \<and> lk_cpu lk = Some c"

definition pushcli :: "cpu \<Rightarrow> cpu" where
  "pushcli c = c\<lparr>ifl := False, ncli := ncli c + 1, intena := (if ncli c = 0 then ifl c else intena c)\<rparr>"

definition popcli :: "cpu \<Rightarrow> (cpu, unit) outcome" where
  "popcli c =
     (if ifl c then Panic ''popcli - interruptible''
      else let c = c\<lparr>ncli := ncli c - 1\<rparr> in
        if ncli c < 0 then Panic ''popcli''
        else Ret () (if ncli c = 0 \<and> intena c then c\<lparr>ifl := True\<rparr> else c))"

section \<open>Several processors\<close>

text \<open>
  Where a processor is: outside the lock routines, spinning in \<^verbatim>\<open>acquire\<close>, past the exchange that
  took the lock, or past the point in \<^verbatim>\<open>release\<close> where the lock's owner was cleared.
\<close>

datatype 'l place = Outside | Spinning 'l | Taken 'l | Freeing 'l

record 'l spinsys =
  cpus :: "nat \<Rightarrow> cpu"
  lks :: "'l \<Rightarrow> spinlock"
  place :: "nat \<Rightarrow> 'l place"
  smem :: memory
  halted :: "string option"

definition upd_lk :: "'l \<Rightarrow> (spinlock \<Rightarrow> spinlock) \<Rightarrow> 'l spinsys \<Rightarrow> 'l spinsys" where
  "upd_lk l f s = s\<lparr>lks := (lks s)(l := f (lks s l))\<rparr>"

text \<open>The pieces of \<^verbatim>\<open>acquire\<close>: disable interrupts and check; one exchange; record the owner.\<close>

definition acquire_enter :: "nat \<Rightarrow> 'l \<Rightarrow> 'l spinsys \<Rightarrow> 'l spinsys" where
  "acquire_enter c l s =
     (let s = s\<lparr>cpus := (cpus s)(c := pushcli (cpus s c))\<rparr> in
      if holding c (lks s l) then s\<lparr>halted := Some ''acquire''\<rparr>
      else s\<lparr>place := (place s)(c := Spinning l)\<rparr>)"

definition acquire_xchg :: "nat \<Rightarrow> 'l \<Rightarrow> 'l spinsys \<Rightarrow> 'l spinsys" where
  "acquire_xchg c l s =
     (let old = lk_locked (lks s l); s = upd_lk l (\<lambda>k. k\<lparr>lk_locked := 1\<rparr>) s in
      if old \<noteq> 0 then s else s\<lparr>place := (place s)(c := Taken l)\<rparr>)"

definition acquire_finish :: "nat \<Rightarrow> 'l \<Rightarrow> uint \<Rightarrow> 'l spinsys \<Rightarrow> 'l spinsys" where
  "acquire_finish c l v s =
     (upd_lk l (\<lambda>k. k\<lparr>lk_cpu := Some c, lk_pcs := getcallerpcs v (smem s) (lk_pcs k)\<rparr>) s)
       \<lparr>place := (place s)(c := Outside)\<rparr>"

text \<open>The pieces of \<^verbatim>\<open>release\<close>: check and clear the owner; free the lock and restore interrupts.\<close>

definition release_enter :: "nat \<Rightarrow> 'l \<Rightarrow> 'l spinsys \<Rightarrow> 'l spinsys" where
  "release_enter c l s =
     (if \<not> holding c (lks s l) then s\<lparr>halted := Some ''release''\<rparr>
      else (upd_lk l (\<lambda>k. k\<lparr>lk_pcs := (lk_pcs k)(0 := 0), lk_cpu := None\<rparr>) s)
             \<lparr>place := (place s)(c := Freeing l)\<rparr>)"

definition release_finish :: "nat \<Rightarrow> 'l \<Rightarrow> 'l spinsys \<Rightarrow> 'l spinsys" where
  "release_finish c l s =
     (let s = upd_lk l (\<lambda>k. k\<lparr>lk_locked := 0\<rparr>) s in
      case popcli (cpus s c) of
        Ret _ k \<Rightarrow> s\<lparr>cpus := (cpus s)(c := k), place := (place s)(c := Outside)\<rparr>
      | Panic e \<Rightarrow> s\<lparr>halted := Some e\<rparr>
      | _ \<Rightarrow> s)"

inductive spin_step :: "'l spinsys \<Rightarrow> 'l spinsys \<Rightarrow> bool" where
  enter: "halted s = None \<Longrightarrow> place s c = Outside \<Longrightarrow> spin_step s (acquire_enter c l s)"
| xchg: "halted s = None \<Longrightarrow> place s c = Spinning l \<Longrightarrow> spin_step s (acquire_xchg c l s)"
| finish: "halted s = None \<Longrightarrow> place s c = Taken l \<Longrightarrow> spin_step s (acquire_finish c l v s)"
| leave: "halted s = None \<Longrightarrow> place s c = Outside \<Longrightarrow> spin_step s (release_enter c l s)"
| freed: "halted s = None \<Longrightarrow> place s c = Freeing l \<Longrightarrow> spin_step s (release_finish c l s)"

definition spin_init :: "'l spinsys \<Rightarrow> bool" where
  "spin_init s \<longleftrightarrow> halted s = None \<and> (\<forall>c. place s c = Outside \<and> ncli (cpus s c) = 0)
     \<and> (\<forall>l. lk_locked (lks s l) = 0 \<and> lk_cpu (lks s l) = None)"

inductive spin_reach :: "'l spinsys \<Rightarrow> bool" where
  start: "spin_init s \<Longrightarrow> spin_reach s"
| step: "spin_reach s \<Longrightarrow> spin_step s t \<Longrightarrow> spin_reach t"

text \<open>A processor is in the critical section of a lock from the exchange to the freeing store.\<close>

definition owns :: "'l spinsys \<Rightarrow> nat \<Rightarrow> 'l \<Rightarrow> bool" where
  "owns s c l \<longleftrightarrow> place s c = Taken l \<or> place s c = Freeing l \<or> holding c (lks s l)"

definition midway :: "'l spinsys \<Rightarrow> nat \<Rightarrow> 'l \<Rightarrow> bool" where
  "midway s c l \<longleftrightarrow> place s c = Taken l \<or> place s c = Freeing l"

definition lock_inv :: "'l spinsys \<Rightarrow> 'l \<Rightarrow> bool" where
  "lock_inv s l \<longleftrightarrow>
     (lk_locked (lks s l) = 0 \<longrightarrow> lk_cpu (lks s l) = None \<and> (\<forall>c. \<not> owns s c l))
   \<and> (lk_locked (lks s l) \<noteq> 0 \<longrightarrow> (\<exists>own. \<forall>c. owns s c l \<longleftrightarrow> c = own))
   \<and> (lk_cpu (lks s l) \<noteq> None \<longrightarrow> (\<forall>c. \<not> midway s c l))"

definition spins :: "'l spinsys \<Rightarrow> nat \<Rightarrow> bool" where
  "spins s c \<longleftrightarrow> (case place s c of Spinning _ \<Rightarrow> True | _ \<Rightarrow> False)"

definition cpu_inv :: "'l spinsys \<Rightarrow> nat \<Rightarrow> bool" where
  "cpu_inv s c \<longleftrightarrow> finite {l. owns s c l}
     \<and> ncli (cpus s c) = int (card {l. owns s c l}) + of_bool (spins s c)
     \<and> (0 < ncli (cpus s c) \<longrightarrow> \<not> ifl (cpus s c))"

definition spin_inv :: "'l spinsys \<Rightarrow> bool" where
  "spin_inv s \<longleftrightarrow> (\<forall>l. lock_inv s l) \<and> (\<forall>c. cpu_inv s c)"

section \<open>What each piece does to ownership\<close>

lemmas spin_step_defs = acquire_enter_def acquire_xchg_def acquire_finish_def release_enter_def
  upd_lk_def Let_def holding_def

lemma acquire_enter_owns: "place s c = Outside \<Longrightarrow> owns (acquire_enter c l s) = owns s"
  by (intro ext) (simp add: owns_def spin_step_defs)

lemma acquire_xchg_busy: "lk_locked (lks s l) \<noteq> 0 \<Longrightarrow> place s c = Spinning l \<Longrightarrow>
    owns (acquire_xchg c l s) = owns s"
  by (intro ext) (simp add: owns_def spin_step_defs)

lemma acquire_xchg_takes: "lk_locked (lks s l) = 0 \<Longrightarrow> lk_cpu (lks s l) = None \<Longrightarrow>
    place s c = Spinning l \<Longrightarrow> owns (acquire_xchg c l s) d k = (owns s d k \<or> d = c \<and> k = l)"
  by (simp add: owns_def spin_step_defs)

lemma acquire_finish_owns:
  assumes "lock_inv s l" "place s c = Taken l"
  shows "owns (acquire_finish c l v s) d k = owns s d k"
proof -
  have o: "owns s c l" using assms(2) by (simp add: owns_def)
  then have "lk_locked (lks s l) \<noteq> 0" "lk_cpu (lks s l) = None" "\<And>d. owns s d l \<Longrightarrow> d = c"
    using assms by (auto simp: lock_inv_def midway_def)
  with assms(2) show ?thesis by (auto simp: owns_def spin_step_defs)
qed

lemma release_enter_owns:
  assumes "lock_inv s l" "place s c = Outside" "holding c (lks s l)"
  shows "owns (release_enter c l s) d k = owns s d k"
proof -
  have "\<And>d. \<not> midway s d l" using assms by (auto simp: lock_inv_def holding_def)
  then show ?thesis using assms(2,3) by (auto simp: owns_def spin_step_defs midway_def)
qed

lemma popcli_held: "\<not> ifl c \<Longrightarrow> 0 < ncli c \<Longrightarrow>
    popcli c = Ret () (c\<lparr>ncli := ncli c - 1, ifl := (ncli c = 1 \<and> intena c)\<rparr>)"
  by (simp add: popcli_def Let_def)

lemma release_finish_eq:
  assumes "\<not> ifl (cpus s c)" "0 < ncli (cpus s c)"
  shows "release_finish c l s =
     s\<lparr>lks := (lks s)(l := (lks s l)\<lparr>lk_locked := 0\<rparr>), place := (place s)(c := Outside),
       cpus := (cpus s)(c := (cpus s c)\<lparr>ncli := ncli (cpus s c) - 1,
                                         ifl := (ncli (cpus s c) = 1 \<and> intena (cpus s c))\<rparr>)\<rparr>"
  using assms by (simp add: release_finish_def upd_lk_def Let_def popcli_held)

lemma cpu_inv_owner:
  assumes "cpu_inv s c" "owns s c l \<or> spins s c"
  shows "\<not> ifl (cpus s c)" "0 < ncli (cpus s c)"
proof -
  have "owns s c l \<Longrightarrow> 0 < card {l. owns s c l}"
    using assms(1) by (auto simp: cpu_inv_def card_gt_0_iff)
  then show "0 < ncli (cpus s c)" using assms by (auto simp: cpu_inv_def)
  then show "\<not> ifl (cpus s c)" using assms(1) by (simp add: cpu_inv_def)
qed

lemma release_finish_owns:
  assumes "lock_inv s l" "cpu_inv s c" "place s c = Freeing l"
  shows "owns (release_finish c l s) d k = (owns s d k \<and> k \<noteq> l)"
proof -
  have o: "owns s c l" using assms(3) by (simp add: owns_def)
  note e = release_finish_eq [OF cpu_inv_owner [OF assms(2) disjI1 [OF o]]]
  have "\<And>d. owns s d l \<Longrightarrow> d = c" using o assms(1) by (auto simp: lock_inv_def)
  with assms(3) show ?thesis by (auto simp: e owns_def holding_def)
qed

section \<open>The invariant is kept\<close>

lemma spin_inv_init: "spin_init s \<Longrightarrow> spin_inv s"
  by (simp add: spin_init_def spin_inv_def lock_inv_def cpu_inv_def owns_def holding_def spins_def)

lemma acquire_enter_lock_inv:
  "lock_inv s k \<Longrightarrow> place s c = Outside \<Longrightarrow> lock_inv (acquire_enter c l s) k"
  unfolding lock_inv_def by (simp add: acquire_enter_owns) (simp add: spin_step_defs midway_def)

lemma acquire_enter_cpu_inv:
  assumes "cpu_inv s d" "place s c = Outside" "\<not> holding c (lks s l)"
  shows "cpu_inv (acquire_enter c l s) d"
  using assms unfolding cpu_inv_def
  by (simp add: acquire_enter_owns) (auto simp: acquire_enter_def Let_def spins_def pushcli_def)

lemma acquire_xchg_lock_inv:
  assumes i: "lock_inv s k" and j: "lock_inv s l" and p: "place s c = Spinning l"
  shows "lock_inv (acquire_xchg c l s) k"
proof (cases "lk_locked (lks s l) = 0")
  case False
  with i p show ?thesis
    unfolding lock_inv_def by (simp add: acquire_xchg_busy) (auto simp: spin_step_defs midway_def)
next
  case True
  with j have n: "lk_cpu (lks s l) = None" "\<And>d. \<not> owns s d l" by (simp_all add: lock_inv_def)
  show ?thesis using i True n p
    unfolding lock_inv_def by (simp add: acquire_xchg_takes) (auto simp: spin_step_defs midway_def)
qed

lemma acquire_xchg_cpu_inv:
  assumes i: "cpu_inv s d" and j: "lock_inv s l" and p: "place s c = Spinning l"
  shows "cpu_inv (acquire_xchg c l s) d"
proof (cases "lk_locked (lks s l) = 0")
  case False
  with i p show ?thesis
    unfolding cpu_inv_def by (simp add: acquire_xchg_busy) (simp add: spin_step_defs spins_def)
next
  case True
  with j have n: "lk_cpu (lks s l) = None" "\<And>d. \<not> owns s d l" by (simp_all add: lock_inv_def)
  have "{k. owns (acquire_xchg c l s) d k} = (if d = c then insert l {k. owns s d k} else {k. owns s d k})"
    using acquire_xchg_takes [OF True n(1) p] by auto
  moreover have "cpus (acquire_xchg c l s) = cpus s"
      "spins (acquire_xchg c l s) d = (d \<noteq> c \<and> spins s d)" "spins s c"
    using True p by (auto simp: spin_step_defs spins_def)
  ultimately show ?thesis using i n(2) by (auto simp: cpu_inv_def)
qed

lemma acquire_finish_inv:
  assumes i: "spin_inv s" and p: "place s c = Taken l"
  shows "spin_inv (acquire_finish c l v s)"
proof -
  have j: "lock_inv s l" and o: "owns s c l"
    using i p by (simp_all add: spin_inv_def owns_def)
  note e = acquire_finish_owns [OF j p]
  have only: "\<And>d. owns s d l \<Longrightarrow> d = c" and "lk_locked (lks s l) \<noteq> 0"
    using j o by (auto simp: lock_inv_def)
  then have "lock_inv (acquire_finish c l v s) k" for k
    using i [unfolded spin_inv_def, THEN conjunct1, rule_format, of k] p
    unfolding lock_inv_def e by (auto simp: spin_step_defs midway_def owns_def)
  moreover have "cpu_inv (acquire_finish c l v s) d" for d
    using i p unfolding spin_inv_def cpu_inv_def e by (simp add: spin_step_defs spins_def)
  ultimately show ?thesis by (simp add: spin_inv_def)
qed

lemma release_enter_inv:
  assumes i: "spin_inv s" and p: "place s c = Outside" and h: "holding c (lks s l)"
  shows "spin_inv (release_enter c l s)"
proof -
  have j: "lock_inv s l" using i by (simp add: spin_inv_def)
  note e = release_enter_owns [OF j p h]
  have "lock_inv (release_enter c l s) k" for k
    using i [unfolded spin_inv_def, THEN conjunct1, rule_format, of k] p h
    unfolding lock_inv_def e by (auto simp: spin_step_defs midway_def)
  moreover have "cpu_inv (release_enter c l s) d" for d
    using i p h unfolding spin_inv_def cpu_inv_def e by (simp add: spin_step_defs spins_def)
  ultimately show ?thesis by (simp add: spin_inv_def)
qed

lemma release_finish_inv:
  assumes i: "spin_inv s" and p: "place s c = Freeing l"
  shows "spin_inv (release_finish c l s)"
proof -
  have j: "lock_inv s l" and k: "cpu_inv s c" and o: "owns s c l"
    using i p by (simp_all add: spin_inv_def owns_def)
  note e = release_finish_owns [OF j k p]
  note q = release_finish_eq [OF cpu_inv_owner [OF k disjI1 [OF o]]]
  have only: "\<And>d. owns s d l \<Longrightarrow> d = c" and n: "lk_cpu (lks s l) = None"
    using j o p by (auto simp: lock_inv_def midway_def)
  have "lock_inv (release_finish c l s) m" for m
    using i [unfolded spin_inv_def, THEN conjunct1, rule_format, of m] p n
    unfolding lock_inv_def e by (auto simp: q midway_def)
  moreover have "cpu_inv (release_finish c l s) d" for d
  proof -
    have "{m. owns (release_finish c l s) d m} = (if d = c then {m. owns s c m} - {l} else {m. owns s d m})"
      using only by (auto simp: e)
    moreover have "cpu_inv s d" "\<not> spins s c" using i p by (simp_all add: spin_inv_def spins_def)
    moreover have "card {m. owns s c m} > 0" using k o by (auto simp: cpu_inv_def card_gt_0_iff)
    ultimately show ?thesis using o
      by (auto simp: cpu_inv_def q spins_def card_Diff_singleton_if)
  qed
  ultimately show ?thesis by (simp add: spin_inv_def)
qed

text \<open>A machine that stopped did so in one of the two checks, after which only one processor's count is off.\<close>

definition spin_ok :: "'l spinsys \<Rightarrow> bool" where
  "spin_ok s \<longleftrightarrow> (\<forall>l. lock_inv s l) \<and> (halted s = None \<longrightarrow> spin_inv s)
     \<and> halted s \<in> {None, Some ''acquire'', Some ''release''}"

lemma spin_step_ok:
  assumes "spin_step s t" "spin_ok s"
  shows "spin_ok t"
  using assms
proof (induction rule: spin_step.induct)
  case (enter s c l)
  then have i: "spin_inv s" by (simp add: spin_ok_def)
  have "halted (acquire_enter c l s) = (if holding c (lks s l) then Some ''acquire'' else None)"
    using enter.hyps(1) by (simp add: acquire_enter_def Let_def)
  then show ?case using i enter.hyps(2)
    by (auto simp: spin_ok_def spin_inv_def acquire_enter_lock_inv intro: acquire_enter_cpu_inv)
next
  case (xchg s c l)
  then have i: "spin_inv s" by (simp add: spin_ok_def)
  have "halted (acquire_xchg c l s) = None"
    using xchg.hyps(1) by (simp add: spin_step_defs)
  moreover have "spin_inv (acquire_xchg c l s)"
    using i xchg.hyps(2) by (simp add: spin_inv_def acquire_xchg_lock_inv acquire_xchg_cpu_inv)
  ultimately show ?case by (simp add: spin_ok_def spin_inv_def)
next
  case (finish s c l v)
  then have "spin_inv (acquire_finish c l v s)" by (simp add: spin_ok_def acquire_finish_inv)
  moreover have "halted (acquire_finish c l v s) = None"
    using finish.hyps(1) by (simp add: spin_step_defs)
  ultimately show ?case by (simp add: spin_ok_def spin_inv_def)
next
  case (leave s c l)
  then have i: "spin_inv s" by (simp add: spin_ok_def)
  show ?case
  proof (cases "holding c (lks s l)")
    case True
    then have "halted (release_enter c l s) = None"
      using leave.hyps(1) by (simp add: spin_step_defs)
    with release_enter_inv [OF i leave.hyps(2) True] show ?thesis
      by (simp add: spin_ok_def spin_inv_def)
  next
    case False
    with i show ?thesis
      by (simp add: release_enter_def spin_ok_def spin_inv_def lock_inv_def owns_def midway_def)
  qed
next
  case (freed s c l)
  then have i: "spin_inv s" by (simp add: spin_ok_def)
  have k: "cpu_inv s c" and o: "owns s c l"
    using i freed.hyps(2) by (simp_all add: spin_inv_def owns_def)
  have "halted (release_finish c l s) = None"
    using freed.hyps(1) release_finish_eq [OF cpu_inv_owner [OF k disjI1 [OF o]]] by simp
  with release_finish_inv [OF i freed.hyps(2)] show ?case by (simp add: spin_ok_def spin_inv_def)
qed

lemma spin_reach_ok: "spin_reach s \<Longrightarrow> spin_ok s"
proof (induction rule: spin_reach.induct)
  case (start s)
  with spin_inv_init [OF start] show ?case by (simp add: spin_ok_def spin_inv_def spin_init_def)
qed (rule spin_step_ok)

lemma spin_inv_exclusive:
  assumes "spin_ok s" "owns s c l" "owns s d l"
  shows "c = d"
proof -
  have "lock_inv s l" using assms(1) by (simp add: spin_ok_def)
  then show ?thesis
    using assms(2,3) by (cases "lk_locked (lks s l) = 0") (auto simp: lock_inv_def)
qed

text \<open>Nested \<^verbatim>\<open>pushcli\<close>: interrupts are off, and the flag as it was before the outermost one is kept.\<close>

lemma pushcli_iterate:
  "ncli c = 0 \<Longrightarrow> (pushcli ^^ Suc n) c = c\<lparr>ifl := False, ncli := int (Suc n), intena := ifl c\<rparr>"
  by (induction n) (simp_all add: pushcli_def)

primrec popclis :: "nat \<Rightarrow> cpu \<Rightarrow> (cpu, unit) outcome" where
  "popclis 0 c = Ret () c"
| "popclis (Suc n) c = andthen (popcli c) (\<lambda>_ c. popclis n c)"

lemma popclis_all:
  "\<not> ifl c \<Longrightarrow> ncli c = int (Suc n) \<Longrightarrow> popclis (Suc n) c = Ret () (c\<lparr>ncli := 0, ifl := intena c\<rparr>)"
proof (induction n arbitrary: c)
  case (Suc n)
  then show ?case
    by (simp del: popclis.simps add: popclis.simps(2) [of "Suc n"] popcli_held)
qed (simp add: popcli_held)

section \<open>One processor's view\<close>







section \<open>Properties\<close>

definition two_cpus :: "lock spinsys" where
  "two_cpus = \<lparr>cpus = (\<lambda>_. \<lparr>ncli = 0, intena = False, ifl = True\<rparr>),
     lks = (\<lambda>_. \<lparr>lk_locked = 0, lk_name = ''lk'', lk_cpu = None, lk_pcs = (\<lambda>_. 0)\<rparr>),
     place = (\<lambda>_. Outside), smem = (\<lambda>_. 0), halted = None\<rparr>"

definition cpu0_took :: "lock spinsys" where
  "cpu0_took = acquire_xchg 0 LkKmem (acquire_enter 0 LkKmem two_cpus)"

lemma cpu0_took_reach: "spin_reach cpu0_took"
proof -
  have "spin_reach two_cpus"
    by (rule spin_reach.start) (simp add: spin_init_def two_cpus_def)
  then have "spin_reach (acquire_enter 0 LkKmem two_cpus)"
    by (rule spin_reach.step) (rule spin_step.enter, simp_all add: two_cpus_def)
  then show ?thesis unfolding cpu0_took_def
    by (rule spin_reach.step)
      (rule spin_step.xchg, simp_all add: two_cpus_def acquire_enter_def holding_def)
qed

lemma cpu0_took_owns: "owns cpu0_took 0 LkKmem" "halted cpu0_took = None"
  by (simp_all add: cpu0_took_def two_cpus_def spin_step_defs owns_def)

text \<open>
  \<^bold>\<open>C5.\<close> Mutual exclusion of spin locks. In every state that any interleaving of \<^verbatim>\<open>acquire\<close> and
  \<^verbatim>\<open>release\<close> by any number of processors can reach, at most one processor is between the exchange
  that took a lock and the store that frees it.
\<close>
theorem spinlock_mutual_exclusion:
  assumes "spin_reach s" "owns s c l" "owns s d l"
  shows "c = d"
  by (rule spin_inv_exclusive [OF spin_reach_ok [OF assms(1)] assms(2,3)])

theorem spinlock_mutual_exclusion_witness:
  "spin_reach cpu0_took \<and> owns cpu0_took 0 LkKmem \<and> \<not> owns cpu0_took 1 LkKmem"
  using spinlock_mutual_exclusion [OF cpu0_took_reach cpu0_took_owns(1), of 1] cpu0_took_reach
    cpu0_took_owns by auto

text \<open>
  \<^bold>\<open>C15.\<close> Interrupt discipline. As long as the machine has not stopped, a processor that owns a
  lock runs with interrupts disabled, its \<^verbatim>\<open>ncli\<close> is the number of locks it owns plus one while it
  spins for another, and the machine can only ever stop in the \<^verbatim>\<open>acquire\<close> and \<^verbatim>\<open>release\<close> checks: the
  panics of \<^verbatim>\<open>popcli\<close> are unreachable from \<^verbatim>\<open>release\<close>.
\<close>
theorem spinlock_interrupts_off:
  assumes "spin_reach s"
  shows "halted s \<in> {None, Some ''acquire'', Some ''release''}
    \<and> (halted s = None \<longrightarrow>
         ncli (cpus s c) = int (card {l. owns s c l}) + of_bool (spins s c)
       \<and> (owns s c l \<longrightarrow> \<not> ifl (cpus s c) \<and> 0 < ncli (cpus s c)))"
proof -
  have ok: "spin_ok s" using assms by (rule spin_reach_ok)
  then have i: "halted s = None \<Longrightarrow> cpu_inv s c" by (simp add: spin_ok_def spin_inv_def)
  then have "halted s = None \<Longrightarrow> ncli (cpus s c) = int (card {l. owns s c l}) + of_bool (spins s c)"
    by (simp add: cpu_inv_def)
  moreover have "halted s = None \<Longrightarrow> owns s c l \<Longrightarrow> \<not> ifl (cpus s c) \<and> 0 < ncli (cpus s c)"
    using i cpu_inv_owner [of s c l] by blast
  ultimately show ?thesis using ok unfolding spin_ok_def by blast
qed

theorem spinlock_interrupts_off_witness:
  "spin_reach cpu0_took \<and> \<not> ifl (cpus cpu0_took 0)"
  using spinlock_interrupts_off [OF cpu0_took_reach, of 0 LkKmem] cpu0_took_reach cpu0_took_owns
  by auto

text \<open>
  \<^bold>\<open>C17.\<close> \<^verbatim>\<open>pushcli\<close> and \<^verbatim>\<open>popcli\<close> are matched: from a processor outside any such pair, any number of
  nested \<^verbatim>\<open>pushcli\<close> calls leaves interrupts off, and as many \<^verbatim>\<open>popcli\<close> calls return without panic
  and restore the interrupt flag that was in force before the outermost one.
\<close>
theorem pushcli_popcli_matched:
  assumes "ncli c = 0"
  shows "\<not> ifl ((pushcli ^^ Suc n) c)
    \<and> returns (popclis (Suc n) ((pushcli ^^ Suc n) c)) (\<lambda>_ d. ifl d = ifl c \<and> ncli d = 0)"
  unfolding pushcli_iterate [OF assms] by (subst popclis_all) simp_all

theorem pushcli_popcli_matched_witness:
  "returns (popclis (Suc 2) ((pushcli ^^ Suc 2) \<lparr>ncli = 0, intena = False, ifl = True\<rparr>))
     (\<lambda>_ d. ifl d = True \<and> ncli d = 0)"
  using pushcli_popcli_matched [of "\<lparr>ncli = 0, intena = False, ifl = True\<rparr>" 2]
  unfolding cpu.simps by blast




end
