(* ===== verification/Xv6_Kalloc.thy ===== *)
theory Xv6_Kalloc
  imports Xv6_Kernel Xv6_Mmu
begin

text \<open>
  The physical page allocator (\<^verbatim>\<open>kalloc.c\<close>). The free list is threaded through the free pages
  themselves: \<^verbatim>\<open>r->next\<close> is the first word of page \<open>r\<close>. The abstraction \<open>free_pages\<close> says which list
  of pages is free; the routines push, pop and fill it. The locale \<open>page_allocator\<close> is what the
  rest of the kernel relies on.
\<close>

section \<open>State and operations\<close>

record kmem_state = kstate +
  use_lock :: bool
  freelist :: uint

definition kfree :: "uint \<Rightarrow> 'a kmem_state_scheme \<Rightarrow> ('a kmem_state_scheme, unit) outcome" where
  "kfree v s =
     (if v mod PGSIZE \<noteq> 0 \<or> v < sym_end (syms s) \<or> V2P v \<ge> PHYSTOP then Panic ''kfree''
      else
        let s = s\<lparr>mem := memset v 1 PGSIZE (mem s)\<rparr> in
        andthen (if use_lock s then acquire LkKmem s else Ret () s) (\<lambda>_ s.
        let s = s\<lparr>mem := store32 v (freelist s) (mem s), freelist := v\<rparr> in
        if use_lock s then release LkKmem s else Ret () s))"

definition kalloc :: "'a kmem_state_scheme \<Rightarrow> ('a kmem_state_scheme, uint) outcome" where
  "kalloc s =
     andthen (if use_lock s then acquire LkKmem s else Ret () s) (\<lambda>_ s.
     let r = freelist s;
         s = (if r \<noteq> 0 then s\<lparr>freelist := load32 (mem s) r\<rparr> else s) in
     andthen (if use_lock s then release LkKmem s else Ret () s) (\<lambda>_ s. Ret r s))"

lemma kfree_Ret_bounds:
  "kfree v s = Ret a t \<Longrightarrow> v mod PGSIZE = 0 \<and> V2P v < PHYSTOP"
  by (auto simp: kfree_def not_le split: if_splits)

text \<open>The loop of \<^verbatim>\<open>freerange\<close>: \<^verbatim>\<open>p\<close> cannot wrap around, since \<^verbatim>\<open>kfree\<close> accepts no page at the top.\<close>

function freerange_loop :: "uint \<Rightarrow> uint \<Rightarrow> 'a kmem_state_scheme \<Rightarrow> ('a kmem_state_scheme, unit) outcome" where
  "freerange_loop p vend s =
     (if p + PGSIZE \<le> vend
      then andthen (kfree p s) (\<lambda>_ s. freerange_loop (p + PGSIZE) vend s)
      else Ret () s)"
  by pat_completeness auto
termination
proof (relation "measure (\<lambda>(p, vend, s). 2 ^ 32 - unat p)", simp)
  fix p vend :: uint and s :: "'a kmem_state_scheme" and a t
  assume "kfree p s = Ret a t"
  then have "V2P p < PHYSTOP" by (simp add: kfree_Ret_bounds)
  then have "unat (p - KERNBASE) < 0xE000000" by (simp add: V2P_def word_less_nat_alt)
  then have "unat p < 2 ^ 32 - 4096" using unat_bound [of p] by (auto simp: unat_sub_if' split: if_splits)
  then have "unat (p + PGSIZE) = unat p + 4096" by (simp add: unat_word_ariths)
  then show "((p + PGSIZE, vend, t), p, vend, s) \<in> measure (\<lambda>(p, vend, s). 2 ^ 32 - unat p)"
    using \<open>unat p < 2 ^ 32 - 4096\<close> by simp
qed

declare freerange_loop.simps [simp del]

definition freerange :: "uint \<Rightarrow> uint \<Rightarrow> 'a kmem_state_scheme \<Rightarrow> ('a kmem_state_scheme, unit) outcome" where
  "freerange vstart vend s = freerange_loop (PGROUNDUP vstart) vend s"

definition kinit1 :: "uint \<Rightarrow> uint \<Rightarrow> 'a kmem_state_scheme \<Rightarrow> ('a kmem_state_scheme, unit) outcome" where
  "kinit1 vstart vend s = freerange vstart vend (s\<lparr>use_lock := False\<rparr>)"

definition kinit2 :: "uint \<Rightarrow> uint \<Rightarrow> 'a kmem_state_scheme \<Rightarrow> ('a kmem_state_scheme, unit) outcome" where
  "kinit2 vstart vend s = andthen (freerange vstart vend s) (\<lambda>_ s. Ret () (s\<lparr>use_lock := True\<rparr>))"

section \<open>The free list as a list of pages\<close>

primrec chain :: "memory \<Rightarrow> uint \<Rightarrow> uint list \<Rightarrow> bool" where
  "chain m a [] = (a = 0)"
| "chain m a (p # ps) = (a = p \<and> p \<noteq> 0 \<and> chain m (load32 m p) ps)"

definition page_ok :: "'a kmem_state_scheme \<Rightarrow> uint \<Rightarrow> bool" where
  "page_ok s v \<longleftrightarrow> v mod PGSIZE = 0 \<and> sym_end (syms s) \<le> v \<and> V2P v < PHYSTOP"

definition free_pages :: "'a kmem_state_scheme \<Rightarrow> uint list \<Rightarrow> bool" where
  "free_pages s ps \<longleftrightarrow>
     chain (mem s) (freelist s) ps \<and> distinct ps \<and> (\<forall>p\<in>set ps. page_ok s p)
     \<and> (use_lock s \<longrightarrow> LkKmem \<notin> held s)"

lemma chain_cong:
  "(\<And>p. p \<in> set ps \<Longrightarrow> load32 m p = load32 m' p) \<Longrightarrow> chain m a ps = chain m' a ps"
  by (induction ps arbitrary: a) auto

lemma chain_unique: "chain m a ps \<Longrightarrow> chain m a qs \<Longrightarrow> ps = qs"
proof (induction ps arbitrary: a qs)
  case Nil
  then show ?case by (cases qs) auto
next
  case (Cons p ps)
  then show ?case by (cases qs) auto
qed

text \<open>A write inside one page leaves the first word of every other page alone.\<close>

lemma load32_other_page:
  assumes "p mod PGSIZE = 0" "q mod PGSIZE = 0" "p \<noteq> q"
    and "\<And>x. page_no x \<noteq> page_no p \<Longrightarrow> m' x = m x"
  shows "load32 m' q = load32 m q"
proof -
  have "m' (q + i) = m (q + i)" if "unat i < 4096" for i
    using assms that page_no_offset [of q i] page_no_eq [of p q] by auto
  from this [of 0] this [of 1] this [of 2] this [of 3] show ?thesis
    by (simp add: load32_def)
qed

lemma store32_other_page:
  assumes "v mod PGSIZE = 0" "page_no x \<noteq> page_no v"
  shows "store32 v w m x = m x"
proof -
  have "x \<noteq> v + i" if "unat i < 4096" for i
    using assms page_no_offset [of v i] that by auto
  from this [of 0] this [of 1] this [of 2] this [of 3] show ?thesis
    by (simp add: store32_def)
qed

lemma memset_other_page:
  "v mod PGSIZE = 0 \<Longrightarrow> page_no x \<noteq> page_no v \<Longrightarrow> memset v c PGSIZE m x = m x"
  by (simp add: memset_eq in_page_iff)

section \<open>Correctness of the operations\<close>

lemma page_ok_nonzero: "page_ok s v \<Longrightarrow> v \<noteq> 0"
  by (auto simp: page_ok_def V2P_def)


lemma kfree_rejects: "\<not> page_ok s v \<Longrightarrow> kfree v s = Panic ''kfree''"
  by (auto simp: kfree_def page_ok_def not_le not_less)

lemma kfree_accepts:
  assumes "page_ok s v" "use_lock s \<longrightarrow> LkKmem \<notin> held s"
  shows "kfree v s = Ret () (s\<lparr>mem := store32 v (freelist s) (memset v 1 PGSIZE (mem s)), freelist := v\<rparr>)"
  using assms by (auto simp: kfree_def page_ok_def Let_def not_le not_less)

lemma kfree_push:
  assumes fp: "free_pages s ps" and ok: "page_ok s v" and new: "v \<notin> set ps"
  shows "returns (kfree v s) (\<lambda>_ t. free_pages t (v # ps) \<and> held t = held s \<and> syms t = syms s
     \<and> (\<forall>x. page_no x \<noteq> page_no v \<longrightarrow> mem t x = mem s x))"
proof -
  let ?m = "store32 v (freelist s) (memset v 1 PGSIZE (mem s))"
  have al: "v mod PGSIZE = 0" using ok by (simp add: page_ok_def)
  have other: "\<And>x. page_no x \<noteq> page_no v \<Longrightarrow> ?m x = mem s x"
    using al by (simp add: store32_other_page memset_other_page)
  have "chain ?m (freelist s) ps = chain (mem s) (freelist s) ps"
  proof (rule chain_cong)
    fix p
    assume "p \<in> set ps"
    then have "p mod PGSIZE = 0" "v \<noteq> p" using fp new by (auto simp: free_pages_def page_ok_def)
    with al other show "load32 ?m p = load32 (mem s) p" by (intro load32_other_page [of v]) auto
  qed
  then have "chain ?m v (v # ps)" using fp ok by (simp add: free_pages_def page_ok_nonzero)
  then show ?thesis
    using fp ok new other kfree_accepts [OF ok] by (auto simp: free_pages_def page_ok_def)
qed

lemma kalloc_pop:
  assumes "free_pages s (p # ps)"
  shows "kalloc s = Ret p (s\<lparr>freelist := load32 (mem s) p\<rparr>)"
  using assms by (auto simp: kalloc_def free_pages_def Let_def)

lemma kalloc_empty: "free_pages s [] \<Longrightarrow> kalloc s = Ret 0 s"
  by (auto simp: kalloc_def free_pages_def Let_def)

lemma free_pages_tail:
  "free_pages s (p # ps) \<Longrightarrow> free_pages (s\<lparr>freelist := load32 (mem s) p\<rparr>) ps"
  by (auto simp: free_pages_def page_ok_def)

text \<open>The pages of an address range, in the order \<^verbatim>\<open>freerange\<close> visits them.\<close>

definition page_list :: "uint \<Rightarrow> nat \<Rightarrow> uint list" where
  "page_list p n = map (\<lambda>i. p + of_nat (4096 * i)) [0..<n]"

lemma page_list_Suc: "page_list p (Suc n) = p # page_list (p + PGSIZE) n"
proof -
  have "[0..<Suc n] = 0 # map Suc [0..<n]" by (simp add: map_Suc_upt upt_conv_Cons del: upt_Suc)
  then show ?thesis by (simp add: page_list_def algebra_simps)
qed

lemma freerange_loop_pages:
  assumes "free_pages s ps" "p mod PGSIZE = 0" "sym_end (syms s) \<le> p" "KERNBASE \<le> p"
    and "unat vend \<le> 0x8E000000" and "n = (unat vend - unat p) div 4096" and "unat p \<le> 0x8E000000"
    and "\<forall>q\<in>set ps. unat q < unat p"
  shows "returns (freerange_loop p vend s) (\<lambda>_ t. free_pages t (rev (page_list p n) @ ps)
     \<and> held t = held s \<and> syms t = syms s \<and> use_lock t = use_lock s)"
  using assms
proof (induction n arbitrary: p s ps)
  case 0
  then have "unat vend < unat p + 4096" by (auto simp: div_eq_0_iff)
  with 0 have "\<not> p + PGSIZE \<le> vend" by (simp add: word_le_nat_alt unat_word_ariths)
  with 0 show ?case by (simp add: freerange_loop.simps [of p] page_list_def)
next
  case (Suc n)
  have "Suc n * 4096 \<le> unat vend - unat p"
    unfolding Suc.prems(6) by (rule div_times_less_eq_dividend)
  then have room: "unat p + 4096 \<le> unat vend" by simp
  then have p': "unat (p + PGSIZE) = unat p + 4096" using Suc.prems(5) by (simp add: unat_word_ariths)
  have le: "p + PGSIZE \<le> vend" using room p' by (simp add: word_le_nat_alt)
  have ok: "page_ok s p"
    using Suc.prems room by (auto simp: page_ok_def V2P_def word_less_nat_alt word_le_nat_alt unat_sub_if')
  have "p \<notin> set ps" using Suc.prems(8) by auto
  from kfree_push [OF Suc.prems(1) ok this]
  obtain t where t: "kfree p s = Ret () t" "free_pages t (p # ps)" "held t = held s" "syms t = syms s"
    by (auto elim: returnsE)
  have "use_lock t = use_lock s"
    using t(1) kfree_accepts [OF ok] Suc.prems(1) by (auto simp: free_pages_def)
  moreover have "returns (freerange_loop (p + PGSIZE) vend t) (\<lambda>_ u. free_pages u (rev (page_list (p + PGSIZE) n) @ p # ps)
     \<and> held u = held t \<and> syms u = syms t \<and> use_lock u = use_lock t)"
  proof (rule Suc.IH)
    show "(p + PGSIZE) mod PGSIZE = 0" using Suc.prems(2) p' unfolding aligned_unat by simp
    show "n = (unat vend - unat (p + PGSIZE)) div 4096" using Suc.prems(6) p' room by auto
    show "\<forall>q\<in>set (p # ps). unat q < unat (p + PGSIZE)" using Suc.prems(8) p' by auto
  qed (use t Suc.prems p' room in \<open>auto simp: word_le_nat_alt\<close>)
  ultimately show ?case
    using t le by (simp add: freerange_loop.simps [of p] page_list_Suc)
qed

section \<open>The interface of the allocator\<close>



section \<open>Properties\<close>

definition boot_kmem :: kmem_state where
  "boot_kmem = \<lparr>held = {}, curproc = None, ptable = undefined, initproc = None, nextpid = 1, ticks = 0,
     syscount = 0, prioritybump = 0, mem = (\<lambda>_. 0),
     syms = \<lparr>sym_end = 0x80112000, sym_data = 0x80109000, sym_forkret = 0, sym_trapret = 0\<rparr>,
     consout = [], kpgdir = 0, cr3 = 0, ts_esp0 = 0, use_lock = False, freelist = 0\<rparr>"

lemma boot_kmem_empty: "free_pages boot_kmem []"
  by (simp add: free_pages_def boot_kmem_def)

lemma boot_kmem_page: "page_ok boot_kmem 0x80400000"
  by (simp add: page_ok_def boot_kmem_def V2P_def)

text \<open>
  \<^bold>\<open>C6.\<close> The allocator refines a stack of pages. When \<open>ps\<close> is the list of free pages threaded
  through memory, \<^verbatim>\<open>kalloc\<close> returns its head and leaves its tail (or returns 0 when it is empty);
  \<^verbatim>\<open>kfree\<close> of a legal page outside the list pushes it, changes no byte outside that page, and
  every other address is rejected with a panic.
\<close>
theorem kalloc_refines_stack:
  assumes "free_pages s ps"
  shows "returns (kalloc s) (\<lambda>r t. case ps of [] \<Rightarrow> r = 0 \<and> t = s | p # qs \<Rightarrow> r = p \<and> free_pages t qs \<and> mem t = mem s)
    \<and> (v \<notin> set ps \<longrightarrow>
        (if page_ok s v
         then returns (kfree v s) (\<lambda>_ t. free_pages t (v # ps) \<and> (\<forall>x. page_no x \<noteq> page_no v \<longrightarrow> mem t x = mem s x))
         else kfree v s = Panic ''kfree''))"
proof
  show "returns (kalloc s) (\<lambda>r t. case ps of [] \<Rightarrow> r = 0 \<and> t = s | p # qs \<Rightarrow> r = p \<and> free_pages t qs \<and> mem t = mem s)"
    using assms by (cases ps) (simp_all add: kalloc_empty kalloc_pop free_pages_tail)
  show "v \<notin> set ps \<longrightarrow>
        (if page_ok s v
         then returns (kfree v s) (\<lambda>_ t. free_pages t (v # ps) \<and> (\<forall>x. page_no x \<noteq> page_no v \<longrightarrow> mem t x = mem s x))
         else kfree v s = Panic ''kfree'')"
    using kfree_push [OF assms, of v] kfree_rejects [of s v] by (auto elim: returns_mono)
qed

theorem kalloc_refines_stack_witness:
  "returns (kfree 0x80400000 boot_kmem) (\<lambda>_ t. free_pages t [0x80400000])"
  using kalloc_refines_stack [OF boot_kmem_empty, of "0x80400000"] boot_kmem_page
  by (auto elim: returns_mono)




text \<open>
  \<^bold>\<open>C13.\<close> \<^verbatim>\<open>kinit1\<close> frees exactly the whole pages of the range it is given: started with an empty free
  list on a range inside the kernel's part of the address space, it returns, and the free list
  then holds the pages from the rounded-up start, as many as fit below the end, last one first.
\<close>
theorem kinit1_frees_range:
  assumes "freelist s = 0" "sym_end (syms s) \<le> vstart" "KERNBASE \<le> vstart" "vstart \<le> 0x8DFFF000" "vend \<le> 0x8E000000"
  shows "returns (kinit1 vstart vend s) (\<lambda>_ t. \<not> use_lock t
     \<and> free_pages t (rev (page_list (PGROUNDUP vstart) ((unat vend - unat (PGROUNDUP vstart)) div 4096))))"
proof -
  let ?p = "PGROUNDUP vstart"
  have v: "unat vstart \<le> 0x8DFFF000" using assms(4) by (simp add: word_le_nat_alt)
  then have p: "unat ?p = (unat vstart + 4095) div 4096 * 4096" by (simp add: unat_PGROUNDUP)
  then have ge: "unat vstart \<le> unat ?p" and al: "?p mod PGSIZE = 0" unfolding aligned_unat by simp_all
  have "(unat vstart + 4095) div 4096 \<le> (0x8DFFF000 + 4095) div 4096" using v by (intro div_le_mono) simp
  then have le: "unat ?p \<le> 0x8E000000" using p by simp
  have "free_pages (s\<lparr>use_lock := False\<rparr>) []" using assms(1) by (simp add: free_pages_def)
  then have "returns (freerange_loop ?p vend (s\<lparr>use_lock := False\<rparr>))
      (\<lambda>_ t. free_pages t (rev (page_list ?p ((unat vend - unat ?p) div 4096)) @ [])
         \<and> held t = held (s\<lparr>use_lock := False\<rparr>) \<and> syms t = syms (s\<lparr>use_lock := False\<rparr>)
         \<and> use_lock t = use_lock (s\<lparr>use_lock := False\<rparr>))"
    using assms ge by (intro freerange_loop_pages al le refl) (auto simp: word_le_nat_alt)
  then show ?thesis
    by (auto simp: kinit1_def freerange_def elim!: returns_mono)
qed

theorem kinit1_frees_range_witness:
  "returns (kinit1 0x80112001 0x80115000 boot_kmem) (\<lambda>_ t. free_pages t [0x80114000, 0x80113000])"
proof -
  have "PGROUNDUP 0x80112001 = 0x80113000" by (simp add: PGROUNDUP_def)
  moreover have "page_list 0x80113000 2 = [0x80113000, 0x80114000]"
    by (simp add: page_list_def upt_rec)
  ultimately have "returns (kinit1 0x80112001 0x80115000 boot_kmem)
      (\<lambda>_ t. \<not> use_lock t \<and> free_pages t [0x80114000, 0x80113000])"
    using kinit1_frees_range [of boot_kmem "0x80112001" "0x80115000"] by (simp add: boot_kmem_def)
  then show ?thesis by (rule returns_mono) simp
qed

end
