(* ===== verification/Xv6_Dll.thy ===== *)
theory Xv6_Dll
  imports Xv6_Prelude
begin

text \<open>
  Circular doubly linked lists over table indices, as the buffer cache uses them: forward and
  backward links are functions, one index is the list head. \<open>ring nx pv h xs\<close> says that following
  \<open>nx\<close> from \<open>h\<close> visits exactly \<open>xs\<close> and returns to \<open>h\<close>, and \<open>pv\<close> goes the same way back.
\<close>

section \<open>Traversal\<close>

text \<open>A loop \<^verbatim>\<open>for(b = a; b != stop; b = b->next) if(P) ...\<close>; it runs forever on a malformed list.\<close>

partial_function (option) list_scan ::
    "(nat \<Rightarrow> nat) \<Rightarrow> nat \<Rightarrow> (nat \<Rightarrow> bool) \<Rightarrow> nat \<Rightarrow> nat option option" where
  "list_scan nxt stop P b =
     (if b = stop then Some None else if P b then Some (Some b) else list_scan nxt stop P (nxt b))"

declare list_scan.simps [code]

fun dll :: "(nat \<Rightarrow> nat) \<Rightarrow> (nat \<Rightarrow> nat) \<Rightarrow> nat list \<Rightarrow> bool" where
  "dll nx pv (a # b # xs) = (nx a = b \<and> pv b = a \<and> dll nx pv (b # xs))"
| "dll nx pv _ = True"

definition ring :: "(nat \<Rightarrow> nat) \<Rightarrow> (nat \<Rightarrow> nat) \<Rightarrow> nat \<Rightarrow> nat list \<Rightarrow> bool" where
  "ring nx pv h xs \<longleftrightarrow> dll nx pv (h # xs @ [h]) \<and> distinct (h # xs)"

lemma dll_append:
  "dll nx pv (xs @ a # ys) = (dll nx pv (xs @ [a]) \<and> dll nx pv (a # ys))"
proof (induction xs)
  case (Cons x xs)
  then show ?case by (cases xs) auto
qed (cases ys; simp)

lemma dll_cong:
  assumes "\<And>x. x \<in> set (butlast xs) \<Longrightarrow> nx x = nx' x" "\<And>x. x \<in> set (tl xs) \<Longrightarrow> pv x = pv' x"
  shows "dll nx pv xs = dll nx' pv' xs"
  using assms
proof (induction xs rule: dll.induct [of "\<lambda>_ _ xs. _ xs" undefined undefined])
  case (1 _ _ a b xs)
  then show ?case by auto
qed auto

lemma list_scan_forward:
  "dll nx pv (a # xs @ [h]) \<Longrightarrow> h \<notin> set xs \<Longrightarrow> list_scan nx h P (nx a) = Some (find P xs)"
proof (induction xs arbitrary: a)
  case Nil
  then show ?case by (simp add: list_scan.simps)
next
  case (Cons x xs)
  then show ?case by (simp add: list_scan.simps [of nx h P x])
qed

lemma dll_rev: "dll nx pv (rev xs) = dll pv nx xs"
proof (induction xs rule: dll.induct [of "\<lambda>_ _ xs. _ xs" undefined undefined])
  case (1 _ _ a b xs)
  have "dll nx pv (rev xs @ [b, a]) = (dll nx pv (rev xs @ [b]) \<and> dll nx pv [b, a])"
    by (rule dll_append)
  with 1 show ?case by auto
qed auto

lemma ring_scan: "ring nx pv h xs \<Longrightarrow> list_scan nx h P (nx h) = Some (find P xs)"
  by (auto simp: ring_def intro: list_scan_forward)

lemma ring_scan_back:
  assumes "ring nx pv h xs"
  shows "list_scan pv h P (pv h) = Some (find P (rev xs))"
proof (rule list_scan_forward)
  have "dll pv nx (rev (h # xs @ [h]))" using assms unfolding dll_rev ring_def by blast
  then show "dll pv nx (h # rev xs @ [h])" by simp
qed (use assms in \<open>simp add: ring_def\<close>)

section \<open>Unlinking and inserting at the front\<close>

lemma dll_unlink:
  assumes D: "dll nx pv (zs @ l # b # r # ws)"
    and l: "l \<notin> set zs" "l \<notin> set (butlast (r # ws))"
    and r: "r \<notin> set ws" "r \<notin> set (tl (zs @ [l]))"
  shows "dll (nx(l := r)) (pv(r := l)) (zs @ l # r # ws)"
proof -
  have p: "dll nx pv (zs @ [l])" "dll nx pv (r # ws)"
    using D unfolding dll_append [of nx pv zs l "b # r # ws"] by simp_all
  have "dll (nx(l := r)) (pv(r := l)) (zs @ [l]) = dll nx pv (zs @ [l])"
    using l(1) r(2) by (intro dll_cong) auto
  moreover have "dll (nx(l := r)) (pv(r := l)) (r # ws) = dll nx pv (r # ws)"
    using l(2) r(1) by (intro dll_cong) auto
  ultimately show ?thesis using p unfolding dll_append [of _ _ zs l "r # ws"] by simp
qed

lemma ring_unlink:
  assumes "ring nx pv h (xs @ b # ys)"
  shows "ring (nx(pv b := nx b)) (pv(nx b := pv b)) h (xs @ ys)"
proof -
  have d: "distinct (h # xs @ b # ys)" using assms by (simp add: ring_def)
  obtain zs l where z: "h # xs = zs @ [l]" by (cases "h # xs" rule: rev_cases) auto
  obtain r ws where w: "ys @ [h] = r # ws" by (cases "ys @ [h]") auto
  have "(h # xs) @ b # (ys @ [h]) = zs @ l # b # r # ws" unfolding z w by simp
  then have D: "dll nx pv (zs @ l # b # r # ws)" using assms by (simp add: ring_def)
  then have e: "pv b = l" "nx b = r" unfolding dll_append [of nx pv zs l "b # r # ws"] by simp_all
  have x: "tl (zs @ [l]) = xs" and y: "butlast (r # ws) = ys"
    by (simp_all only: z [symmetric] w [symmetric] list.sel butlast_snoc)
  have "set (zs @ [l]) = insert h (set xs)" "distinct (zs @ [l])"
    using d by (simp_all only: z [symmetric] list.set distinct.simps distinct_append) auto
  then have l: "l \<notin> set zs" "l \<in> insert h (set xs)" by auto
  have r: "r \<in> insert h (set ys)" "r \<notin> set ws" using w d by (cases ys; auto)+
  have "dll (nx(l := r)) (pv(r := l)) (zs @ l # r # ws)"
    by (rule dll_unlink [OF D]) (use d l r in \<open>auto simp only: x y distinct.simps distinct_append set_append list.set\<close>)
  moreover have "zs @ l # r # ws = (h # xs) @ (ys @ [h])" unfolding z w by simp
  ultimately show ?thesis using d unfolding ring_def e by simp
qed

lemma ring_push:
  assumes "ring nx pv h xs" "b \<noteq> h" "b \<notin> set xs"
  shows "ring (nx(b := nx h, h := b)) (pv(b := h, nx h := b)) h (b # xs)"
proof -
  obtain r ws where w: "xs @ [h] = r # ws" by (cases "xs @ [h]") auto
  have r: "r \<notin> set ws" "r \<noteq> b" "b \<notin> set ws" "h \<notin> set (butlast (r # ws))"
    using w assms by (cases xs; auto simp: ring_def)+
  have "dll nx pv (h # r # ws)" using assms(1) w by (simp add: ring_def)
  then have n: "nx h = r" "dll nx pv (r # ws)" by simp_all
  have "dll (nx(b := r, h := b)) (pv(b := h, r := b)) (r # ws) = dll nx pv (r # ws)"
    using r by (intro dll_cong) (auto dest: in_set_butlastD split: if_splits)
  then have "dll (nx(b := r, h := b)) (pv(b := h, r := b)) (h # b # r # ws)"
    using n r assms(2) by simp
  then show ?thesis using assms w by (simp add: ring_def n)
qed

end
