(* ===== verification/Xv6_Bio.thy ===== *)
theory Xv6_Bio
  imports Xv6_Kalloc Xv6_Dll
begin

text \<open>
  The buffer cache (\<^verbatim>\<open>bio.c\<close>) over the disk driver that keeps its blocks in memory (\<^verbatim>\<open>memide.c\<close>).
  Buffers are indices into \<^verbatim>\<open>bcache.buf\<close>; index \<open>NBUF\<close> is \<^verbatim>\<open>bcache.head\<close>. A block's contents is a
  function from byte offsets, so a \<^verbatim>\<open>memmove\<close> of a whole block is an assignment.

  \<open>blk s n\<close> is the contents of block \<open>n\<close> as the kernel sees it: the cached copy if there is a valid
  one, and the disk's otherwise. The routines are characterised by what they do to that view.
\<close>

section \<open>State\<close>

abbreviation "BSIZE \<equiv> (512::nat)"
abbreviation "B_BUSY \<equiv> (1::uint)"
abbreviation "B_VALID \<equiv> (2::uint)"
abbreviation "B_DIRTY \<equiv> (4::uint)"

record buf =
  b_flags :: uint
  b_dev :: uint
  b_blockno :: uint
  b_prev :: nat
  b_next :: nat
  b_qnext :: "nat option"
  b_data :: block

record bio_state = kmem_state +
  bufs :: "nat \<Rightarrow> buf"
  disk :: "nat \<Rightarrow> block"
  disksize :: uint
  dwrites :: "(nat \<times> block) list"

definition upd_buf :: "nat \<Rightarrow> (buf \<Rightarrow> buf) \<Rightarrow> 'a bio_state_scheme \<Rightarrow> 'a bio_state_scheme" where
  "upd_buf i f s = s\<lparr>bufs := (bufs s)(i := f (bufs s i))\<rparr>"

section \<open>The disk (memide.c)\<close>

text \<open>
  The field \<open>dwrites\<close> records every block written to the disk, in order. No routine reads it; a
  crash leaves the disk as some prefix of these writes made it.
\<close>

definition iderw :: "nat \<Rightarrow> 'a bio_state_scheme \<Rightarrow> ('a bio_state_scheme, unit) outcome" where
  "iderw b s =
     (let fl = b_flags (bufs s b); n = b_blockno (bufs s b) in
      if fl AND B_BUSY = 0 then Panic ''iderw: buf not busy''
      else if fl AND (B_VALID OR B_DIRTY) = B_VALID then Panic ''iderw: nothing to do''
      else if b_dev (bufs s b) \<noteq> 1 then Panic ''iderw: request not for disk 1''
      else if disksize s \<le> n then Panic ''iderw: block out of range''
      else
        let s = (if fl AND B_DIRTY \<noteq> 0
                 then (upd_buf b (\<lambda>k. k\<lparr>b_flags := b_flags k AND NOT B_DIRTY\<rparr>) s)
                        \<lparr>disk := (disk s)(unat n := b_data (bufs s b)),
                          dwrites := dwrites s @ [(unat n, b_data (bufs s b))]\<rparr>
                 else upd_buf b (\<lambda>k. k\<lparr>b_data := disk s (unat n)\<rparr>) s) in
        Ret () (upd_buf b (\<lambda>k. k\<lparr>b_flags := b_flags k OR B_VALID\<rparr>) s))"

section \<open>The buffer cache (bio.c)\<close>

definition binit_link :: "nat \<Rightarrow> 'a bio_state_scheme \<Rightarrow> 'a bio_state_scheme" where
  "binit_link b s =
     (let s = upd_buf b (\<lambda>k. k\<lparr>b_next := b_next (bufs s NBUF)\<rparr>) s;
          s = upd_buf b (\<lambda>k. k\<lparr>b_prev := NBUF\<rparr>) s;
          s = upd_buf b (\<lambda>k. k\<lparr>b_dev := - 1\<rparr>) s;
          s = upd_buf (b_next (bufs s NBUF)) (\<lambda>k. k\<lparr>b_prev := b\<rparr>) s
      in upd_buf NBUF (\<lambda>k. k\<lparr>b_next := b\<rparr>) s)"

definition binit :: "'a bio_state_scheme \<Rightarrow> 'a bio_state_scheme" where
  "binit s =
     (let s = upd_buf NBUF (\<lambda>k. k\<lparr>b_prev := NBUF\<rparr>) s;
          s = upd_buf NBUF (\<lambda>k. k\<lparr>b_next := NBUF\<rparr>) s
      in fold binit_link [0..<NBUF] s)"

definition bnext :: "'a bio_state_scheme \<Rightarrow> nat \<Rightarrow> nat" where
  "bnext s = (\<lambda>i. b_next (bufs s i))"

definition bprev :: "'a bio_state_scheme \<Rightarrow> nat \<Rightarrow> nat" where
  "bprev s = (\<lambda>i. b_prev (bufs s i))"

text \<open>The part of \<^verbatim>\<open>bget\<close> from the label \<^verbatim>\<open>loop\<close>, entered again when a sleeper is woken up.\<close>

definition bget_loop :: "uint \<Rightarrow> uint \<Rightarrow> 'a bio_state_scheme \<Rightarrow> ('a bio_state_scheme, nat) outcome" where
  "bget_loop dev blockno s =
     (case list_scan (bnext s) NBUF (\<lambda>b. b_dev (bufs s b) = dev \<and> b_blockno (bufs s b) = blockno) (bnext s NBUF) of
        None \<Rightarrow> Undef ''bget: list''
      | Some (Some b) \<Rightarrow>
          if b_flags (bufs s b) AND B_BUSY = 0
          then andthen (release LkBcache (upd_buf b (\<lambda>k. k\<lparr>b_flags := b_flags k OR B_BUSY\<rparr>) s)) (\<lambda>_ s. Ret b s)
          else andthen (sleep (ChBuf b) LkBcache s) (\<lambda>_ _. Undef ''bget: sleep'')
      | Some None \<Rightarrow>
          (case list_scan (bprev s) NBUF (\<lambda>b. b_flags (bufs s b) AND B_BUSY = 0
                                             \<and> b_flags (bufs s b) AND B_DIRTY = 0) (bprev s NBUF) of
             None \<Rightarrow> Undef ''bget: list''
           | Some None \<Rightarrow> Panic ''bget: no buffers''
           | Some (Some b) \<Rightarrow>
               andthen (release LkBcache
                          (upd_buf b (\<lambda>k. k\<lparr>b_dev := dev, b_blockno := blockno, b_flags := B_BUSY\<rparr>) s))
                 (\<lambda>_ s. Ret b s)))"

definition bget :: "uint \<Rightarrow> uint \<Rightarrow> 'a bio_state_scheme \<Rightarrow> ('a bio_state_scheme, nat) outcome" where
  "bget dev blockno s = andthen (acquire LkBcache s) (\<lambda>_ s. bget_loop dev blockno s)"

definition bget_resume :: "uint \<Rightarrow> uint \<Rightarrow> 'a bio_state_scheme \<Rightarrow> ('a bio_state_scheme, nat) outcome" where
  "bget_resume dev blockno s = andthen (sleep_resume LkBcache s) (\<lambda>_ s. bget_loop dev blockno s)"

definition bread :: "uint \<Rightarrow> uint \<Rightarrow> 'a bio_state_scheme \<Rightarrow> ('a bio_state_scheme, nat) outcome" where
  "bread dev blockno s =
     andthen (bget dev blockno s) (\<lambda>b s.
     andthen (if b_flags (bufs s b) AND B_VALID = 0 then iderw b s else Ret () s) (\<lambda>_ s. Ret b s))"

definition bwrite :: "nat \<Rightarrow> 'a bio_state_scheme \<Rightarrow> ('a bio_state_scheme, unit) outcome" where
  "bwrite b s =
     (if b_flags (bufs s b) AND B_BUSY = 0 then Panic ''bwrite''
      else iderw b (upd_buf b (\<lambda>k. k\<lparr>b_flags := b_flags k OR B_DIRTY\<rparr>) s))"

definition brelse_links :: "nat \<Rightarrow> 'a bio_state_scheme \<Rightarrow> 'a bio_state_scheme" where
  "brelse_links b s =
     (let s = upd_buf (bnext s b) (\<lambda>k. k\<lparr>b_prev := bprev s b\<rparr>) s;
          s = upd_buf (bprev s b) (\<lambda>k. k\<lparr>b_next := bnext s b\<rparr>) s;
          s = upd_buf b (\<lambda>k. k\<lparr>b_next := bnext s NBUF\<rparr>) s;
          s = upd_buf b (\<lambda>k. k\<lparr>b_prev := NBUF\<rparr>) s;
          s = upd_buf (bnext s NBUF) (\<lambda>k. k\<lparr>b_prev := b\<rparr>) s
      in upd_buf NBUF (\<lambda>k. k\<lparr>b_next := b\<rparr>) s)"

definition brelse :: "nat \<Rightarrow> 'a bio_state_scheme \<Rightarrow> ('a bio_state_scheme, unit) outcome" where
  "brelse b s =
     (if b_flags (bufs s b) AND B_BUSY = 0 then Panic ''brelse''
      else andthen (acquire LkBcache s) (\<lambda>_ s.
        let s = brelse_links b s;
            s = upd_buf b (\<lambda>k. k\<lparr>b_flags := b_flags k AND NOT B_BUSY\<rparr>) s in
        andthen (wakeup (ChBuf b) s) (\<lambda>_ s. release LkBcache s)))"

section \<open>Flags\<close>

lemma flag_test [simp]:
  fixes w :: uint
  shows "(w AND B_BUSY = 0) = (\<not> bit w 0)" "(w AND B_VALID = 0) = (\<not> bit w 1)" "(w AND B_DIRTY = 0) = (\<not> bit w 2)"
  using and_exp_eq_0_iff_not_bit [of w 0] and_exp_eq_0_iff_not_bit [of w 1] and_exp_eq_0_iff_not_bit [of w 2]
  by simp_all

lemma bit_flags:
  "bit B_BUSY n = (n = 0)" "bit B_VALID n = (n = 1)" "bit B_DIRTY n = (n = 2)"
proof -
  show "bit B_BUSY n = (n = 0)" by (simp add: bit_1_iff)
  have "bit (2 ^ k :: uint) n = (n = k)" if "k < 32" for k using that by (auto simp: bit_exp_iff possible_bit_def)
  from this [of 1] this [of 2] show "bit B_VALID n = (n = 1)" "bit B_DIRTY n = (n = 2)" by simp_all
qed

lemma flag_set [simp]:
  fixes w :: uint
  shows "bit (w OR B_BUSY) n = (bit w n \<or> n = 0)" "bit (w OR B_VALID) n = (bit w n \<or> n = 1)"
    "bit (w OR B_DIRTY) n = (bit w n \<or> n = 2)"
  by (simp_all only: bit_or_iff bit_flags)

lemma flag_clear [simp]:
  fixes w :: uint
  shows "bit (w AND - 2) n = (bit w n \<and> n \<noteq> 0)" "bit (w AND - 5) n = (bit w n \<and> n \<noteq> 2)"
proof -
  have e: "(- 2 :: uint) = NOT B_BUSY" "(- 5 :: uint) = NOT B_DIRTY" by simp_all
  have "bit w n \<Longrightarrow> n < 32" using bit_imp_le_length [of w n] by simp
  then show "bit (w AND - 2) n = (bit w n \<and> n \<noteq> 0)" "bit (w AND - 5) n = (bit w n \<and> n \<noteq> 2)"
    unfolding e bit_and_iff bit_not_iff bit_flags by (auto simp: possible_bit_def)
qed

lemma flag_clean_valid [simp]:
  fixes w :: uint
  shows "(w AND 6 = B_VALID) = (bit w 1 \<and> \<not> bit w 2)"
proof -
  have e: "(6 :: uint) = B_VALID OR B_DIRTY" by simp
  have "bit (w AND (B_VALID OR B_DIRTY)) n = (bit w n \<and> (n = 1 \<or> n = 2))" for n
    unfolding bit_and_iff bit_or_iff bit_flags by simp
  then have b: "bit (w AND 6) n = (bit w n \<and> (n = 1 \<or> n = 2))" for n unfolding e .
  show ?thesis
  proof
    assume "w AND 6 = B_VALID"
    then have "bit (w AND 6) n = bit B_VALID n" for n by simp
    then have "(bit w n \<and> (n = 1 \<or> n = 2)) = (n = 1)" for n unfolding b bit_flags .
    from this [of 1] this [of 2] show "bit w 1 \<and> \<not> bit w 2" by simp
  next
    assume "bit w 1 \<and> \<not> bit w 2"
    then show "w AND 6 = B_VALID" by (intro bit_eqI) (auto simp only: b bit_flags)
  qed
qed

section \<open>The blocks the kernel sees\<close>

abbreviation busy :: "'a bio_state_scheme \<Rightarrow> nat \<Rightarrow> bool" where
  "busy s b \<equiv> bit (b_flags (bufs s b)) 0"

abbreviation valid :: "'a bio_state_scheme \<Rightarrow> nat \<Rightarrow> bool" where
  "valid s b \<equiv> bit (b_flags (bufs s b)) (Suc 0)"

abbreviation dirty :: "'a bio_state_scheme \<Rightarrow> nat \<Rightarrow> bool" where
  "dirty s b \<equiv> bit (b_flags (bufs s b)) 2"

definition buf_ids :: "nat list" where
  "buf_ids = [0..<NBUF]"

lemma set_buf_ids [simp]: "set buf_ids = {..<NBUF}"
  by (auto simp: buf_ids_def simp del: upt_rec_numeral)

definition buf_for :: "'a bio_state_scheme \<Rightarrow> uint \<Rightarrow> uint \<Rightarrow> nat \<Rightarrow> bool" where
  "buf_for s dev n b \<longleftrightarrow> b_dev (bufs s b) = dev \<and> b_blockno (bufs s b) = n"

definition blk :: "'a bio_state_scheme \<Rightarrow> uint \<Rightarrow> block" where
  "blk s n = (case find (\<lambda>b. buf_for s 1 n b \<and> valid s b) buf_ids of
                Some b \<Rightarrow> b_data (bufs s b) | None \<Rightarrow> disk s (unat n))"

lemma bnext_simps [simp]:
  "bnext (s\<lparr>held := h\<rparr>) = bnext s"
  "bnext (upd_buf i (\<lambda>k. k\<lparr>b_prev := p\<rparr>) s) = bnext s"
  "bnext (upd_buf i (\<lambda>k. k\<lparr>b_next := p\<rparr>) s) = (bnext s)(i := p)"
  "bnext (upd_buf i (\<lambda>k. k\<lparr>b_flags := fl k\<rparr>) s) = bnext s"
  "bnext (upd_buf i (\<lambda>k. k\<lparr>b_dev := d\<rparr>) s) = bnext s"
  by (auto simp: bnext_def upd_buf_def)

lemma bprev_simps [simp]:
  "bprev (s\<lparr>held := h\<rparr>) = bprev s"
  "bprev (upd_buf i (\<lambda>k. k\<lparr>b_next := p\<rparr>) s) = bprev s"
  "bprev (upd_buf i (\<lambda>k. k\<lparr>b_prev := p\<rparr>) s) = (bprev s)(i := p)"
  "bprev (upd_buf i (\<lambda>k. k\<lparr>b_flags := fl k\<rparr>) s) = bprev s"
  "bprev (upd_buf i (\<lambda>k. k\<lparr>b_dev := d\<rparr>) s) = bprev s"
  by (auto simp: bprev_def upd_buf_def)

text \<open>
  The invariant of the cache: the buffers form the ring, no block has two buffers, dirty buffers
  are valid, and a valid buffer that is neither held nor dirty agrees with the disk.
\<close>

definition cache_ring :: "'a bio_state_scheme \<Rightarrow> nat list \<Rightarrow> bool" where
  "cache_ring s bs \<longleftrightarrow> ring (bnext s) (bprev s) NBUF bs \<and> set bs = {..<NBUF}"

definition one_buf :: "'a bio_state_scheme \<Rightarrow> bool" where
  "one_buf s \<longleftrightarrow> (\<forall>i<NBUF. \<forall>j<NBUF. \<forall>dev n. dev \<noteq> - 1 \<longrightarrow> buf_for s dev n i \<longrightarrow> buf_for s dev n j \<longrightarrow> i = j)"

definition buf_coherent :: "'a bio_state_scheme \<Rightarrow> nat \<Rightarrow> bool" where
  "buf_coherent s i \<longleftrightarrow> (dirty s i \<longrightarrow> valid s i)
     \<and> (valid s i \<longrightarrow> b_dev (bufs s i) = 1)
     \<and> (valid s i \<and> \<not> dirty s i \<and> \<not> busy s i \<longrightarrow> b_data (bufs s i) = disk s (unat (b_blockno (bufs s i))))"

definition bcache_inv :: "'a bio_state_scheme \<Rightarrow> bool" where
  "bcache_inv s \<longleftrightarrow> (\<exists>bs. cache_ring s bs) \<and> one_buf s \<and> (\<forall>i<NBUF. buf_coherent s i)"

lemma find_in_set: "find P xs = Some x \<Longrightarrow> x \<in> set xs \<and> P x"
  by (auto simp: find_Some_iff)

lemma find_unique:
  assumes "x \<in> set xs" "P x" "\<And>y. y \<in> set xs \<Longrightarrow> P y \<Longrightarrow> y = x"
  shows "find P xs = Some x"
proof (cases "find P xs")
  case None
  then show ?thesis using assms(1,2) unfolding find_None_iff by blast
next
  case (Some y)
  then show ?thesis using find_in_set [OF Some] assms(3) by simp
qed

lemma one_bufD:
  "one_buf s \<Longrightarrow> buf_for s dev n i \<Longrightarrow> buf_for s dev n j \<Longrightarrow> dev \<noteq> - 1 \<Longrightarrow> i < NBUF \<Longrightarrow> j < NBUF \<Longrightarrow> i = j"
  unfolding one_buf_def by blast

lemma one_bufI:
  "(\<And>i j dev n. i < NBUF \<Longrightarrow> j < NBUF \<Longrightarrow> dev \<noteq> - 1 \<Longrightarrow> buf_for s dev n i \<Longrightarrow> buf_for s dev n j \<Longrightarrow> i = j) \<Longrightarrow> one_buf s"
  unfolding one_buf_def by blast

lemma blk_cached:
  assumes "one_buf s" "i < NBUF" "buf_for s 1 n i" "valid s i"
  shows "blk s n = b_data (bufs s i)"
proof (cases "find (\<lambda>b. buf_for s 1 n b \<and> valid s b) buf_ids")
  case None
  with assms show ?thesis by (auto simp: find_None_iff)
next
  case (Some j)
  then have j: "j \<in> set buf_ids" "buf_for s 1 n j"
    by (auto dest: find_in_set)
  then have "j = i" using assms by (intro one_bufD [OF assms(1), of 1 n]) auto
  with Some show ?thesis by (simp add: blk_def)
qed

lemma blk_uncached:
  assumes "\<And>i. i < NBUF \<Longrightarrow> buf_for s 1 n i \<Longrightarrow> \<not> valid s i"
  shows "blk s n = disk s (unat n)"
proof -
  have "find (\<lambda>b. buf_for s 1 n b \<and> valid s b) buf_ids = None"
    using assms by (auto simp: find_None_iff)
  then show ?thesis by (simp add: blk_def)
qed

lemma blk_cases:
  assumes "one_buf s"
  obtains (cached) i where "i < NBUF" "buf_for s 1 n i" "valid s i" "blk s n = b_data (bufs s i)"
  | (uncached) "\<And>i. i < NBUF \<Longrightarrow> buf_for s 1 n i \<Longrightarrow> \<not> valid s i" "blk s n = disk s (unat n)"
  using blk_cached [OF assms] blk_uncached [of s n] by blast

section \<open>bget\<close>

text \<open>With the ring in place, \<^verbatim>\<open>bget\<close> searches most recently used first and recycles least recently used first.\<close>

lemma bget_loop_ring:
  assumes "cache_ring s bs"
  shows "bget_loop dev n s =
     (case find (buf_for s dev n) bs of
        Some b \<Rightarrow>
          if \<not> busy s b
          then andthen (release LkBcache (upd_buf b (\<lambda>k. k\<lparr>b_flags := b_flags k OR B_BUSY\<rparr>) s)) (\<lambda>_ s. Ret b s)
          else andthen (sleep (ChBuf b) LkBcache s) (\<lambda>_ _. Undef ''bget: sleep'')
      | None \<Rightarrow>
          (case find (\<lambda>b. \<not> busy s b \<and> \<not> dirty s b) (rev bs) of
             None \<Rightarrow> Panic ''bget: no buffers''
           | Some b \<Rightarrow>
               andthen (release LkBcache
                          (upd_buf b (\<lambda>k. k\<lparr>b_dev := dev, b_blockno := n, b_flags := B_BUSY\<rparr>) s))
                 (\<lambda>_ s. Ret b s)))"
proof -
  have r: "ring (bnext s) (bprev s) NBUF bs" using assms by (simp add: cache_ring_def)
  show ?thesis
    unfolding bget_loop_def ring_scan [OF r] ring_scan_back [OF r] flag_test buf_for_def [abs_def]
    by (auto split: option.splits)
qed

lemma bget_hit:
  assumes i: "bcache_inv s" and h: "LkBcache \<notin> held s"
    and b: "b < NBUF" "buf_for s dev n b" "\<not> busy s b" "dev \<noteq> - 1"
  shows "bget dev n s = Ret b (upd_buf b (\<lambda>k. k\<lparr>b_flags := b_flags k OR B_BUSY\<rparr>) s)"
proof -
  let ?s = "s\<lparr>held := insert LkBcache (held s)\<rparr>"
  obtain bs where bs: "cache_ring s bs" using i by (auto simp: bcache_inv_def)
  then have r: "cache_ring ?s bs" by (simp add: cache_ring_def)
  have "find (buf_for ?s dev n) bs = Some b"
  proof (rule find_unique)
    show "y = b" if "y \<in> set bs" "buf_for ?s dev n y" for y
      using i that bs b unfolding bcache_inv_def one_buf_def cache_ring_def buf_for_def by simp
  qed (use bs b in \<open>simp_all add: cache_ring_def buf_for_def\<close>)
  then show ?thesis using h b(3)
    by (simp add: bget_def bget_loop_ring [OF r] upd_buf_def)
qed

lemma bget_miss:
  assumes r: "cache_ring s bs" and h: "LkBcache \<notin> held s"
    and no: "\<And>b. b < NBUF \<Longrightarrow> \<not> buf_for s dev n b"
  shows "bget dev n s =
     (case find (\<lambda>b. \<not> busy s b \<and> \<not> dirty s b) (rev bs) of
        None \<Rightarrow> Panic ''bget: no buffers''
      | Some b \<Rightarrow> Ret b (upd_buf b (\<lambda>k. k\<lparr>b_dev := dev, b_blockno := n, b_flags := B_BUSY\<rparr>) s))"
proof -
  let ?s = "s\<lparr>held := insert LkBcache (held s)\<rparr>"
  have r': "cache_ring ?s bs" using r by (simp add: cache_ring_def)
  have "find (buf_for ?s dev n) bs = None"
    using no r by (auto simp: find_None_iff buf_for_def cache_ring_def)
  then show ?thesis using h
    by (simp add: bget_def bget_loop_ring [OF r'] upd_buf_def split: option.splits)
qed

section \<open>bread\<close>

text \<open>
  What \<^verbatim>\<open>bread\<close> leaves behind: buffer \<open>b\<close> holds block \<open>n\<close> with its current contents. It had held that
  block before, or no buffer did and it was free to be recycled.
\<close>

definition loaded :: "'a bio_state_scheme \<Rightarrow> uint \<Rightarrow> nat \<Rightarrow> uint \<Rightarrow> 'a bio_state_scheme" where
  "loaded s n b fl = upd_buf b (\<lambda>k. k\<lparr>b_dev := 1, b_blockno := n, b_data := blk s n, b_flags := fl\<rparr>) s"

definition may_load :: "'a bio_state_scheme \<Rightarrow> uint \<Rightarrow> nat \<Rightarrow> uint \<Rightarrow> bool" where
  "may_load s n b fl \<longleftrightarrow> b < NBUF \<and> \<not> busy s b \<and> bit fl 0 \<and> bit fl 1
     \<and> (if buf_for s 1 n b then bit fl 2 = dirty s b
        else \<not> bit fl 2 \<and> \<not> dirty s b \<and> (\<forall>c<NBUF. \<not> buf_for s 1 n c))"

lemma loaded_same:
  assumes "buf_for s 1 n b"
  shows "loaded s n b fl = upd_buf b (\<lambda>k. k\<lparr>b_data := blk s n, b_flags := fl\<rparr>) s"
proof -
  have "(bufs s b)\<lparr>b_dev := 1, b_blockno := n, b_data := blk s n, b_flags := fl\<rparr>
      = (bufs s b)\<lparr>b_data := blk s n, b_flags := fl\<rparr>"
    by (rule buf.equality) (use assms in \<open>simp_all add: buf_for_def\<close>)
  then show ?thesis by (simp add: loaded_def upd_buf_def)
qed

lemma bread_hit:
  assumes i: "bcache_inv s" and h: "LkBcache \<notin> held s" and n: "n < disksize s"
    and b: "b < NBUF" "buf_for s 1 n b" "\<not> busy s b"
  shows "\<exists>fl. bread 1 n s = Ret b (loaded s n b fl) \<and> may_load s n b fl"
proof -
  have one: "one_buf s" and c: "buf_coherent s b" using i b(1) by (simp_all add: bcache_inv_def)
  note g = bget_hit [OF i h b, simplified]
  show ?thesis
  proof (cases "valid s b")
    case True
    then have "blk s n = b_data (bufs s b)" by (rule blk_cached [OF one b(1,2)])
    with True b g show ?thesis
      by (intro exI [of _ "b_flags (bufs s b) OR B_BUSY"])
        (simp add: bread_def upd_buf_def loaded_same may_load_def)
  next
    case False
    then have d: "\<not> dirty s b" using c by (simp add: buf_coherent_def)
    have "blk s n = disk s (unat n)"
    proof (rule blk_uncached)
      fix j
      assume "j < NBUF" "buf_for s 1 n j"
      then have "j = b" using b by (intro one_bufD [OF one, of 1 n]) simp_all
      with False show "\<not> valid s j" by simp
    qed
    moreover have "b_dev (bufs s b) = 1" "b_blockno (bufs s b) = n" using b(2) by (simp_all add: buf_for_def)
    ultimately show ?thesis using False b g n d
      by (intro exI [of _ "(b_flags (bufs s b) OR B_BUSY) OR B_VALID"])
        (simp add: bread_def upd_buf_def loaded_same may_load_def iderw_def Let_def not_le)
  qed
qed

lemma bread_miss:
  assumes i: "bcache_inv s" and h: "LkBcache \<notin> held s" and n: "n < disksize s"
    and no: "\<And>b. b < NBUF \<Longrightarrow> \<not> buf_for s 1 n b" and cl: "c < NBUF" "\<not> busy s c" "\<not> dirty s c"
  shows "\<exists>b fl. bread 1 n s = Ret b (loaded s n b fl) \<and> may_load s n b fl"
proof -
  obtain bs where bs: "cache_ring s bs" using i by (auto simp: bcache_inv_def)
  then have "c \<in> set (rev bs)" using cl(1) by (simp add: cache_ring_def)
  then obtain b where f: "find (\<lambda>b. \<not> busy s b \<and> \<not> dirty s b) (rev bs) = Some b"
    using cl by (cases "find (\<lambda>b. \<not> busy s b \<and> \<not> dirty s b) (rev bs)") (auto simp: find_None_iff)
  then have b: "b < NBUF" "\<not> busy s b" "\<not> dirty s b"
    using find_in_set [OF f] bs by (simp_all add: cache_ring_def)
  have "blk s n = disk s (unat n)" using no by (intro blk_uncached) blast
  then have "bread 1 n s = Ret b (loaded s n b (B_BUSY OR B_VALID)) \<and> may_load s n b (B_BUSY OR B_VALID)"
    using b n no bget_miss [OF bs h no] f
    by (simp add: bread_def upd_buf_def loaded_def may_load_def iderw_def Let_def not_le)
  then show ?thesis by blast
qed

lemma loaded_view:
  assumes i: "bcache_inv s" and m: "may_load s n b fl"
  shows "one_buf (loaded s n b fl) \<and> blk (loaded s n b fl) = blk s"
proof -
  let ?t = "loaded s n b fl"
  have one: "one_buf s" and c: "buf_coherent s b" using i m by (simp_all add: bcache_inv_def may_load_def)
  have f: "buf_for ?t dev k j = (if j = b then dev = 1 \<and> k = n else buf_for s dev k j)" for dev k j
    by (auto simp: loaded_def upd_buf_def buf_for_def)
  have fresh: "buf_for s 1 n j \<Longrightarrow> j < NBUF \<Longrightarrow> j = b" for j
    using m one_bufD [OF one, of 1 n j b] by (auto simp: may_load_def split: if_splits)
  have one': "one_buf ?t"
  proof (rule one_bufI)
    show "i = j" if "i < NBUF" "j < NBUF" "dev \<noteq> - 1" "buf_for ?t dev k i" "buf_for ?t dev k j" for i j dev k
      using that fresh [of i] fresh [of j] one_bufD [OF one, of dev k i j] by (auto simp: f split: if_splits)
  qed
  have "blk ?t k = blk s k" for k
  proof (cases "k = n")
    case True
    have "b < NBUF" "buf_for ?t 1 n b" "valid ?t b"
      using m by (simp_all add: f) (simp_all add: may_load_def loaded_def upd_buf_def)
    then have "blk ?t n = b_data (bufs ?t b)" by (rule blk_cached [OF one'])
    then show ?thesis using True by (simp add: loaded_def upd_buf_def)
  next
    case False
    show ?thesis using one'
    proof (cases rule: blk_cases [of ?t k])
      case (cached j)
      then have "j \<noteq> b" "buf_for s 1 k j" using False by (auto simp: f split: if_splits)
      with cached show ?thesis
        using blk_cached [OF one, of j k] by (simp add: loaded_def upd_buf_def)
    next
      case uncached
      have "blk s k = disk s (unat k)"
      proof (rule blk_cases [OF one, of k])
        fix j
        assume j: "j < NBUF" "buf_for s 1 k j" "valid s j" "blk s k = b_data (bufs s j)"
        have "j = b"
        proof (rule ccontr)
          assume "j \<noteq> b"
          then have "buf_for ?t 1 k j" "valid ?t j" using j by (simp_all add: f) (simp add: loaded_def upd_buf_def)
          with uncached(1) [OF j(1)] show False by blast
        qed
        with j False m c show "blk s k = disk s (unat k)"
          by (auto simp: may_load_def buf_coherent_def buf_for_def)
      qed simp
      with uncached show ?thesis by (simp add: loaded_def upd_buf_def)
    qed
  qed
  with one' show ?thesis by blast
qed

lemma loaded_inv:
  assumes i: "bcache_inv s" and m: "may_load s n b fl"
  shows "bcache_inv (loaded s n b fl)"
proof -
  have "cache_ring (loaded s n b fl) bs = cache_ring s bs" for bs
  proof -
    have "bnext (loaded s n b fl) = bnext s" "bprev (loaded s n b fl) = bprev s"
      by (auto simp: loaded_def upd_buf_def bnext_def bprev_def)
    then show ?thesis by (simp add: cache_ring_def)
  qed
  moreover have "buf_coherent (loaded s n b fl) j" if "j < NBUF" for j
  proof (cases "j = b")
    case True
    then show ?thesis using m by (simp add: buf_coherent_def loaded_def upd_buf_def may_load_def)
  next
    case False
    then show ?thesis using i that by (simp add: bcache_inv_def buf_coherent_def loaded_def upd_buf_def)
  qed
  ultimately show ?thesis using i loaded_view [OF i m] by (simp add: bcache_inv_def)
qed

section \<open>brelse\<close>

definition same_payload :: "buf \<Rightarrow> buf \<Rightarrow> bool" where
  "same_payload k k' \<longleftrightarrow> b_flags k = b_flags k' \<and> b_dev k = b_dev k' \<and> b_blockno k = b_blockno k'
     \<and> b_qnext k = b_qnext k' \<and> b_data k = b_data k'"

lemma same_payload_simps [simp]:
  "same_payload (bufs (upd_buf i (\<lambda>k. k\<lparr>b_next := p\<rparr>) s) j) k = same_payload (bufs s j) k"
  "same_payload (bufs (upd_buf i (\<lambda>k. k\<lparr>b_prev := p\<rparr>) s) j) k = same_payload (bufs s j) k"
  "same_payload k k"
  by (auto simp: same_payload_def upd_buf_def)

definition only_bufs :: "'a bio_state_scheme \<Rightarrow> 'a bio_state_scheme \<Rightarrow> bool" where
  "only_bufs s t \<longleftrightarrow> t = s\<lparr>bufs := bufs t\<rparr>"

lemma only_bufs_refl [simp]: "only_bufs s s"
  by (simp add: only_bufs_def)

lemma only_bufs_upd: "only_bufs s t \<Longrightarrow> only_bufs s (upd_buf i f t)"
  by (cases t, cases s) (simp add: only_bufs_def upd_buf_def)

lemma brelse_links_payload: "same_payload (bufs (brelse_links b s) i) (bufs s i)"
  by (simp add: brelse_links_def Let_def)

lemma brelse_links_frame: "only_bufs s (brelse_links b s)"
  by (simp add: brelse_links_def Let_def only_bufs_upd)

lemma brelse_links_nx:
  assumes "bnext s b \<noteq> b" "b \<noteq> NBUF"
  shows "bnext (brelse_links b s)
      = (let nx = (bnext s)(bprev s b := bnext s b) in nx(b := nx NBUF, NBUF := b))"
    and "bprev (brelse_links b s)
      = (let nx = (bnext s)(bprev s b := bnext s b) in (bprev s)(bnext s b := bprev s b, b := NBUF, nx NBUF := b))"
  using assms by (simp_all add: brelse_links_def Let_def)

lemma brelse_links_ring:
  assumes r: "cache_ring s bs" and b: "b < NBUF"
  shows "cache_ring (brelse_links b s) (b # remove1 b bs)"
proof -
  have R: "ring (bnext s) (bprev s) NBUF bs" and S: "set bs = {..<NBUF}"
    using r by (simp_all add: cache_ring_def)
  then obtain xs ys where bs: "bs = xs @ b # ys" using b split_list [of b bs] by auto
  have d: "distinct bs" "NBUF \<notin> set bs" using R by (simp_all add: ring_def)
  then have rm: "remove1 b bs = xs @ ys" using bs by (simp add: remove1_append)
  have "dll (bnext s) (bprev s) (((NBUF # xs) @ [b]) @ (ys @ [NBUF]))" using R bs by (simp add: ring_def)
  then have "dll (bnext s) (bprev s) (b # ys @ [NBUF])"
    using dll_append [of "bnext s" "bprev s" "NBUF # xs" b "ys @ [NBUF]"] by simp
  then have "bnext s b \<in> set (ys @ [NBUF])" by (cases ys) auto
  then have n: "bnext s b \<noteq> b" "b \<noteq> NBUF" using d bs b by auto
  have "ring (bnext (brelse_links b s)) (bprev (brelse_links b s)) NBUF (b # xs @ ys)"
    unfolding brelse_links_nx [OF n] Let_def
    using d bs n by (intro ring_push ring_unlink) (use R bs in auto)
  moreover have "set (b # xs @ ys) = {..<NBUF}" using S bs b by auto
  ultimately show ?thesis by (simp add: cache_ring_def rm)
qed

lemma upd_buf_held: "upd_buf i f (s\<lparr>held := h\<rparr>) = (upd_buf i f s)\<lparr>held := h\<rparr>"
  by (simp add: upd_buf_def)

lemma brelse_links_held: "brelse_links b (s\<lparr>held := h\<rparr>) = (brelse_links b s)\<lparr>held := h\<rparr>"
  unfolding brelse_links_def Let_def by (simp add: upd_buf_held)

lemma upd_buf_simps [simp]:
  "held (upd_buf i f s) = held s" "disk (upd_buf i f s) = disk s" "disksize (upd_buf i f s) = disksize s"
  "ptable (upd_buf i f s) = ptable s" "curproc (upd_buf i f s) = curproc s"
  by (simp_all add: upd_buf_def)

lemma brelse_links_simps [simp]:
  "held (brelse_links b s) = held s" "disk (brelse_links b s) = disk s"
  "ptable (brelse_links b s) = ptable s"
  by (simp_all add: brelse_links_def Let_def)

lemma wakeup1_held: "wakeup1 ch (s\<lparr>held := h\<rparr>) = (wakeup1 ch s)\<lparr>held := h\<rparr>"
  by (simp add: wakeup1_def cong: if_cong)

lemma brelse_eq:
  assumes "busy s b" "LkBcache \<notin> held s" "LkPtable \<notin> held s"
  shows "brelse b s =
     Ret () (wakeup1 (ChBuf b) (upd_buf b (\<lambda>k. k\<lparr>b_flags := b_flags k AND NOT B_BUSY\<rparr>) (brelse_links b s)))"
  using assms
  by (simp add: brelse_def Let_def brelse_links_held upd_buf_held wakeup1_held wakeup_eq)

text \<open>Two states that differ in links, busy and dirty bits only show the same blocks.\<close>

definition same_view :: "'a bio_state_scheme \<Rightarrow> 'a bio_state_scheme \<Rightarrow> bool" where
  "same_view s t \<longleftrightarrow> disk t = disk s \<and> (\<forall>i. b_dev (bufs t i) = b_dev (bufs s i) \<and> b_blockno (bufs t i) = b_blockno (bufs s i)
     \<and> b_data (bufs t i) = b_data (bufs s i) \<and> valid t i = valid s i)"

lemma same_view_blk: "same_view s t \<Longrightarrow> blk t = blk s \<and> one_buf t = one_buf s"
proof -
  assume v: "same_view s t"
  then have "buf_for t = buf_for s" by (simp add: same_view_def buf_for_def fun_eq_iff)
  moreover have "\<And>i. valid t i = valid s i" "disk t = disk s" "\<And>i. b_data (bufs t i) = b_data (bufs s i)"
    using v by (simp_all add: same_view_def)
  ultimately show ?thesis unfolding blk_def [abs_def] one_buf_def by (simp cong: option.case_cong)
qed

definition released :: "'a bio_state_scheme \<Rightarrow> nat \<Rightarrow> 'a bio_state_scheme" where
  "released s b = wakeup1 (ChBuf b) (upd_buf b (\<lambda>k. k\<lparr>b_flags := b_flags k AND NOT B_BUSY\<rparr>) (brelse_links b s))"

lemma bufs_wakeup1 [simp]:
  "bufs (wakeup1 ch s) = bufs s" "disk (wakeup1 ch s) = disk s" "disksize (wakeup1 ch s) = disksize s"
  "bnext (wakeup1 ch s) = bnext s" "bprev (wakeup1 ch s) = bprev s"
  by (simp_all add: wakeup1_def bnext_def bprev_def)

lemma released_payload:
  "b_dev (bufs (released s b) i) = b_dev (bufs s i)"
  "b_blockno (bufs (released s b) i) = b_blockno (bufs s i)"
  "b_data (bufs (released s b) i) = b_data (bufs s i)"
  "bit (b_flags (bufs (released s b) i)) n = (bit (b_flags (bufs s i)) n \<and> (i = b \<longrightarrow> n \<noteq> 0))"
  using brelse_links_payload [of b s i]
  by (auto simp: released_def same_payload_def upd_buf_def)

lemma released_frame:
  "released s b = s\<lparr>bufs := bufs (released s b), ptable := ptable (wakeup1 (ChBuf b) s)\<rparr>"
proof -
  define u where "u = upd_buf b (\<lambda>k. k\<lparr>b_flags := b_flags k AND NOT B_BUSY\<rparr>) (brelse_links b s)"
  have "only_bufs s u" unfolding u_def by (intro only_bufs_upd brelse_links_frame)
  then have "u = s\<lparr>bufs := bufs u\<rparr>" by (simp add: only_bufs_def)
  then have "wakeup1 (ChBuf b) u = wakeup1 (ChBuf b) (s\<lparr>bufs := bufs u\<rparr>)" by simp
  also have "\<dots> = s\<lparr>bufs := bufs u, ptable := ptable (wakeup1 (ChBuf b) s)\<rparr>"
    by (simp add: wakeup1_def cong: if_cong)
  finally show ?thesis unfolding released_def u_def [symmetric] by simp
qed

lemma released_simps:
  "disk (released s b) = disk s" "disksize (released s b) = disksize s" "held (released s b) = held s"
  using arg_cong [OF released_frame [of s b], of disk] arg_cong [OF released_frame [of s b], of held]
    arg_cong [OF released_frame [of s b], of disksize] by simp_all

lemma released_view: "same_view s (released s b)"
  by (simp add: same_view_def released_payload released_simps)

lemma released_ring:
  "cache_ring s bs \<Longrightarrow> b < NBUF \<Longrightarrow> cache_ring (released s b) (b # remove1 b bs)"
  using brelse_links_ring [of s bs b] by (simp add: cache_ring_def released_def)

lemma released_inv:
  assumes i: "bcache_inv s" and b: "b < NBUF"
    and ok: "valid s b \<Longrightarrow> \<not> dirty s b \<Longrightarrow> b_data (bufs s b) = disk s (unat (b_blockno (bufs s b)))"
  shows "bcache_inv (released s b)"
proof -
  have "buf_coherent (released s b) j" if "j < NBUF" for j
    using i that ok by (auto simp: bcache_inv_def buf_coherent_def released_payload released_simps)
  then show ?thesis
    using i b released_ring [of s _ b] same_view_blk [OF released_view [of s b]] unfolding bcache_inv_def by blast
qed

end
