(* ===== verification/Xv6_Bview.thy ===== *)
theory Xv6_Bview
  imports Xv6_Bio
begin

text \<open>
  What the routines of the buffer cache do to a client's view of the disk: the contents of every
  block, the buffers the client holds, and the blocks with uncommitted modifications. The laws of
  this theory are all that the log and the file system use.
\<close>

section \<open>The cache as its clients see it\<close>

text \<open>
  \<open>bview s V H D\<close>: the blocks have contents \<open>V\<close>, this processor's caller holds the buffers \<open>H\<close> (with
  their block numbers) and nobody holds another, and \<open>D\<close> are the blocks with modifications that the
  log has not yet written.
\<close>

definition dirty_blocks :: "'a bio_state_scheme \<Rightarrow> uint set" where
  "dirty_blocks s = (\<lambda>b. b_blockno (bufs s b)) ` {b. b < NBUF \<and> dirty s b}"

definition bview :: "'a bio_state_scheme \<Rightarrow> (uint \<Rightarrow> block) \<Rightarrow> (nat \<times> uint) list \<Rightarrow> uint set \<Rightarrow> bool" where
  "bview s V H D \<longleftrightarrow> bcache_inv s \<and> LkBcache \<notin> held s \<and> LkPtable \<notin> held s \<and> blk s = V \<and> dirty_blocks s = D
     \<and> distinct (map fst H) \<and> (\<forall>b<NBUF. busy s b \<longleftrightarrow> (\<exists>n. (b, n) \<in> set H))
     \<and> (\<forall>b n. (b, n) \<in> set H \<longrightarrow> b < NBUF \<and> buf_for s 1 n b \<and> valid s b)"

text \<open>The part of the state that the cache's routines leave alone.\<close>

definition procs_same :: "(nat \<Rightarrow> proc) \<Rightarrow> (nat \<Rightarrow> proc) \<Rightarrow> bool" where
  "procs_same P Q \<longleftrightarrow> (\<forall>i. \<exists>st. Q i = (P i)\<lparr>p_state := st\<rparr>)"

definition rest_same :: "'a bio_state_scheme \<Rightarrow> 'a bio_state_scheme \<Rightarrow> bool" where
  "rest_same s t \<longleftrightarrow> (\<exists>B P. t = s\<lparr>bufs := B, ptable := P\<rparr> \<and> procs_same (ptable s) P)"

lemma procs_same_refl [simp]: "procs_same P P"
  unfolding procs_same_def
proof
  show "\<exists>st. P i = (P i)\<lparr>p_state := st\<rparr>" for i by (rule exI [of _ "p_state (P i)"]) simp
qed

lemma procs_same_trans: "procs_same P Q \<Longrightarrow> procs_same Q R \<Longrightarrow> procs_same P R"
  unfolding procs_same_def
proof
  fix i
  assume "\<forall>i. \<exists>st. Q i = (P i)\<lparr>p_state := st\<rparr>" "\<forall>i. \<exists>st. R i = (Q i)\<lparr>p_state := st\<rparr>"
  then obtain a b where "Q i = (P i)\<lparr>p_state := a\<rparr>" "R i = (Q i)\<lparr>p_state := b\<rparr>" by meson
  then show "\<exists>st. R i = (P i)\<lparr>p_state := st\<rparr>" by (intro exI [of _ b]) simp
qed

lemma procs_same_wakeup1: "procs_same (ptable s) (ptable (wakeup1 ch s))"
  unfolding procs_same_def
proof
  fix i
  show "\<exists>st. ptable (wakeup1 ch s) i = (ptable s i)\<lparr>p_state := st\<rparr>"
  proof (cases "i < NPROC \<and> p_state (ptable s i) = SLEEPING \<and> p_chan (ptable s i) = Some ch")
    case True
    then show ?thesis by (intro exI [of _ RUNNABLE]) (simp add: wakeup1_def)
  next
    case False
    then show ?thesis by (intro exI [of _ "p_state (ptable s i)"]) (auto simp: wakeup1_def)
  qed
qed

lemma rest_same_refl [simp]: "rest_same s s"
  unfolding rest_same_def by (intro exI [of _ "bufs s"] exI [of _ "ptable s"]) simp

lemma rest_same_trans: "rest_same s t \<Longrightarrow> rest_same t u \<Longrightarrow> rest_same s u"
  unfolding rest_same_def by (elim exE conjE) (auto intro: procs_same_trans)

lemma rest_same_upd: "rest_same s (upd_buf b f s)"
  unfolding rest_same_def upd_buf_def
  by (intro exI [of _ "(bufs s)(b := f (bufs s b))"] exI [of _ "ptable s"]) simp

lemma rest_same_released: "rest_same s (released s b)"
  unfolding rest_same_def using released_frame [of s b] procs_same_wakeup1 [of s "ChBuf b"] by blast

lemma rest_sameD:
  assumes "rest_same s t"
  shows "held t = held s" "curproc t = curproc s" "disk t = disk s" "disksize t = disksize s"
    "dwrites t = dwrites s" "mem t = mem s" "syms t = syms s" "procs_same (ptable s) (ptable t)"
    "freelist t = freelist s" "use_lock t = use_lock s" "bio_state.more t = bio_state.more s"
    "ticks t = ticks s" "nextpid t = nextpid s" "initproc t = initproc s" "consout t = consout s"
  using assms by (auto simp: rest_same_def)

lemma bview_used:
  assumes v: "bview s V H D" and c: "length H + card D < NBUF"
  shows "\<exists>b<NBUF. \<not> busy s b \<and> \<not> dirty s b"
proof (rule ccontr)
  assume "\<not> ?thesis"
  then have all: "{..<NBUF} \<subseteq> fst ` set H \<union> {b. b < NBUF \<and> dirty s b}"
    using v by (force simp: bview_def)
  have "inj_on (\<lambda>b. b_blockno (bufs s b)) {b. b < NBUF \<and> dirty s b}"
  proof (rule inj_onI)
    fix a b
    assume *: "a \<in> {b. b < NBUF \<and> dirty s b}" "b \<in> {b. b < NBUF \<and> dirty s b}" "b_blockno (bufs s a) = b_blockno (bufs s b)"
    then have "b_dev (bufs s a) = 1" "b_dev (bufs s b) = 1" and one: "one_buf s"
      using v by (simp_all add: bview_def bcache_inv_def buf_coherent_def)
    then show "a = b" using * by (intro one_bufD [OF one, of 1 "b_blockno (bufs s b)"]) (simp_all add: buf_for_def)
  qed
  moreover have "D = (\<lambda>b. b_blockno (bufs s b)) ` {b. b < NBUF \<and> dirty s b}"
    using v by (auto simp: bview_def dirty_blocks_def)
  ultimately have "card D = card {b. b < NBUF \<and> dirty s b}" by (simp add: card_image)
  moreover have "card (fst ` set H) \<le> length H" by (meson card_image_le card_length finite_set le_trans)
  moreover have "NBUF \<le> card (fst ` set H \<union> {b. b < NBUF \<and> dirty s b})"
    using card_mono [OF _ all] by simp
  ultimately show False using c card_Un_le [of "fst ` set H" "{b. b < NBUF \<and> dirty s b}"] by linarith
qed

lemma bview_inv: "bview s V H D \<Longrightarrow> bcache_inv s" "bview s V H D \<Longrightarrow> one_buf s"
    "bview s V H D \<Longrightarrow> LkBcache \<notin> held s" "bview s V H D \<Longrightarrow> LkPtable \<notin> held s" "bview s V H D \<Longrightarrow> blk s = V"
  by (simp_all add: bview_def bcache_inv_def)

lemma bview_held:
  assumes "bview s V H D" "(b, n) \<in> set H"
  shows "b < NBUF" "buf_for s 1 n b" "valid s b" "busy s b"
  using assms unfolding bview_def by blast+

lemma bview_busy: "bview s V H D \<Longrightarrow> b < NBUF \<Longrightarrow> busy s b = (\<exists>n. (b, n) \<in> set H)"
  unfolding bview_def by blast

lemma bview_cong:
  assumes "bufs t = bufs s" "disk t = disk s" "held t = held s"
  shows "bview t V H D = bview s V H D"
proof -
  have bf: "buf_for t = buf_for s" by (simp add: buf_for_def fun_eq_iff assms)
  have "blk t = blk s" unfolding blk_def [abs_def] by (simp add: bf assms cong: option.case_cong)
  moreover have "bcache_inv t = bcache_inv s"
    by (simp add: bcache_inv_def cache_ring_def one_buf_def buf_coherent_def bf assms bnext_def bprev_def)
  ultimately show ?thesis by (simp add: bview_def dirty_blocks_def bf assms)
qed

lemma bview_notbusy:
  assumes v: "bview s V H D" and n: "\<And>c. (c, n) \<notin> set H" and b: "b < NBUF" "buf_for s 1 n b"
  shows "\<not> busy s b"
proof
  assume "busy s b"
  then obtain m where m: "(b, m) \<in> set H" using bview_busy [OF v b(1)] by blast
  then have "m = n" using bview_held(2) [OF v m] b(2) by (simp add: buf_for_def)
  with m n show False by simp
qed

lemma dirty_loaded:
  assumes "may_load s n b fl"
  shows "dirty_blocks (loaded s n b fl) = dirty_blocks s"
proof -
  have "{j. j < NBUF \<and> dirty (loaded s n b fl) j} = {j. j < NBUF \<and> dirty s j}"
    using assms by (auto simp: loaded_def may_load_def upd_buf_def buf_for_def split: if_splits)
  moreover have "b_blockno (bufs (loaded s n b fl) j) = b_blockno (bufs s j)" if "dirty s j" for j
    using assms that by (auto simp: loaded_def may_load_def upd_buf_def buf_for_def split: if_splits)
  ultimately show ?thesis unfolding dirty_blocks_def by (intro image_cong) simp_all
qed

lemma bread_view:
  assumes v: "bview s V H D" and n: "\<And>c. (c, n) \<notin> set H" "n < disksize s" and c: "n \<in> D \<or> length H + card D < NBUF"
  shows "returns (bread 1 n s) (\<lambda>b t. bview t V ((b, n) # H) D \<and> rest_same s t)"
proof -
  note i = bview_inv(1) [OF v] and h = bview_inv(3) [OF v]
  have "\<exists>b fl. bread 1 n s = Ret b (loaded s n b fl) \<and> may_load s n b fl"
  proof (cases "\<exists>b<NBUF. buf_for s 1 n b")
    case True
    then obtain b where b: "b < NBUF" "buf_for s 1 n b" by blast
    show ?thesis using bread_hit [OF i h n(2) b bview_notbusy [OF v n(1) b]] by blast
  next
    case False
    have "n \<notin> D" using False v by (auto simp: bview_def dirty_blocks_def bcache_inv_def buf_coherent_def buf_for_def)
    with False bview_used [OF v] c show ?thesis using bread_miss [OF i h n(2)] by blast
  qed
  then obtain b fl where r: "bread 1 n s = Ret b (loaded s n b fl)" and m: "may_load s n b fl" by blast
  let ?t = "loaded s n b fl"
  have b: "b < NBUF" "\<And>k. (b, k) \<notin> set H" using m bview_busy [OF v, of b] by (auto simp: may_load_def)
  have e: "bufs ?t = (bufs s)(b := (bufs s b)\<lparr>b_dev := 1, b_blockno := n, b_data := blk s n, b_flags := fl\<rparr>)" "held ?t = held s"
    by (simp_all add: loaded_def upd_buf_def)
  have other: "c \<noteq> b \<and> bufs ?t c = bufs s c" if "(c, k) \<in> set H" for c k
    using b(2) that by (auto simp: e)
  have "bview ?t V ((b, n) # H) D"
    unfolding bview_def
  proof (intro conjI allI impI)
    show "bcache_inv ?t" by (rule loaded_inv [OF i m])
    show "blk ?t = V" using loaded_view [OF i m] bview_inv(5) [OF v] by simp
    show "dirty_blocks ?t = D" using dirty_loaded [OF m] v by (simp add: bview_def)
    show "distinct (map fst ((b, n) # H))" using v b(2) by (auto simp: bview_def)
    show "busy ?t c = (\<exists>k. (c, k) \<in> set ((b, n) # H))" if "c < NBUF" for c
      using m bview_busy [OF v that] by (auto simp: e may_load_def)
    fix c k
    assume "(c, k) \<in> set ((b, n) # H)"
    then consider "c = b" "k = n" | "(c, k) \<in> set H" by auto
    then show "c < NBUF" "buf_for ?t 1 k c" "valid ?t c"
      using m other bview_held [OF v] by (cases; simp add: may_load_def buf_for_def e; fail)+
  qed (use v in \<open>simp_all add: bview_def e\<close>)
  moreover have "rest_same s ?t" unfolding loaded_def by (rule rest_same_upd)
  ultimately show ?thesis unfolding r by simp
qed

lemma bview_data: "bview s V H D \<Longrightarrow> (b, n) \<in> set H \<Longrightarrow> b_data (bufs s b) = V n"
  using blk_cached [OF bview_inv(2), of s V H D b n] bview_held [of s V H D b n] bview_inv(5) [of s V H D] by simp

lemma bview_blockno: "bview s V H D \<Longrightarrow> (b, n) \<in> set H \<Longrightarrow> b_blockno (bufs s b) = n \<and> b_dev (bufs s b) = 1"
  using bview_held(2) [of s V H D b n] by (simp add: buf_for_def)

text \<open>Writing through a held buffer changes that block.\<close>

lemma blk_upd_data:
  assumes one: "one_buf s" and b: "b < NBUF" "buf_for s 1 n b" "valid s b"
  shows "blk (upd_buf b (\<lambda>k. k\<lparr>b_data := d\<rparr>) s) = (blk s)(n := d)"
proof
  fix m
  let ?t = "upd_buf b (\<lambda>k. k\<lparr>b_data := d\<rparr>) s"
  have same: "buf_for ?t = buf_for s" "\<And>i. valid ?t i = valid s i" "disk ?t = disk s"
    by (auto simp: upd_buf_def buf_for_def fun_eq_iff)
  have one': "one_buf ?t" using one by (simp add: one_buf_def same)
  show "blk ?t m = ((blk s)(n := d)) m"
  proof (cases "m = n")
    case True
    then show ?thesis using blk_cached [OF one', of b n] b by (simp add: same) (simp add: upd_buf_def)
  next
    case False
    have "blk ?t m = blk s m"
    proof (cases rule: blk_cases [OF one, of m])
      case (1 j)
      then have "j \<noteq> b" using False b(2) by (auto simp: buf_for_def)
      with 1 show ?thesis using blk_cached [OF one', of j m] by (simp add: same) (simp add: upd_buf_def)
    next
      case 2
      then show ?thesis using blk_uncached [of ?t m] by (simp add: same)
    qed
    with False show ?thesis by simp
  qed
qed

lemma upd_data_view:
  assumes v: "bview s V H D" and b: "(b, n) \<in> set H"
  shows "bview (upd_buf b (\<lambda>k. k\<lparr>b_data := d\<rparr>) s) (V(n := d)) H D"
proof -
  let ?t = "upd_buf b (\<lambda>k. k\<lparr>b_data := d\<rparr>) s"
  have bf: "buf_for ?t = buf_for s" by (simp add: upd_buf_def buf_for_def fun_eq_iff)
  then have "one_buf ?t = one_buf s" by (simp add: one_buf_def)
  note same = bf this
  have fields: "b_flags (bufs ?t i) = b_flags (bufs s i)" "b_dev (bufs ?t i) = b_dev (bufs s i)"
      "b_blockno (bufs ?t i) = b_blockno (bufs s i)" "bnext ?t = bnext s" "bprev ?t = bprev s" for i
    by (simp_all add: upd_buf_def bnext_def bprev_def fun_eq_iff)
  have "buf_coherent ?t j" if "j < NBUF" for j
    using v that bview_held(4) [OF v b] by (cases "j = b") (simp_all add: bview_def bcache_inv_def buf_coherent_def upd_buf_def)
  then have "bcache_inv ?t" using v by (simp add: bview_def bcache_inv_def cache_ring_def same fields)
  moreover have "blk ?t = V(n := d)"
    using blk_upd_data [OF bview_inv(2) [OF v] bview_held(1-3) [OF v b]] bview_inv(5) [OF v] by simp
  ultimately show ?thesis using v by (simp add: bview_def dirty_blocks_def same fields)
qed

lemma mark_dirty_view:
  assumes v: "bview s V H D" and b: "(b, n) \<in> set H"
  shows "bview (upd_buf b (\<lambda>k. k\<lparr>b_flags := b_flags k OR B_DIRTY\<rparr>) s) V H (insert n D)"
proof -
  let ?t = "upd_buf b (\<lambda>k. k\<lparr>b_flags := b_flags k OR B_DIRTY\<rparr>) s"
  have f: "bit (b_flags (bufs ?t i)) k = (bit (b_flags (bufs s i)) k \<or> i = b \<and> k = 2)" for i k
    by (simp add: upd_buf_def)
  have bf: "buf_for ?t = buf_for s" by (simp add: upd_buf_def buf_for_def fun_eq_iff)
  then have "one_buf ?t = one_buf s" by (simp add: one_buf_def)
  note same = bf this
  have fields: "b_dev (bufs ?t i) = b_dev (bufs s i)" "b_data (bufs ?t i) = b_data (bufs s i)"
      "b_blockno (bufs ?t i) = b_blockno (bufs s i)" for i
    by (simp_all add: upd_buf_def)
  have "same_view s ?t" by (simp add: same_view_def f same fields)
  then have "blk ?t = V" using same_view_blk bview_inv(5) [OF v] by blast
  moreover have "buf_coherent ?t j" if "j < NBUF" for j
    using v that bview_held(3) [OF v b] by (auto simp: bview_def bcache_inv_def buf_coherent_def f same fields)
  then have "bcache_inv ?t" using v by (simp add: bview_def bcache_inv_def cache_ring_def same fields)
  moreover have "{j. j < NBUF \<and> dirty ?t j} = insert b {j. j < NBUF \<and> dirty s j}"
    using bview_held(1) [OF v b] by (auto simp: f)
  then have "dirty_blocks ?t = insert n D"
    using v bview_blockno [OF v b] by (simp add: bview_def dirty_blocks_def same fields)
  ultimately show ?thesis using v by (simp add: bview_def f same fields)
qed

lemma brelse_view:
  assumes v: "bview s V H D" and b: "(b, n) \<in> set H" and ok: "n \<in> D \<or> V n = disk s (unat n)"
  shows "returns (brelse b s) (\<lambda>_ t. bview t V (remove1 (b, n) H) D \<and> rest_same s t)"
proof -
  let ?t = "released s b"
  note h = bview_held [OF v b] and blockno = bview_blockno [OF v b]
  have r: "brelse b s = Ret () ?t"
    using brelse_eq [of s b] h(4) bview_inv(3,4) [OF v] by (simp add: released_def)
  have "n \<in> D \<Longrightarrow> dirty s b"
  proof -
    assume "n \<in> D"
    then obtain c where c: "c < NBUF" "dirty s c" "b_blockno (bufs s c) = n"
      using v by (auto simp: bview_def dirty_blocks_def)
    then have "buf_for s 1 n c" using v by (auto simp: bview_def bcache_inv_def buf_coherent_def buf_for_def)
    then have "c = b" using one_bufD [OF bview_inv(2) [OF v], of 1 n c b] c h by simp
    with c show ?thesis by simp
  qed
  then have inv: "bcache_inv ?t"
    using released_inv [OF bview_inv(1) [OF v] h(1)] ok blockno bview_data [OF v b] by auto
  have mem: "(c, m) \<in> set (remove1 (b, n) H) \<longleftrightarrow> (c, m) \<in> set H \<and> c \<noteq> b" for c m
  proof -
    have d: "distinct (map fst H)" using v by (simp add: bview_def)
    then have "(b, m) \<in> set H \<Longrightarrow> m = n" using b by (auto dest: eq_key_imp_eq_value)
    then show ?thesis using b d by (auto simp: distinct_map set_remove1_eq)
  qed
  have "{j. j < NBUF \<and> dirty ?t j} = {j. j < NBUF \<and> dirty s j}" by (auto simp: released_payload)
  then have "dirty_blocks ?t = D" using v by (simp add: bview_def dirty_blocks_def released_payload)
  moreover have "distinct (map fst (remove1 (b, n) H))"
    using v by (simp add: bview_def distinct_map inj_on_def)
  moreover have "busy ?t c = (\<exists>m. (c, m) \<in> set (remove1 (b, n) H))" if "c < NBUF" for c
    using bview_busy [OF v that] by (auto simp: mem released_payload)
  moreover have "c < NBUF \<and> buf_for ?t 1 m c \<and> valid ?t c" if "(c, m) \<in> set (remove1 (b, n) H)" for c m
    using that bview_held [OF v, of c m] by (simp add: mem released_payload buf_for_def)
  moreover have "blk ?t = V" using same_view_blk [OF released_view] bview_inv(5) [OF v] by blast
  ultimately have "bview ?t V (remove1 (b, n) H) D"
    using inv bview_inv(3,4) [OF v] unfolding bview_def by (simp add: released_simps)
  then show ?thesis unfolding r by (simp add: rest_same_released)
qed

lemma bwrite_eq:
  assumes "busy s b" "b_dev (bufs s b) = 1" "b_blockno (bufs s b) = n" "n < disksize s"
  shows "bwrite b s = Ret () ((upd_buf b (\<lambda>k. k\<lparr>b_flags := ((b_flags k OR B_DIRTY) AND NOT B_DIRTY) OR B_VALID\<rparr>) s)
      \<lparr>disk := (disk s)(unat n := b_data (bufs s b)), dwrites := dwrites s @ [(unat n, b_data (bufs s b))]\<rparr>)"
  using assms by (simp add: bwrite_def iderw_def Let_def upd_buf_def not_le)

lemma bwrite_view:
  assumes v: "bview s V H D" and b: "(b, n) \<in> set H" and n: "n < disksize s"
  shows "returns (bwrite b s) (\<lambda>_ t. bview t V H (D - {n})
      \<and> rest_same (s\<lparr>disk := (disk s)(unat n := V n), dwrites := dwrites s @ [(unat n, V n)]\<rparr>) t)"
proof -
  note h = bview_held [OF v b] and bn = bview_blockno [OF v b] and data = bview_data [OF v b] and one = bview_inv(2) [OF v]
  define fl :: "buf \<Rightarrow> buf" where "fl = (\<lambda>k. k\<lparr>b_flags := ((b_flags k OR B_DIRTY) AND NOT B_DIRTY) OR B_VALID\<rparr>)"
  define u where "u = s\<lparr>disk := (disk s)(unat n := V n), dwrites := dwrites s @ [(unat n, V n)]\<rparr>"
  define t where "t = upd_buf b fl u"
  have r: "bwrite b s = Ret () t"
    using bwrite_eq [OF h(4) _ _ n] bn data by (simp add: t_def u_def fl_def upd_buf_def)
  have f: "bit (b_flags (bufs t i)) k = (if i = b \<and> k = 2 then False else if i = b \<and> k = 1 then True else bit (b_flags (bufs s i)) k)" for i k
    by (simp add: t_def u_def fl_def upd_buf_def)
  have fields: "b_dev (bufs t i) = b_dev (bufs s i)" "b_data (bufs t i) = b_data (bufs s i)"
      "b_blockno (bufs t i) = b_blockno (bufs s i)" "bnext t = bnext s" "bprev t = bprev s"
      "disk t = (disk s)(unat n := V n)" "held t = held s" for i
    by (simp_all add: t_def u_def fl_def upd_buf_def bnext_def bprev_def fun_eq_iff)
  have bf: "buf_for t = buf_for s" by (simp add: buf_for_def fun_eq_iff fields)
  then have one': "one_buf t" using one by (simp add: one_buf_def)
  have val: "valid t i = valid s i" and bz: "busy t i = busy s i" for i using h(3) by (simp_all add: f)
  have other: "b_blockno (bufs s j) \<noteq> n" if "j < NBUF" "valid s j" "j \<noteq> b" for j
  proof
    assume "b_blockno (bufs s j) = n"
    moreover have "b_dev (bufs s j) = 1" using v that by (simp add: bview_def bcache_inv_def buf_coherent_def)
    ultimately show False using one_bufD [OF one, of 1 n j b] h that by (simp add: buf_for_def)
  qed
  have "blk t m = V m" for m
  proof (cases rule: blk_cases [OF one', of m])
    case (1 i)
    then show ?thesis using blk_cached [OF one, of i m] bview_inv(5) [OF v] by (simp add: bf val fields)
  next
    case 2
    then have "m \<noteq> n" using h by (auto simp: bf val)
    then have "unat m \<noteq> unat n" by (simp add: word_unat_eq_iff)
    with 2 show ?thesis using blk_uncached [of s m] bview_inv(5) [OF v] by (simp add: bf val fields)
  qed
  then have V: "blk t = V" by blast
  have "buf_coherent t j" if j: "j < NBUF" for j
  proof (cases "j = b")
    case False
    have "buf_coherent s j" using v j by (simp add: bview_def bcache_inv_def)
    with other [OF j] False show ?thesis by (auto simp: buf_coherent_def f fields simp flip: word_unat_eq_iff)
  qed (use h bn in \<open>simp add: buf_coherent_def f fields\<close>)
  then have inv: "bcache_inv t" using v one' by (simp add: bview_def bcache_inv_def cache_ring_def fields)
  have A: "{j. j < NBUF \<and> dirty t j} = {j. j < NBUF \<and> dirty s j} - {b}" by (auto simp: f)
  have "dirty s j \<Longrightarrow> j < NBUF \<Longrightarrow> valid s j" for j
    using v by (simp add: bview_def bcache_inv_def buf_coherent_def)
  then have "dirty_blocks t = D - {n}"
    using v bn other unfolding bview_def dirty_blocks_def A fields by auto
  then have "bview t V H (D - {n})"
    using v inv V by (simp add: bview_def bf val bz fields)
  moreover have "rest_same u t" unfolding t_def by (rule rest_same_upd)
  ultimately show ?thesis unfolding r u_def by simp
qed

section \<open>Initialisation\<close>

lemma binit_link_ring:
  assumes "ring (bnext s) (bprev s) NBUF xs" "b \<notin> set xs" "b \<noteq> NBUF"
  shows "ring (bnext (binit_link b s)) (bprev (binit_link b s)) NBUF (b # xs)"
proof -
  have "b_next (bufs u NBUF) = bnext u NBUF" for u :: "'a bio_state_scheme" by (simp add: bnext_def)
  then have "bnext (binit_link b s) = (bnext s)(b := bnext s NBUF, NBUF := b)"
      "bprev (binit_link b s) = (bprev s)(b := NBUF, bnext s NBUF := b)"
    using assms(3) by (simp_all add: binit_link_def Let_def)
  then show ?thesis using ring_push [OF assms(1,3,2)] by simp
qed

lemma binit_link_fields:
  "b_flags (bufs (binit_link b s) i) = b_flags (bufs s i)"
  "b_dev (bufs (binit_link b s) i) = (if i = b then - 1 else b_dev (bufs s i))"
  "rest_same s (binit_link b s)"
proof -
  show "rest_same s (binit_link b s)"
    unfolding binit_link_def Let_def by (intro rest_same_trans [OF _ rest_same_upd] rest_same_refl)
qed (simp_all add: binit_link_def Let_def upd_buf_def)

lemma fold_binit_link:
  assumes "ring (bnext s) (bprev s) NBUF ys" "distinct (xs @ ys)" "NBUF \<notin> set xs"
  shows "ring (bnext (fold binit_link xs s)) (bprev (fold binit_link xs s)) NBUF (rev xs @ ys)
    \<and> rest_same s (fold binit_link xs s)
    \<and> (\<forall>i. b_flags (bufs (fold binit_link xs s) i) = b_flags (bufs s i)
          \<and> b_dev (bufs (fold binit_link xs s) i) = (if i \<in> set xs then - 1 else b_dev (bufs s i)))"
  using assms
proof (induction xs arbitrary: s ys)
  case (Cons x xs)
  have "ring (bnext (binit_link x s)) (bprev (binit_link x s)) NBUF (x # ys)"
    using Cons.prems by (intro binit_link_ring) auto
  from Cons.IH [OF this] Cons.prems show ?case
    using rest_same_trans [OF binit_link_fields(3) [of s x]] by (simp add: binit_link_fields)
qed simp

text \<open>Starting from zeroed buffers, \<^verbatim>\<open>binit\<close> leaves an empty cache that shows the disk.\<close>

lemma binit_bview:
  assumes fl: "\<And>i. b_flags (bufs s i) = 0" and lk: "LkBcache \<notin> held s" "LkPtable \<notin> held s"
  shows "bview (binit s) (\<lambda>n. disk s (unat n)) [] {} \<and> rest_same s (binit s) \<and> cache_ring (binit s) (rev buf_ids)
    \<and> (\<forall>i<NBUF. b_flags (bufs (binit s) i) = 0 \<and> b_dev (bufs (binit s) i) = - 1)"
proof -
  define u where "u = upd_buf NBUF (\<lambda>k. k\<lparr>b_next := NBUF\<rparr>) (upd_buf NBUF (\<lambda>k. k\<lparr>b_prev := NBUF\<rparr>) s)"
  define t where "t = binit s"
  have t: "t = fold binit_link buf_ids u" by (simp add: t_def binit_def u_def buf_ids_def)
  have "ring (bnext u) (bprev u) NBUF []" by (simp add: u_def ring_def)
  moreover have "distinct (buf_ids @ [])" by (simp add: buf_ids_def del: upt_rec_numeral)
  ultimately have f: "ring (bnext t) (bprev t) NBUF (rev buf_ids)" "rest_same u t"
      "\<And>i. b_flags (bufs t i) = b_flags (bufs u i)" "\<And>i. i < NBUF \<Longrightarrow> b_dev (bufs t i) = - 1"
    using fold_binit_link [of u "[]" buf_ids] unfolding t by simp_all
  have fl': "b_flags (bufs t i) = 0" for i using fl by (simp add: f(3)) (simp add: u_def upd_buf_def)
  have "rest_same s u" unfolding u_def by (intro rest_same_trans [OF _ rest_same_upd] rest_same_refl)
  then have rs: "rest_same s t" using f(2) by (rule rest_same_trans)
  have ringt: "cache_ring t (rev buf_ids)" using f(1) by (simp add: cache_ring_def)
  then have "bcache_inv t" by (auto simp: bcache_inv_def one_buf_def buf_for_def f(4) buf_coherent_def fl')
  moreover have "blk t n = disk s (unat n)" for n
    using blk_uncached [of t n] rest_sameD(3) [OF rs] by (simp add: fl')
  then have "blk t = (\<lambda>n. disk s (unat n))" by blast
  ultimately have "bview t (\<lambda>n. disk s (unat n)) [] {}"
    using lk rest_sameD(1) [OF rs] by (simp add: bview_def fl' dirty_blocks_def)
  then show ?thesis using rs ringt fl' f(4) by (simp add: t_def)
qed

end
