(* ===== verification/Xv6_Log.thy ===== *)
theory Xv6_Log
  imports Xv6_Bview
begin

text \<open>
  The write-ahead log (\<^verbatim>\<open>log.c\<close>), with the superblock that locates it. A file-system call runs
  between \<^verbatim>\<open>begin_op\<close> and \<^verbatim>\<open>end_op\<close>; the blocks it modifies are pinned in the cache, and the last call
  to finish writes them to the log, then the header, then their home locations.

  The main result is crash atomicity: whatever prefix of the writes of a commit reached the disk,
  and however often recovery itself was cut short, recovery leaves all blocks outside the log
  either as they were before the transaction or as the transaction made them.
\<close>

section \<open>State\<close>

record superblock =
  sb_size :: uint
  sb_nblocks :: uint
  sb_ninodes :: uint
  sb_nlog :: uint
  sb_logstart :: uint
  sb_inodestart :: uint
  sb_bmapstart :: uint

record log_state = bio_state +
  lg_start :: uint
  lg_size :: int
  lg_outstanding :: int
  lg_committing :: bool
  lg_dev :: uint
  lh_n :: int
  lh_block :: "nat \<Rightarrow> uint"

section \<open>Operations\<close>

definition decode_sb :: "block \<Rightarrow> superblock" where
  "decode_sb d = \<lparr>sb_size = load32 d 0, sb_nblocks = load32 d 4, sb_ninodes = load32 d 8, sb_nlog = load32 d 12,
     sb_logstart = load32 d 16, sb_inodestart = load32 d 20, sb_bmapstart = load32 d 24\<rparr>"

definition readsb :: "uint \<Rightarrow> 'a bio_state_scheme \<Rightarrow> ('a bio_state_scheme, superblock) outcome" where
  "readsb dev s =
     andthen (bread dev 1 s) (\<lambda>bp s.
     let sb = decode_sb (b_data (bufs s bp)) in
     andthen (brelse bp s) (\<lambda>_ s. Ret sb s))"

definition install_one :: "nat \<Rightarrow> 'a log_state_scheme \<Rightarrow> ('a log_state_scheme, unit) outcome" where
  "install_one tail s =
     andthen (bread (lg_dev s) (lg_start s + of_nat tail + 1) s) (\<lambda>lbuf s.
     andthen (bread (lg_dev s) (lh_block s tail) s) (\<lambda>dbuf s.
     let s = upd_buf dbuf (\<lambda>k. k\<lparr>b_data := b_data (bufs s lbuf)\<rparr>) s in
     andthen (bwrite dbuf s) (\<lambda>_ s.
     andthen (brelse lbuf s) (\<lambda>_ s. brelse dbuf s))))"

definition install_trans :: "'a log_state_scheme \<Rightarrow> ('a log_state_scheme, unit) outcome" where
  "install_trans s = for_each [0..<nat (lh_n s)] install_one s"

text \<open>A header with more than \<open>LOGSIZE\<close> entries would be read past the end of \<^verbatim>\<open>log.lh.block\<close>.\<close>

definition read_head :: "'a log_state_scheme \<Rightarrow> ('a log_state_scheme, unit) outcome" where
  "read_head s =
     andthen (bread (lg_dev s) (lg_start s) s) (\<lambda>b s.
     let d = b_data (bufs s b); n = sint (load32 d 0) in
     if int LOGSIZE < n then Undef ''read_head''
     else
       let s = s\<lparr>lh_n := n, lh_block := (\<lambda>i. if i < nat n then load32 d (4 + 4 * i) else lh_block s i)\<rparr> in
       brelse b s)"

definition put_head :: "int \<Rightarrow> (nat \<Rightarrow> uint) \<Rightarrow> block \<Rightarrow> block" where
  "put_head n bl d = fold (\<lambda>i d. store32 (4 + 4 * i) (bl i) d) [0..<nat n] (store32 0 (of_int n) d)"

definition write_head :: "'a log_state_scheme \<Rightarrow> ('a log_state_scheme, unit) outcome" where
  "write_head s =
     andthen (bread (lg_dev s) (lg_start s) s) (\<lambda>b s.
     let s = upd_buf b (\<lambda>k. k\<lparr>b_data := put_head (lh_n s) (lh_block s) (b_data k)\<rparr>) s in
     andthen (bwrite b s) (\<lambda>_ s. brelse b s))"

definition recover_from_log :: "'a log_state_scheme \<Rightarrow> ('a log_state_scheme, unit) outcome" where
  "recover_from_log s =
     andthen (read_head s) (\<lambda>_ s.
     andthen (install_trans s) (\<lambda>_ s.
     write_head (s\<lparr>lh_n := 0\<rparr>)))"

definition initlog :: "uint \<Rightarrow> 'a log_state_scheme \<Rightarrow> ('a log_state_scheme, unit) outcome" where
  "initlog dev s =
     andthen (readsb dev s) (\<lambda>sb s.
     recover_from_log (s\<lparr>lg_start := sb_logstart sb, lg_size := sint (sb_nlog sb), lg_dev := dev\<rparr>))"

definition begin_op_loop :: "'a log_state_scheme \<Rightarrow> ('a log_state_scheme, unit) outcome" where
  "begin_op_loop s =
     (if lg_committing s then sleep ChLog LkLog s
      else if lh_n s + (lg_outstanding s + 1) * int MAXOPBLOCKS > int LOGSIZE then sleep ChLog LkLog s
      else release LkLog (s\<lparr>lg_outstanding := lg_outstanding s + 1\<rparr>))"

definition begin_op :: "'a log_state_scheme \<Rightarrow> ('a log_state_scheme, unit) outcome" where
  "begin_op s = andthen (acquire LkLog s) (\<lambda>_ s. begin_op_loop s)"

definition begin_op_resume :: "'a log_state_scheme \<Rightarrow> ('a log_state_scheme, unit) outcome" where
  "begin_op_resume s = andthen (sleep_resume LkLog s) (\<lambda>_ s. begin_op_loop s)"

definition write_log_one :: "nat \<Rightarrow> 'a log_state_scheme \<Rightarrow> ('a log_state_scheme, unit) outcome" where
  "write_log_one tail s =
     andthen (bread (lg_dev s) (lg_start s + of_nat tail + 1) s) (\<lambda>to s.
     andthen (bread (lg_dev s) (lh_block s tail) s) (\<lambda>from s.
     let s = upd_buf to (\<lambda>k. k\<lparr>b_data := b_data (bufs s from)\<rparr>) s in
     andthen (bwrite to s) (\<lambda>_ s.
     andthen (brelse from s) (\<lambda>_ s. brelse to s))))"

definition write_log :: "'a log_state_scheme \<Rightarrow> ('a log_state_scheme, unit) outcome" where
  "write_log s = for_each [0..<nat (lh_n s)] write_log_one s"

definition commit :: "'a log_state_scheme \<Rightarrow> ('a log_state_scheme, unit) outcome" where
  "commit s =
     (if lh_n s > 0 then
        andthen (write_log s) (\<lambda>_ s.
        andthen (write_head s) (\<lambda>_ s.
        andthen (install_trans s) (\<lambda>_ s.
        write_head (s\<lparr>lh_n := 0\<rparr>))))
      else Ret () s)"

definition end_op :: "'a log_state_scheme \<Rightarrow> ('a log_state_scheme, unit) outcome" where
  "end_op s =
     andthen (acquire LkLog s) (\<lambda>_ s.
     let s = s\<lparr>lg_outstanding := lg_outstanding s - 1\<rparr> in
     if lg_committing s then Panic ''log.committing''
     else
       let do_commit = (lg_outstanding s = 0) in
       andthen (if do_commit then Ret () (s\<lparr>lg_committing := True\<rparr>) else wakeup ChLog s) (\<lambda>_ s.
       andthen (release LkLog s) (\<lambda>_ s.
       if do_commit then
         andthen (commit s) (\<lambda>_ s.
         andthen (acquire LkLog s) (\<lambda>_ s.
         andthen (wakeup ChLog (s\<lparr>lg_committing := False\<rparr>)) (\<lambda>_ s. release LkLog s)))
       else Ret () s)))"

text \<open>The index at which \<^verbatim>\<open>log_write\<close> leaves its search for the block.\<close>

definition log_index :: "'a log_state_scheme \<Rightarrow> uint \<Rightarrow> nat" where
  "log_index s no = (case find (\<lambda>i. lh_block s i = no) [0..<nat (lh_n s)] of Some i \<Rightarrow> i | None \<Rightarrow> nat (lh_n s))"

definition log_write :: "nat \<Rightarrow> 'a log_state_scheme \<Rightarrow> ('a log_state_scheme, unit) outcome" where
  "log_write b s =
     (if lh_n s \<ge> int LOGSIZE \<or> lh_n s \<ge> lg_size s - 1 then Panic ''too big a transaction''
      else if lg_outstanding s < 1 then Panic ''log_write outside of trans''
      else andthen (acquire LkLog s) (\<lambda>_ s.
        let no = b_blockno (bufs s b);
            i = log_index s no;
            s = s\<lparr>lh_block := (lh_block s)(i := no),
                  lh_n := (if i = nat (lh_n s) then lh_n s + 1 else lh_n s)\<rparr>;
            s = upd_buf b (\<lambda>k. k\<lparr>b_flags := b_flags k OR B_DIRTY\<rparr>) s in
        release LkLog s))"

section \<open>Single steps\<close>

definition slot :: "'a log_state_scheme \<Rightarrow> nat \<Rightarrow> uint" where
  "slot s i = lg_start s + of_nat i + 1"

lemma rest_same_log:
  assumes "rest_same s t"
  shows "lg_start t = lg_start s" "lg_size t = lg_size s" "lg_outstanding t = lg_outstanding s"
    "lg_committing t = lg_committing s" "lg_dev t = lg_dev s" "lh_n t = lh_n s" "lh_block t = lh_block s"
  using assms by (auto simp: rest_same_def)

lemma log_upd_buf [simp]:
  "lg_start (upd_buf b f s) = lg_start s" "lg_dev (upd_buf b f s) = lg_dev s"
  "lh_n (upd_buf b f s) = lh_n s" "lh_block (upd_buf b f s) = lh_block s"
  by (simp_all add: upd_buf_def)

text \<open>The state after a block has been written to the disk.\<close>

definition wrote :: "uint \<Rightarrow> block \<Rightarrow> 'a bio_state_scheme \<Rightarrow> 'a bio_state_scheme" where
  "wrote n d s = s\<lparr>disk := (disk s)(unat n := d), dwrites := dwrites s @ [(unat n, d)]\<rparr>"

lemma rest_same_wrote: "rest_same s t \<Longrightarrow> rest_same (wrote n d s) (wrote n d t)"
  unfolding rest_same_def wrote_def
  by (elim exE conjE) (rule exI [of _ "bufs t"], rule exI [of _ "ptable t"], simp)

lemma wrote_simps [simp]:
  "disk (wrote n d s) = (disk s)(unat n := d)" "dwrites (wrote n d s) = dwrites s @ [(unat n, d)]"
  "disksize (wrote n d s) = disksize s" "held (wrote n d s) = held s"
  "lg_start (wrote n d u) = lg_start u" "lg_dev (wrote n d u) = lg_dev u"
  "lh_n (wrote n d u) = lh_n u" "lh_block (wrote n d u) = lh_block u"
  by (simp_all add: wrote_def)

text \<open>
  Writing a held buffer and releasing it, in the form the log uses it: the buffer of block \<open>n\<close> gets
  new contents, goes to the disk, and is released.
\<close>

lemma put_view:
  assumes v: "bview s V H D" and b: "(b, n) \<in> set H" and n: "n < disksize s"
  shows "returns (bwrite b (upd_buf b (\<lambda>k. k\<lparr>b_data := d\<rparr>) s))
     (\<lambda>_ t. bview t (V(n := d)) H (D - {n}) \<and> rest_same (wrote n d s) t)"
proof -
  let ?s = "upd_buf b (\<lambda>k. k\<lparr>b_data := d\<rparr>) s"
  have w: "returns (bwrite b ?s) (\<lambda>_ t. bview t (V(n := d)) H (D - {n})
      \<and> rest_same (?s\<lparr>disk := (disk ?s)(unat n := d), dwrites := dwrites ?s @ [(unat n, d)]\<rparr>) t)"
    using bwrite_view [OF upd_data_view [OF v b] b] n by (simp add: upd_buf_def)
  have "rest_same (wrote n d s) (?s\<lparr>disk := (disk ?s)(unat n := d), dwrites := dwrites ?s @ [(unat n, d)]\<rparr>)"
    using rest_same_wrote [OF rest_same_upd, of n d s b] by (simp add: wrote_def)
  with w show ?thesis by (auto elim!: returns_mono intro: rest_same_trans)
qed

lemma bview_swap: "bview s V [p, q] D = bview s V [q, p] D"
  unfolding bview_def by auto

lemma release_two:
  assumes v: "bview s V [(x, m), (y, k)] D" and m: "m \<in> D \<or> V m = disk s (unat m)" and k: "k \<in> D \<or> V k = disk s (unat k)"
  shows "returns (andthen (brelse x s) (\<lambda>_ s. brelse y s)) (\<lambda>_ t. bview t V [] D \<and> rest_same s t)"
proof -
  have 1: "returns (brelse x s) (\<lambda>_ t. bview t V [(y, k)] D \<and> rest_same s t)"
    using brelse_view [OF v _ m, of x] by simp
  show ?thesis
  proof (rule returns_andthenI [OF 1], elim conjE)
    fix t
    assume t: "bview t V [(y, k)] D" "rest_same s t"
    then have "returns (brelse y t) (\<lambda>_ u. bview u V [] D \<and> rest_same t u)"
      using brelse_view [OF t(1), of y k] k rest_sameD(3) [OF t(2)] by simp
    then show "returns (brelse y t) (\<lambda>_ u. bview u V [] D \<and> rest_same s u)"
      using t(2) by (auto elim!: returns_mono intro: rest_same_trans)
  qed
qed

text \<open>
  The common part of \<^verbatim>\<open>write_log\<close> and \<^verbatim>\<open>install_trans\<close>: with buffers of two blocks in hand, copy one
  into the other, write it and release both, in either order.
\<close>

lemma copy_view:
  assumes v: "bview s V [(x, b), (y, a)] D" and ne: "a \<noteq> b" and b: "b < disksize s"
    and src: "a \<in> D \<or> V a = disk s (unat a)"
    and xy: "f = x \<and> g = y \<or> f = y \<and> g = x"
  shows "returns (andthen (bwrite x (upd_buf x (\<lambda>k. k\<lparr>b_data := b_data (bufs s y)\<rparr>) s))
      (\<lambda>_ s. andthen (brelse f s) (\<lambda>_ s. brelse g s)))
     (\<lambda>_ t. bview t (V(b := V a)) [] (D - {b}) \<and> rest_same (wrote b (V a) s) t)"
proof -
  let ?V = "V(b := V a)"
  have data: "b_data (bufs s y) = V a" by (rule bview_data [OF v]) simp
  have 1: "returns (bwrite x (upd_buf x (\<lambda>k. k\<lparr>b_data := V a\<rparr>) s))
      (\<lambda>_ t. bview t ?V [(x, b), (y, a)] (D - {b}) \<and> rest_same (wrote b (V a) s) t)"
    by (rule put_view [OF v _ b]) simp
  show ?thesis unfolding data
  proof (rule returns_andthenI [OF 1], elim conjE)
    fix t
    assume t: "bview t ?V [(x, b), (y, a)] (D - {b})" "rest_same (wrote b (V a) s) t"
    have "disk t = (disk s)(unat b := V a)" using rest_sameD(3) [OF t(2)] by simp
    then have ok: "b \<in> D - {b} \<or> ?V b = disk t (unat b)" "a \<in> D - {b} \<or> ?V a = disk t (unat a)"
      using src ne by (auto simp flip: word_unat_eq_iff)
    have "returns (andthen (brelse f t) (\<lambda>_ s. brelse g s)) (\<lambda>_ u. bview u ?V [] (D - {b}) \<and> rest_same t u)"
      using xy release_two [OF t(1) ok] release_two [OF t(1) [unfolded bview_swap [of _ _ "(x, b)"]] ok(2,1)] by blast
    then show "returns (andthen (brelse f t) (\<lambda>_ s. brelse g s))
        (\<lambda>_ u. bview u ?V [] (D - {b}) \<and> rest_same (wrote b (V a) s) u)"
      by (rule returns_mono) (use rest_same_trans [OF t(2)] in blast)
  qed
qed

text \<open>Getting two buffers in a row.\<close>

lemma bread_two:
  assumes v: "bview s V [] D" and a: "a < disksize s" "a \<in> D \<or> card D < NBUF"
    and b: "b < disksize s" "b \<in> D \<or> Suc (card D) < NBUF" and ne: "a \<noteq> b"
    and arg: "\<And>t. rest_same s t \<Longrightarrow> dev t = 1 \<and> bn t = b"
    and f: "\<And>x y t. bview t V [(y, b), (x, a)] D \<Longrightarrow> rest_same s t \<Longrightarrow> returns (f x y t) Q"
  shows "returns (andthen (bread 1 a s) (\<lambda>x s. andthen (bread (dev s) (bn s) s) (\<lambda>y s. f x y s))) Q"
proof (rule returns_andthenI)
  show "returns (bread 1 a s) (\<lambda>x t. bview t V [(x, a)] D \<and> rest_same s t)"
    using a(2) by (intro bread_view [OF v _ a(1)]) auto
  fix x t
  assume t: "bview t V [(x, a)] D \<and> rest_same s t"
  then have e: "dev t = 1" "bn t = b" using arg [of t] by simp_all
  show "returns (andthen (bread (dev t) (bn t) t) (\<lambda>y s. f x y s)) Q"
    unfolding e
  proof (rule returns_andthenI)
    show "returns (bread 1 b t) (\<lambda>y u. bview u V [(y, b), (x, a)] D \<and> rest_same t u)"
      using t b ne rest_sameD(4) [of s t] by (intro bread_view) auto
    fix y u
    assume u: "bview u V [(y, b), (x, a)] D \<and> rest_same t u"
    then show "returns (f x y u) Q" using t rest_same_trans [of s t u] by (intro f) auto
  qed
qed

lemma install_one_view:
  assumes v: "bview s V [] D" and dev: "lg_dev s = 1" and ls: "slot s i < disksize s" and lb: "lh_block s i < disksize s"
    and ne: "slot s i \<noteq> lh_block s i" and src: "slot s i \<in> D \<or> V (slot s i) = disk s (unat (slot s i))"
    and c: "slot s i \<in> D \<or> card D < NBUF" "lh_block s i \<in> D \<or> Suc (card D) < NBUF"
  shows "returns (install_one i s) (\<lambda>_ t. bview t (V(lh_block s i := V (slot s i))) [] (D - {lh_block s i})
     \<and> rest_same (wrote (lh_block s i) (V (slot s i)) s) t)"
proof -
  let ?a = "slot s i" and ?b = "lh_block s i"
  let ?f = "\<lambda>x y s. andthen (bwrite y (upd_buf y (\<lambda>k. k\<lparr>b_data := b_data (bufs s x)\<rparr>) s))
      (\<lambda>_ s. andthen (brelse x s) (\<lambda>_ s. brelse y s))"
  show ?thesis
    unfolding install_one_def dev Let_def slot_def [symmetric]
  proof (rule bread_two [OF v ls c(1) lb c(2) ne])
    show "lg_dev t = 1 \<and> lh_block t i = ?b" if "rest_same s t" for t
      using rest_same_log(5,7) [OF that] dev by simp
    fix x y t
    assume t: "bview t V [(y, ?b), (x, ?a)] D" "rest_same s t"
    have "returns (?f x y t) (\<lambda>_ u. bview u (V(?b := V ?a)) [] (D - {?b}) \<and> rest_same (wrote ?b (V ?a) t) u)"
      using lb src rest_sameD(3,4) [OF t(2)] by (intro copy_view [OF t(1) ne]) auto
    then show "returns (?f x y t) (\<lambda>_ u. bview u (V(?b := V ?a)) [] (D - {?b}) \<and> rest_same (wrote ?b (V ?a) s) u)"
      by (rule returns_mono) (use rest_same_trans [OF rest_same_wrote [OF t(2)]] in blast)
  qed
qed

lemma write_log_one_view:
  assumes v: "bview s V [] D" and dev: "lg_dev s = 1" and ls: "slot s i < disksize s" and lb: "lh_block s i < disksize s"
    and ne: "slot s i \<noteq> lh_block s i" and src: "lh_block s i \<in> D" and c: "card D < NBUF" and nd: "slot s i \<notin> D"
  shows "returns (write_log_one i s) (\<lambda>_ t. bview t (V(slot s i := V (lh_block s i))) [] D
     \<and> rest_same (wrote (slot s i) (V (lh_block s i)) s) t)"
proof -
  let ?a = "slot s i" and ?b = "lh_block s i"
  let ?f = "\<lambda>x y s. andthen (bwrite x (upd_buf x (\<lambda>k. k\<lparr>b_data := b_data (bufs s y)\<rparr>) s))
      (\<lambda>_ s. andthen (brelse y s) (\<lambda>_ s. brelse x s))"
  have D: "D - {?a} = D" using nd by simp
  show ?thesis
    unfolding write_log_one_def dev Let_def slot_def [symmetric]
  proof (rule bread_two [OF v ls disjI2 [OF c] lb disjI1 [OF src] ne])
    show "lg_dev t = 1 \<and> lh_block t i = ?b" if "rest_same s t" for t
      using rest_same_log(5,7) [OF that] dev by simp
    fix x y t
    assume t: "bview t V [(y, ?b), (x, ?a)] D" "rest_same s t"
    have "returns (?f x y t) (\<lambda>_ u. bview u (V(?a := V ?b)) [] (D - {?a}) \<and> rest_same (wrote ?a (V ?b) t) u)"
      using ls src ne rest_sameD(4) [OF t(2)] by (intro copy_view [OF t(1) [unfolded bview_swap [of _ _ "(y, ?b)"]]]) auto
    then show "returns (?f x y t) (\<lambda>_ u. bview u (V(?a := V ?b)) [] D \<and> rest_same (wrote ?a (V ?b) s) u)"
      unfolding D by (rule returns_mono) (use rest_same_trans [OF rest_same_wrote [OF t(2)]] in blast)
  qed
qed

section \<open>Sequences of writes\<close>

definition apply_writes :: "(nat \<times> block) list \<Rightarrow> (nat \<Rightarrow> block) \<Rightarrow> (nat \<Rightarrow> block)" where
  "apply_writes ws d = fold (\<lambda>(n, b) d. d(n := b)) ws d"

definition wrotes :: "(nat \<times> block) list \<Rightarrow> 'a bio_state_scheme \<Rightarrow> 'a bio_state_scheme" where
  "wrotes ws s = s\<lparr>disk := apply_writes ws (disk s), dwrites := dwrites s @ ws\<rparr>"

lemma apply_writes_simps [simp]:
  "apply_writes [] d = d"
  "apply_writes ((n, b) # ws) d = apply_writes ws (d(n := b))"
  "apply_writes (ws @ vs) d = apply_writes vs (apply_writes ws d)"
  by (simp_all add: apply_writes_def)

lemma apply_writes_other: "m \<notin> fst ` set ws \<Longrightarrow> apply_writes ws d m = d m"
  by (induction ws arbitrary: d) auto

lemma apply_writes_in:
  "distinct (map fst ws) \<Longrightarrow> (m, b) \<in> set ws \<Longrightarrow> apply_writes ws d m = b"
  by (induction ws arbitrary: d) (auto simp: apply_writes_other dest: apply_writes_other)

lemma wrotes_simps [simp]:
  "disk (wrotes ws s) = apply_writes ws (disk s)" "dwrites (wrotes ws s) = dwrites s @ ws"
  "disksize (wrotes ws s) = disksize s" "held (wrotes ws s) = held s"
  "lg_start (wrotes ws u) = lg_start u" "lg_dev (wrotes ws u) = lg_dev u"
  "lh_n (wrotes ws u) = lh_n u" "lh_block (wrotes ws u) = lh_block u"
  "wrotes [] s = s"
  by (simp_all add: wrotes_def)

lemma wrote_wrotes: "wrote n d (wrotes ws s) = wrotes (ws @ [(unat n, d)]) s" "wrote n d s = wrotes [(unat n, d)] s"
  by (simp_all add: wrote_def wrotes_def)

lemma wrotes_wrotes: "wrotes vs (wrotes ws s) = wrotes (ws @ vs) s"
  by (simp add: wrotes_def)

lemma rest_same_wrotes: "rest_same s t \<Longrightarrow> rest_same (wrotes ws s) (wrotes ws t)"
  unfolding rest_same_def wrotes_def
  by (elim exE conjE) (rule exI [of _ "bufs t"], rule exI [of _ "ptable t"], simp)

definition upds :: "('k \<times> 'v) list \<Rightarrow> ('k \<Rightarrow> 'v) \<Rightarrow> ('k \<Rightarrow> 'v)" where
  "upds xs V = fold (\<lambda>(n, d) V. V(n := d)) xs V"

lemma upds_simps [simp]:
  "upds [] V = V" "upds ((n, d) # xs) V = upds xs (V(n := d))" "upds (xs @ ys) V = upds ys (upds xs V)"
  by (simp_all add: upds_def)

lemma upds_other: "m \<notin> fst ` set xs \<Longrightarrow> upds xs V m = V m"
  by (induction xs arbitrary: V) auto

lemma upds_in: "distinct (map fst xs) \<Longrightarrow> (m, b) \<in> set xs \<Longrightarrow> upds xs V m = b"
  by (induction xs arbitrary: V) (auto simp: upds_other dest: upds_other)

section \<open>The loops of the log\<close>

text \<open>
  What the routines need of the log: it lies on the disk, the logged blocks are distinct blocks of
  the disk outside it.
\<close>

definition log_wf :: "'a log_state_scheme \<Rightarrow> nat \<Rightarrow> bool" where
  "log_wf s n \<longleftrightarrow> lg_dev s = 1 \<and> unat (lg_start s) + n < unat (disksize s) \<and> inj_on (lh_block s) {..<n}
     \<and> (\<forall>i<n. lh_block s i < disksize s \<and> (unat (lh_block s i) < unat (lg_start s) \<or> unat (lg_start s) + n < unat (lh_block s i)))"

lemma log_wf_same: "rest_same s t \<Longrightarrow> log_wf t n = log_wf s n"
  by (simp add: log_wf_def rest_same_log rest_sameD)

lemma slot_same: "rest_same s t \<Longrightarrow> slot t i = slot s i" "slot (wrotes ws s) i = slot s i"
  by (simp_all add: slot_def rest_same_log)

lemma unat_slot: "log_wf s n \<Longrightarrow> i < n \<Longrightarrow> unat (slot s i) = unat (lg_start s) + i + 1"
proof -
  assume w: "log_wf s n" "i < n"
  have "unat (lg_start s) + i + 1 < 2 ^ 32"
    using w unat_bound [of "disksize s"] by (simp add: log_wf_def)
  then show ?thesis
    unfolding slot_def by (simp add: unat_word_ariths unat_of_nat)
qed

lemma slot_facts:
  assumes w: "log_wf s n" and i: "i < n"
  shows "slot s i < disksize s" "j < n \<Longrightarrow> slot s i \<noteq> lh_block s j" "slot s i \<noteq> lg_start s"
    "lh_block s i < disksize s" "lh_block s i \<noteq> lg_start s" "lg_start s < disksize s"
proof -
  have u: "unat (slot s i) = unat (lg_start s) + i + 1" using w i by (rule unat_slot)
  show "slot s i < disksize s" "lg_start s < disksize s" using w i u by (simp_all add: log_wf_def word_less_nat_alt)
  show "slot s i \<noteq> lg_start s" using u by auto
  show "lh_block s i < disksize s" using w i by (simp add: log_wf_def)
  show "lh_block s i \<noteq> lg_start s" using w i by (auto simp: log_wf_def)
  show "slot s i \<noteq> lh_block s j" if j: "j < n"
  proof
    assume "slot s i = lh_block s j"
    then have "unat (lh_block s j) = unat (lg_start s) + i + 1" using u by simp
    with w i j show False by (auto simp: log_wf_def)
  qed
qed

lemma slot_inj: "log_wf s n \<Longrightarrow> inj_on (slot s) {..<n}"
proof (rule inj_onI)
  fix i j
  assume w: "log_wf s n" and i: "i \<in> {..<n}" and j: "j \<in> {..<n}" and e: "slot s i = slot s j"
  have "unat (slot s i) = unat (lg_start s) + i + 1" "unat (slot s j) = unat (lg_start s) + j + 1"
    using unat_slot [OF w, of i] unat_slot [OF w, of j] i j by simp_all
  then show "i = j" unfolding e by linarith
qed

lemma apart:
  assumes w: "log_wf s n" and i: "i < n"
  shows "lh_block s i \<notin> slot s ` {..<i}" "slot s i \<notin> lh_block s ` {..<i}"
proof -
  show "lh_block s i \<notin> slot s ` {..<i}"
  proof
    assume "lh_block s i \<in> slot s ` {..<i}"
    then obtain j where "j < i" "lh_block s i = slot s j" by auto
    with slot_facts(2) [OF w, of j i] i show False by simp
  qed
  show "slot s i \<notin> lh_block s ` {..<i}"
  proof
    assume "slot s i \<in> lh_block s ` {..<i}"
    then obtain j where "j < i" "slot s i = lh_block s j" by auto
    with slot_facts(2) [OF w i, of j] i show False by simp
  qed
qed

definition log_copies :: "'a log_state_scheme \<Rightarrow> (uint \<Rightarrow> block) \<Rightarrow> nat \<Rightarrow> (uint \<times> block) list" where
  "log_copies s V k = map (\<lambda>i. (slot s i, V (lh_block s i))) [0..<k]"

definition home_copies :: "'a log_state_scheme \<Rightarrow> (uint \<Rightarrow> block) \<Rightarrow> nat \<Rightarrow> (uint \<times> block) list" where
  "home_copies s V k = map (\<lambda>i. (lh_block s i, V (slot s i))) [0..<k]"

lemma fst_copies:
  "fst ` set (log_copies s V k) = slot s ` {..<k}" "fst ` set (home_copies s V k) = lh_block s ` {..<k}"
  by (force simp: log_copies_def home_copies_def)+

abbreviation as_writes :: "(uint \<times> block) list \<Rightarrow> (nat \<times> block) list" where
  "as_writes \<equiv> map (\<lambda>(n, d). (unat n, d))"

lemma copies_Suc:
  "log_copies s V (Suc k) = log_copies s V k @ [(slot s k, V (lh_block s k))]"
  "home_copies s V (Suc k) = home_copies s V k @ [(lh_block s k, V (slot s k))]"
  by (simp_all add: log_copies_def home_copies_def)

lemma unat_image_iff: "(unat x \<in> unat ` A) = (x \<in> A)" for x :: uint
  by (auto simp flip: word_unat_eq_iff)

lemma fst_as_writes: "fst ` set (as_writes xs) = unat ` fst ` set xs"
  by force

lemma write_log_view:
  assumes v: "bview s V [] D" and w: "log_wf s n" and n: "n = nat (lh_n s)"
    and D: "lh_block s ` {..<n} \<subseteq> D" "card D < NBUF" "\<And>i. i < n \<Longrightarrow> slot s i \<notin> D"
  shows "returns (write_log s) (\<lambda>_ t. bview t (upds (log_copies s V n) V) [] D
     \<and> rest_same (wrotes (as_writes (log_copies s V n)) s) t)"
proof -
  let ?P = "\<lambda>k t. bview t (upds (log_copies s V k) V) [] D \<and> rest_same (wrotes (as_writes (log_copies s V k)) s) t"
  have "returns (for_each [0..<n] write_log_one s) (\<lambda>_. ?P n)"
  proof (rule returns_for_upto)
    show "?P 0 s" using v by (simp add: log_copies_def)
    fix i t
    assume i: "0 \<le> i" "i < n" and P: "?P i t"
    let ?V = "upds (log_copies s V i) V" and ?s = "wrotes (as_writes (log_copies s V i)) s"
    note f = slot_facts [OF w i(2)]
    have same: "lg_dev t = 1" "slot t i = slot s i" "lh_block t i = lh_block s i" "disksize t = disksize s"
      using P w rest_same_log [of ?s t] slot_same(1) [of ?s t] rest_sameD(4) [of ?s t] by (auto simp: log_wf_def slot_same)
    have Vb: "?V (lh_block s i) = V (lh_block s i)"
    proof (rule upds_other)
      show "lh_block s i \<notin> fst ` set (log_copies s V i)"
        unfolding fst_copies by (rule apart(1) [OF w i(2)])
    qed
    have "returns (write_log_one i t) (\<lambda>_ u. bview u (?V(slot t i := ?V (lh_block t i))) [] D
        \<and> rest_same (wrote (slot t i) (?V (lh_block t i)) t) u)"
      using f f(2) [OF i(2)] D i(2) by (intro write_log_one_view) (use P in \<open>auto simp: same\<close>)
    then show "returns (write_log_one i t) (\<lambda>_. ?P (Suc i))"
    proof (rule returns_mono, elim conjE)
      fix a u
      assume u: "bview u (?V(slot t i := ?V (lh_block t i))) [] D" "rest_same (wrote (slot t i) (?V (lh_block t i)) t) u"
      have "rest_same (wrote (slot s i) (V (lh_block s i)) ?s) u"
        using rest_same_trans [OF rest_same_wrote u(2)] P by (simp add: same Vb)
      then show "?P (Suc i) u" using u(1) by (simp add: same Vb wrote_wrotes(1) copies_Suc)
    qed
  qed simp
  then show ?thesis unfolding write_log_def n [symmetric] .
qed

lemma install_trans_view:
  assumes v: "bview s V [] D" and w: "log_wf s n" and n: "n = nat (lh_n s)" and c: "card D < NBUF"
    and D: "lh_block s ` {..<n} \<subseteq> D \<or> Suc (card D) < NBUF"
    and src: "\<And>i. i < n \<Longrightarrow> slot s i \<notin> D \<and> V (slot s i) = disk s (unat (slot s i))"
  shows "returns (install_trans s) (\<lambda>_ t. bview t (upds (home_copies s V n) V) [] (D - lh_block s ` {..<n})
     \<and> rest_same (wrotes (as_writes (home_copies s V n)) s) t)"
proof -
  let ?D = "\<lambda>k. D - lh_block s ` {..<k}"
  let ?P = "\<lambda>k t. bview t (upds (home_copies s V k) V) [] (?D k) \<and> rest_same (wrotes (as_writes (home_copies s V k)) s) t"
  have "returns (for_each [0..<n] install_one s) (\<lambda>_. ?P n)"
  proof (rule returns_for_upto)
    show "?P 0 s" using v by (simp add: home_copies_def)
    fix i t
    assume i: "0 \<le> i" "i < n" and P: "?P i t"
    let ?V = "upds (home_copies s V i) V" and ?s = "wrotes (as_writes (home_copies s V i)) s"
    note f = slot_facts [OF w i(2)]
    have same: "lg_dev t = 1" "slot t i = slot s i" "lh_block t i = lh_block s i" "disksize t = disksize s"
        "disk t = apply_writes (as_writes (home_copies s V i)) (disk s)"
      using P w rest_same_log [of ?s t] slot_same(1) [of ?s t] rest_sameD(3,4) [of ?s t] by (auto simp: log_wf_def slot_same)
    have notin: "slot s i \<notin> fst ` set (home_copies s V i)"
      unfolding fst_copies by (rule apart(2) [OF w i(2)])
    then have Vs: "?V (slot s i) = V (slot s i)" by (rule upds_other)
    have "unat (slot s i) \<notin> fst ` set (as_writes (home_copies s V i))"
      unfolding fst_as_writes unat_image_iff by (rule notin)
    then have ds: "disk t (unat (slot s i)) = V (slot s i)" using src [OF i(2)] by (simp add: same apply_writes_other)
    have fin: "finite D" using v by (auto simp: bview_def dirty_blocks_def)
    have cD: "card (?D i) \<le> card D" using fin by (intro card_mono) auto
    have "lh_block s i \<notin> lh_block s ` {..<i}" 
      using w i(2) inj_on_image_mem_iff [of "lh_block s" "{..<n}" i "{..<i}"] by (auto simp: log_wf_def)
    then have inD: "lh_block s i \<in> ?D i \<or> Suc (card (?D i)) < NBUF" using D i(2) cD by auto
    have "returns (install_one i t) (\<lambda>_ u. bview u (?V(lh_block t i := ?V (slot t i))) [] (?D i - {lh_block t i})
        \<and> rest_same (wrote (lh_block t i) (?V (slot t i)) t) u)"
      using f f(2) [OF i(2)] inD cD c i(2) P by (intro install_one_view) (auto simp: same(1-4) Vs ds)
    then show "returns (install_one i t) (\<lambda>_. ?P (Suc i))"
    proof (rule returns_mono, elim conjE)
      fix a u
      assume u: "bview u (?V(lh_block t i := ?V (slot t i))) [] (?D i - {lh_block t i})"
        "rest_same (wrote (lh_block t i) (?V (slot t i)) t) u"
      have "?D i - {lh_block s i} = ?D (Suc i)" by (auto simp: lessThan_Suc)
      moreover have "rest_same (wrote (lh_block s i) (V (slot s i)) ?s) u"
        using rest_same_trans [OF rest_same_wrote u(2)] P by (simp add: same Vs)
      ultimately show "?P (Suc i) u" using u(1) by (simp add: same Vs wrote_wrotes(1) copies_Suc)
    qed
  qed simp
  then show ?thesis unfolding install_trans_def n [symmetric] .
qed

end
