(* ===== verification/Xv6_Crash.thy ===== *)
theory Xv6_Crash
  imports Xv6_Log
begin

text \<open>
  Commit and recovery of the log as sequences of disk writes, and crash atomicity: a crash leaves
  the disk after some prefix of these writes, and recovery restores one side of the transaction.
\<close>

section \<open>The header block\<close>

lemma put_head_fold:
  "load32 (fold (\<lambda>i d. store32 (4 + 4 * i) (bl i) d) [0..<k] d) 0 = load32 d 0
   \<and> (\<forall>i<k. load32 (fold (\<lambda>i d. store32 (4 + 4 * i) (bl i) d) [0..<k] d) (4 + 4 * i) = bl i)"
proof (induction k)
  case (Suc k)
  then show ?case by (auto simp: less_Suc_eq)
qed simp

lemma put_head_n: "load32 (put_head n bl d) 0 = of_int n"
  unfolding put_head_def using put_head_fold [of bl "nat n"] by simp

lemma put_head_block: "i < nat n \<Longrightarrow> load32 (put_head n bl d) (4 + 4 * i) = bl i"
  unfolding put_head_def using put_head_fold [of bl "nat n"] by simp

lemma sint_of_int_small: "0 \<le> n \<Longrightarrow> n < 2 ^ 31 \<Longrightarrow> sint (of_int n :: uint) = n"
  by (simp add: sint_sbintrunc' signed_take_bit_int_eq_self)

lemma write_head_view:
  assumes v: "bview s V [] D" and dev: "lg_dev s = 1" and st: "lg_start s < disksize s" "lg_start s \<notin> D" and c: "card D < NBUF"
  defines "h \<equiv> put_head (lh_n s) (lh_block s) (V (lg_start s))"
  shows "returns (write_head s) (\<lambda>_ t. bview t (V(lg_start s := h)) [] D \<and> rest_same (wrote (lg_start s) h s) t)"
proof -
  let ?n = "lg_start s"
  have 1: "returns (bread 1 ?n s) (\<lambda>b t. bview t V [(b, ?n)] D \<and> rest_same s t)"
    using c by (intro bread_view [OF v _ st(1)]) auto
  show ?thesis
    unfolding write_head_def dev
  proof (rule returns_andthenI [OF 1], elim conjE)
    fix b t
    assume t: "bview t V [(b, ?n)] D" "rest_same s t"
    have data: "b_data (bufs t b) = V ?n" by (rule bview_data [OF t(1)]) simp
    have e: "upd_buf b (\<lambda>k. k\<lparr>b_data := put_head (lh_n t) (lh_block t) (b_data k)\<rparr>) t
        = upd_buf b (\<lambda>k. k\<lparr>b_data := h\<rparr>) t"
      by (simp add: upd_buf_def data h_def rest_same_log [OF t(2)])
    have 2: "returns (bwrite b (upd_buf b (\<lambda>k. k\<lparr>b_data := h\<rparr>) t))
        (\<lambda>_ u. bview u (V(?n := h)) [(b, ?n)] (D - {?n}) \<and> rest_same (wrote ?n h t) u)"
      using st(1) rest_sameD(4) [OF t(2)] by (intro put_view [OF t(1)]) auto
    show "returns (let s = upd_buf b (\<lambda>k. k\<lparr>b_data := put_head (lh_n t) (lh_block t) (b_data k)\<rparr>) t
          in andthen (bwrite b s) (\<lambda>_ s. brelse b s))
        (\<lambda>_ t. bview t (V(?n := h)) [] D \<and> rest_same (wrote ?n h s) t)"
      unfolding Let_def e
    proof (rule returns_andthenI [OF 2], elim conjE)
      fix u
      assume u: "bview u (V(?n := h)) [(b, ?n)] (D - {?n})" "rest_same (wrote ?n h t) u"
      have "disk u (unat ?n) = h" using rest_sameD(3) [OF u(2)] by simp
      then have "returns (brelse b u) (\<lambda>_ w. bview w (V(?n := h)) [] D \<and> rest_same u w)"
        using brelse_view [OF u(1), of b ?n] st(2) by simp
      then show "returns (brelse b u) (\<lambda>_ w. bview w (V(?n := h)) [] D \<and> rest_same (wrote ?n h s) w)"
        by (rule returns_mono)
          (use rest_same_trans [OF rest_same_trans [OF rest_same_wrote [OF t(2)] u(2)]] in blast)
    qed
  qed
qed

lemma read_head_view:
  assumes v: "bview s V [] D" and dev: "lg_dev s = 1" and st: "lg_start s < disksize s" and c: "card D < NBUF"
    and ok: "lg_start s \<in> D \<or> V (lg_start s) = disk s (unat (lg_start s))"
  defines "n \<equiv> sint (load32 (V (lg_start s)) 0)"
  assumes n: "n \<le> int LOGSIZE"
  defines "bl \<equiv> \<lambda>i. if i < nat n then load32 (V (lg_start s)) (4 + 4 * i) else lh_block s i"
  shows "returns (read_head s) (\<lambda>_ t. bview t V [] D \<and> rest_same (s\<lparr>lh_n := n, lh_block := bl\<rparr>) t)"
proof -
  let ?n = "lg_start s"
  have 1: "returns (bread 1 ?n s) (\<lambda>b t. bview t V [(b, ?n)] D \<and> rest_same s t)"
    using c by (intro bread_view [OF v _ st(1)]) auto
  show ?thesis
    unfolding read_head_def dev
  proof (rule returns_andthenI [OF 1], elim conjE)
    fix b t
    assume t: "bview t V [(b, ?n)] D" "rest_same s t"
    let ?t = "t\<lparr>lh_n := n, lh_block := bl\<rparr>"
    have data: "b_data (bufs t b) = V ?n" by (rule bview_data [OF t(1)]) simp
    have e: "(\<lambda>i. if i < nat n then load32 (V ?n) (4 + 4 * i) else lh_block t i) = bl"
      by (simp add: bl_def rest_same_log [OF t(2)] cong: if_cong)
    have rs: "rest_same (s\<lparr>lh_n := n, lh_block := bl\<rparr>) ?t"
      using t(2) unfolding rest_same_def
      by (elim exE conjE) (rule exI [of _ "bufs t"], rule exI [of _ "ptable t"], simp)
    have "bview ?t V [(b, ?n)] D" using t(1) by (subst bview_cong [of ?t t]) simp_all
    then have "returns (brelse b ?t) (\<lambda>_ u. bview u V [] D \<and> rest_same ?t u)"
      using brelse_view [of ?t V "[(b, ?n)]" D b ?n] ok rest_sameD(3) [OF t(2)] by simp
    then have "returns (brelse b ?t) (\<lambda>_ u. bview u V [] D \<and> rest_same (s\<lparr>lh_n := n, lh_block := bl\<rparr>) u)"
      by (rule returns_mono) (use rest_same_trans [OF rs] in blast)
    then show "returns (let d = b_data (bufs t b); n = sint (load32 d 0) in
         if int LOGSIZE < n then Undef ''read_head''
         else let s = t\<lparr>lh_n := n, lh_block := \<lambda>i. if i < nat n then load32 d (4 + 4 * i) else lh_block t i\<rparr>
              in brelse b s)
       (\<lambda>_ t. bview t V [] D \<and> rest_same (s\<lparr>lh_n := n, lh_block := bl\<rparr>) t)"
      using n unfolding Let_def data n_def [symmetric] e by simp
  qed
qed

section \<open>Commit and recovery as writes\<close>

lemma bview_clean: "bview s V [] D \<Longrightarrow> m \<notin> D \<Longrightarrow> V m = disk s (unat m)"
proof -
  assume v: "bview s V [] D" and m: "m \<notin> D"
  show ?thesis
  proof (cases rule: blk_cases [OF bview_inv(2) [OF v], of m])
    case (1 i)
    then have "\<not> dirty s i" using v m by (auto simp: bview_def dirty_blocks_def buf_for_def)
    moreover have "buf_coherent s i" "\<not> busy s i" using v 1 by (simp_all add: bview_def bcache_inv_def)
    ultimately show ?thesis using 1 bview_inv(5) [OF v] by (simp add: buf_coherent_def buf_for_def)
  next
    case 2
    then show ?thesis using bview_inv(5) [OF v] by simp
  qed
qed

definition commit_writes :: "'a log_state_scheme \<Rightarrow> (uint \<Rightarrow> block) \<Rightarrow> (nat \<times> block) list" where
  "commit_writes s V =
     (let n = nat (lh_n s); h = put_head (lh_n s) (lh_block s) (V (lg_start s)) in
      map (\<lambda>i. (unat (slot s i), V (lh_block s i))) [0..<n] @ [(unat (lg_start s), h)]
      @ map (\<lambda>i. (unat (lh_block s i), V (lh_block s i))) [0..<n] @ [(unat (lg_start s), put_head 0 (lh_block s) h)])"

lemma log_wf_upd: "log_wf (s\<lparr>lh_n := a\<rparr>) n = log_wf s n" "slot (s\<lparr>lh_n := a\<rparr>) i = slot s i"
  by (simp_all add: log_wf_def slot_def)

lemma upds_same: "(\<And>n d. (n, d) \<in> set xs \<Longrightarrow> V n = d) \<Longrightarrow> upds xs V = V"
  by (induction xs) (auto simp: fun_upd_idem)

lemma rest_same_lh_n: "rest_same s t \<Longrightarrow> rest_same (s\<lparr>lh_n := a\<rparr>) (t\<lparr>lh_n := a\<rparr>)"
  unfolding rest_same_def
  by (elim exE conjE) (rule exI [of _ "bufs t"], rule exI [of _ "ptable t"], simp)

lemma wrotes_lh_n: "(wrotes ws s)\<lparr>lh_n := a\<rparr> = wrotes ws (s\<lparr>lh_n := a\<rparr>)"
  by (simp add: wrotes_def)

text \<open>The view after the log and its header have been written, and the writes made so far.\<close>

definition logged_view :: "'a log_state_scheme \<Rightarrow> (uint \<Rightarrow> block) \<Rightarrow> (uint \<Rightarrow> block)" where
  "logged_view s V = (upds (log_copies s V (nat (lh_n s))) V)
     (lg_start s := put_head (lh_n s) (lh_block s) (V (lg_start s)))"

definition logged_writes :: "'a log_state_scheme \<Rightarrow> (uint \<Rightarrow> block) \<Rightarrow> (nat \<times> block) list" where
  "logged_writes s V = as_writes (log_copies s V (nat (lh_n s)))
     @ [(unat (lg_start s), put_head (lh_n s) (lh_block s) (V (lg_start s)))]"

definition home_writes :: "'a log_state_scheme \<Rightarrow> (uint \<Rightarrow> block) \<Rightarrow> (nat \<times> block) list" where
  "home_writes s V = map (\<lambda>i. (unat (lh_block s i), V (lh_block s i))) [0..<nat (lh_n s)]"

definition committing :: "'a log_state_scheme \<Rightarrow> (uint \<Rightarrow> block) \<Rightarrow> bool" where
  "committing s V \<longleftrightarrow> log_wf s (nat (lh_n s)) \<and> 0 < lh_n s \<and> lh_n s < int NBUF
     \<and> bview s V [] (lh_block s ` {..<nat (lh_n s)})"

lemma start_not_block: "log_wf s n \<Longrightarrow> lg_start s \<notin> lh_block s ` {..<n}"
proof
  assume w: "log_wf s n" and "lg_start s \<in> lh_block s ` {..<n}"
  then obtain i where "i < n" "lh_block s i = lg_start s" by auto
  with slot_facts(5) [OF w] show False by simp
qed

lemma committingD:
  assumes "committing s V"
  shows "log_wf s (nat (lh_n s))" "0 < nat (lh_n s)" "lg_dev s = 1" "lg_start s < disksize s"
    "card (lh_block s ` {..<nat (lh_n s)}) < NBUF" "lg_start s \<notin> lh_block s ` {..<nat (lh_n s)}"
    "i < nat (lh_n s) \<Longrightarrow> slot s i \<notin> lh_block s ` {..<nat (lh_n s)}"
    "bview s V [] (lh_block s ` {..<nat (lh_n s)})"
proof -
  let ?n = "nat (lh_n s)"
  show w: "log_wf s ?n" and p: "0 < ?n" and "bview s V [] (lh_block s ` {..<?n})"
    using assms by (simp_all add: committing_def)
  show "lg_dev s = 1" "lg_start s < disksize s" using w slot_facts(6) [OF w p] by (simp_all add: log_wf_def)
  show "card (lh_block s ` {..<?n}) < NBUF"
    using assms card_image_le [of "{..<?n}" "lh_block s"] by (simp add: committing_def) linarith
  show "lg_start s \<notin> lh_block s ` {..<?n}" by (rule start_not_block [OF w])
  show "i < ?n \<Longrightarrow> slot s i \<notin> lh_block s ` {..<?n}" using slot_facts(2) [OF w] by blast
qed

lemma commit_log_part:
  assumes "committing s V"
  shows "returns (andthen (write_log s) (\<lambda>_ s. write_head s))
     (\<lambda>_ t. bview t (logged_view s V) [] (lh_block s ` {..<nat (lh_n s)}) \<and> rest_same (wrotes (logged_writes s V) s) t)"
proof -
  let ?n = "nat (lh_n s)" and ?D = "lh_block s ` {..<nat (lh_n s)}" and ?st = "lg_start s"
  let ?V1 = "upds (log_copies s V ?n) V" and ?L = "as_writes (log_copies s V ?n)" and ?h = "put_head (lh_n s) (lh_block s) (V ?st)"
  note c = committingD [OF assms]
  have V1: "?V1 ?st = V ?st"
  proof (rule upds_other)
    show "?st \<notin> fst ` set (log_copies s V ?n)" unfolding fst_copies using slot_facts(3) [OF c(1)] by (metis imageE lessThan_iff)
  qed
  have 1: "returns (write_log s) (\<lambda>_ t. bview t ?V1 [] ?D \<and> rest_same (wrotes ?L s) t)"
    using c(7) by (intro write_log_view [OF c(8,1) refl _ c(5)]) auto
  show ?thesis
  proof (rule returns_andthenI [OF 1], elim conjE)
    fix t
    assume t: "bview t ?V1 [] ?D" "rest_same (wrotes ?L s) t"
    note e = rest_same_log [OF t(2)] and ds = rest_sameD(4) [OF t(2)]
    have "returns (write_head t) (\<lambda>_ u. bview u (?V1(?st := ?h)) [] ?D \<and> rest_same (wrote ?st ?h t) u)"
      using write_head_view [OF t(1)] c V1 by (simp add: e ds)
    then show "returns (write_head t) (\<lambda>_ u. bview u (logged_view s V) [] ?D \<and> rest_same (wrotes (logged_writes s V) s) u)"
      using rest_same_trans [OF rest_same_wrote [OF t(2), of ?st ?h]]
      by (auto simp: wrote_wrotes(1) logged_view_def logged_writes_def elim!: returns_mono)
  qed
qed

text \<open>Installing what was just logged does not change the view: the home blocks are in the cache.\<close>

lemma logged_view_home:
  assumes "committing s V" "i < nat (lh_n s)"
  shows "logged_view s V (lh_block s i) = V (lh_block s i)" "logged_view s V (slot s i) = V (lh_block s i)"
proof -
  let ?n = "nat (lh_n s)"
  note w = committingD(1) [OF assms(1)]
  have "lh_block s i \<notin> slot s ` {..<?n}"
    using slot_facts(2) [OF w _ assms(2)] by (metis imageE lessThan_iff)
  then show "logged_view s V (lh_block s i) = V (lh_block s i)"
    using slot_facts(5) [OF w assms(2)] by (simp add: logged_view_def upds_other fst_copies)
  have "upds (log_copies s V ?n) V (slot s i) = V (lh_block s i)"
  proof (rule upds_in)
    show "distinct (map fst (log_copies s V ?n))"
      using slot_inj [OF w] by (simp add: log_copies_def comp_def distinct_map atLeast0LessThan)
    show "(slot s i, V (lh_block s i)) \<in> set (log_copies s V ?n)" using assms(2) by (auto simp: log_copies_def)
  qed
  then show "logged_view s V (slot s i) = V (lh_block s i)"
    using slot_facts(3) [OF w assms(2)] by (simp add: logged_view_def)
qed

lemma commit_install_part:
  assumes c: "committing s V" and u: "bview u (logged_view s V) [] (lh_block s ` {..<nat (lh_n s)})" "rest_same (wrotes ws s) u"
  shows "returns (install_trans u) (\<lambda>_ x. bview x (logged_view s V) [] {} \<and> rest_same (wrotes (ws @ home_writes s V) s) x)"
proof -
  let ?n = "nat (lh_n s)" and ?D = "lh_block s ` {..<nat (lh_n s)}"
  note e = rest_same_log [OF u(2)] and d = committingD [OF c] and lv = logged_view_home [OF c]
  have sl: "slot u i = slot s i" for i using slot_same(1) [OF u(2)] by (simp add: slot_same)
  have wu: "log_wf u ?n" using d(1) log_wf_same [OF u(2)] by (simp add: log_wf_def)
  have hc: "home_copies u (logged_view s V) ?n = map (\<lambda>i. (lh_block s i, V (lh_block s i))) [0..<?n]"
    by (simp add: home_copies_def e sl lv(2))
  have same: "upds (home_copies u (logged_view s V) ?n) (logged_view s V) = logged_view s V"
    unfolding hc by (rule upds_same) (auto simp: lv(1))
  have "returns (install_trans u) (\<lambda>_ x. bview x (upds (home_copies u (logged_view s V) ?n) (logged_view s V)) [] (?D - lh_block u ` {..<?n})
      \<and> rest_same (wrotes (as_writes (home_copies u (logged_view s V) ?n)) u) x)"
  proof (rule install_trans_view [OF u(1) wu _ d(5)])
    show "slot u i \<notin> ?D \<and> logged_view s V (slot u i) = disk u (unat (slot u i))" if "i < ?n" for i
      using d(7) [OF that] bview_clean [OF u(1)] by (simp add: sl)
  qed (simp_all add: e)
  then have "returns (install_trans u) (\<lambda>_ x. bview x (logged_view s V) [] {} \<and> rest_same (wrotes (home_writes s V) u) x)"
    unfolding same by (simp add: hc e comp_def home_writes_def)
  then show ?thesis
    using rest_same_trans [OF rest_same_wrotes [OF u(2), of "home_writes s V"]]
    by (auto simp: wrotes_wrotes elim!: returns_mono)
qed

lemma commit_view:
  assumes c: "committing s V"
  shows "returns (commit s) (\<lambda>_ t. bview t ((logged_view s V)(lg_start s := put_head 0 (lh_block s) (logged_view s V (lg_start s)))) [] {}
     \<and> rest_same (wrotes (commit_writes s V) (s\<lparr>lh_n := 0\<rparr>)) t)"
proof -
  let ?st = "lg_start s" and ?ws = "logged_writes s V @ home_writes s V"
  let ?h = "put_head 0 (lh_block s) (logged_view s V ?st)"
  note d = committingD [OF c]
  have last: "returns (write_head (x\<lparr>lh_n := 0\<rparr>)) (\<lambda>_ y. bview y ((logged_view s V)(?st := ?h)) [] {}
      \<and> rest_same (wrotes (commit_writes s V) (s\<lparr>lh_n := 0\<rparr>)) y)"
    if x: "bview x (logged_view s V) [] {}" "rest_same (wrotes ?ws s) x" for x
  proof -
    let ?x = "x\<lparr>lh_n := 0\<rparr>"
    note e = rest_same_log [OF x(2)] and ds = rest_sameD(4) [OF x(2)]
    have bx: "bview ?x (logged_view s V) [] {}" using x(1) by (subst bview_cong [of ?x x]) simp_all
    have W: "commit_writes s V = ?ws @ [(unat ?st, ?h)]"
      by (simp add: commit_writes_def Let_def log_copies_def comp_def logged_writes_def home_writes_def logged_view_def)
    have "returns (write_head ?x) (\<lambda>_ y. bview y ((logged_view s V)(?st := ?h)) [] {} \<and> rest_same (wrote ?st ?h ?x) y)"
      using write_head_view [OF bx] d by (simp add: e ds)
    moreover have "rest_same (wrotes (commit_writes s V) (s\<lparr>lh_n := 0\<rparr>)) (wrote ?st ?h ?x)"
      using rest_same_wrote [OF rest_same_lh_n [OF x(2), of 0], of ?st ?h]
      unfolding wrotes_lh_n wrote_wrotes(1) W .
    ultimately show ?thesis by (auto elim!: returns_mono intro: rest_same_trans)
  qed
  have e: "commit s = andthen (andthen (write_log s) (\<lambda>_ s. write_head s)) (\<lambda>_ s.
      andthen (install_trans s) (\<lambda>_ s. write_head (s\<lparr>lh_n := 0\<rparr>)))"
    using c by (simp add: commit_def committing_def andthen_assoc)
  show ?thesis
    unfolding e
    by (intro returns_andthenI [OF commit_log_part [OF c]] returns_andthenI [OF commit_install_part [OF c]] last) auto
qed

section \<open>Crashes\<close>

text \<open>
  The writes of recovery, as a function of the disk it finds; \<open>st\<close> is the block of the log header.
\<close>

definition head_n :: "nat \<Rightarrow> (nat \<Rightarrow> block) \<Rightarrow> nat" where
  "head_n st d = nat (sint (load32 (d st) 0))"

definition head_block :: "nat \<Rightarrow> (nat \<Rightarrow> block) \<Rightarrow> nat \<Rightarrow> uint" where
  "head_block st d i = load32 (d st) (4 + 4 * i)"

definition recovery_writes :: "nat \<Rightarrow> (nat \<Rightarrow> block) \<Rightarrow> (nat \<times> block) list" where
  "recovery_writes st d =
     map (\<lambda>i. (unat (head_block st d i), d (st + i + 1))) [0..<head_n st d] @ [(st, store32 0 0 (d st))]"

definition recover_disk :: "nat \<Rightarrow> (nat \<Rightarrow> block) \<Rightarrow> (nat \<Rightarrow> block)" where
  "recover_disk st d = apply_writes (recovery_writes st d) d"

text \<open>A crash during recovery is followed by another recovery.\<close>

inductive recovers :: "nat \<Rightarrow> (nat \<Rightarrow> block) \<Rightarrow> (nat \<Rightarrow> block) \<Rightarrow> bool" for st where
  complete: "recovers st d (recover_disk st d)"
| again: "recovers st (apply_writes (take k (recovery_writes st d)) d) d' \<Longrightarrow> recovers st d d'"

text \<open>
  \<open>settled\<close>: the log is empty and the blocks outside it are as \<open>F\<close> says. \<open>pending\<close>: the log holds a
  committed transaction that, once installed, makes them so.
\<close>

definition settled :: "nat \<Rightarrow> nat \<Rightarrow> (nat \<Rightarrow> block) \<Rightarrow> (nat \<Rightarrow> block) \<Rightarrow> bool" where
  "settled st n F d \<longleftrightarrow> load32 (d st) 0 = 0 \<and> (\<forall>m. m \<notin> {st..st + n} \<longrightarrow> d m = F m)"

definition pending :: "nat \<Rightarrow> nat \<Rightarrow> (nat \<Rightarrow> uint) \<Rightarrow> (nat \<Rightarrow> block) \<Rightarrow> (nat \<Rightarrow> block) \<Rightarrow> bool" where
  "pending st n bl F d \<longleftrightarrow> load32 (d st) 0 = of_nat n
     \<and> (\<forall>i<n. head_block st d i = bl i \<and> d (st + i + 1) = F (unat (bl i)))
     \<and> (\<forall>m. m \<notin> {st..st + n} \<longrightarrow> m \<notin> (\<lambda>i. unat (bl i)) ` {..<n} \<longrightarrow> d m = F m)"

definition outside_log :: "nat \<Rightarrow> nat \<Rightarrow> (nat \<Rightarrow> uint) \<Rightarrow> bool" where
  "outside_log st n bl \<longleftrightarrow> n < 2 ^ 31 \<and> (\<forall>i<n. unat (bl i) \<notin> {st..st + n})"

lemma head_n_of_nat: "n < 2 ^ 31 \<Longrightarrow> load32 (d st) 0 = of_nat n \<Longrightarrow> head_n st d = n"
proof -
  assume n: "n < 2 ^ 31" "load32 (d st) 0 = of_nat n"
  have "sint (of_int (int n) :: uint) = int n" using n(1) by (intro sint_of_int_small) auto
  with n(2) show ?thesis by (simp add: head_n_def)
qed

lemma settled_recovery: "settled st n F d \<Longrightarrow> recovery_writes st d = [(st, store32 0 0 (d st))]"
  using head_n_of_nat [of 0 d st] by (simp add: recovery_writes_def settled_def)

lemma settled_prefix:
  assumes "settled st n F d"
  shows "settled st n F (apply_writes (take k (recovery_writes st d)) d)"
proof (cases k)
  case 0
  then show ?thesis using assms by simp
next
  case (Suc j)
  then show ?thesis using assms unfolding settled_recovery [OF assms] by (auto simp: settled_def)
qed

lemma pending_recovery:
  assumes "pending st n bl F d" "outside_log st n bl"
  shows "recovery_writes st d = map (\<lambda>i. (unat (bl i), F (unat (bl i)))) [0..<n] @ [(st, store32 0 0 (d st))]"
proof -
  have "head_n st d = n" using assms head_n_of_nat [of n d st] by (simp add: pending_def outside_log_def)
  then show ?thesis using assms(1) by (simp add: recovery_writes_def pending_def)
qed

lemma apply_F: "apply_writes (map (\<lambda>i. (f i, F (f i))) xs) d m = (if m \<in> f ` set xs then F m else d m)"
  by (induction xs arbitrary: d) auto

lemma pending_partial:
  assumes p: "pending st n bl F d" and o: "outside_log st n bl" and k: "k \<le> n"
  shows "pending st n bl F (apply_writes (map (\<lambda>i. (unat (bl i), F (unat (bl i)))) [0..<k]) d)"
proof -
  have "m \<in> {st..st + n} \<Longrightarrow> m \<notin> (\<lambda>i. unat (bl i)) ` {0..<k}" for m using o k by (auto simp: outside_log_def)
  then have same: "m \<in> {st..st + n} \<Longrightarrow> apply_writes (map (\<lambda>i. (unat (bl i), F (unat (bl i)))) [0..<k]) d m = d m" for m
    using apply_F [of "\<lambda>i. unat (bl i)" F "[0..<k]" d m] by simp
  have "st \<in> {st..st + n}" "\<And>i. i < n \<Longrightarrow> st + i + 1 \<in> {st..st + n}" by auto
  then show ?thesis
    using p same by (simp add: pending_def head_block_def apply_F [of "\<lambda>i. unat (bl i)"])
qed

lemma pending_all:
  assumes p: "pending st n bl F d" and o: "outside_log st n bl"
  shows "settled st n F (apply_writes (recovery_writes st d) d)"
proof -
  let ?e = "apply_writes (map (\<lambda>i. (unat (bl i), F (unat (bl i)))) [0..<n]) d"
  have "pending st n bl F ?e" by (rule pending_partial [OF p o order_refl])
  then have "?e m = F m" if "m \<notin> {st..st + n}" for m
    using that p by (simp add: pending_def apply_F [of "\<lambda>i. unat (bl i)"] atLeast0LessThan)
  then show ?thesis unfolding pending_recovery [OF p o] by (simp add: settled_def)
qed

lemma pending_prefix:
  assumes p: "pending st n bl F d" and o: "outside_log st n bl"
  shows "pending st n bl F (apply_writes (take k (recovery_writes st d)) d)
    \<or> settled st n F (apply_writes (take k (recovery_writes st d)) d)"
proof (cases "k \<le> n")
  case True
  then have "take k (recovery_writes st d) = map (\<lambda>i. (unat (bl i), F (unat (bl i)))) [0..<k]"
    unfolding pending_recovery [OF p o] by (simp add: take_map)
  then show ?thesis using pending_partial [OF p o True] by simp
next
  case False
  then have "take k (recovery_writes st d) = recovery_writes st d"
    unfolding pending_recovery [OF p o] by simp
  then show ?thesis using pending_all [OF p o] by simp
qed

text \<open>However often recovery is interrupted, the last one settles the disk.\<close>

lemma recovers_settled:
  assumes "recovers st d d'" "outside_log st n bl" "settled st n F d \<or> pending st n bl F d"
  shows "settled st n F d'"
  using assms
proof (induction rule: recovers.induct)
  case (complete d)
  then show ?case
    using settled_prefix [of st n F d "length (recovery_writes st d)"] pending_all [of st n bl F d]
    by (auto simp: recover_disk_def)
next
  case (again k d d')
  then show ?case
    using settled_prefix [of st n F d k] pending_prefix [of st n bl F d k] by blast
qed

section \<open>Where a crash of commit can leave the disk\<close>

definition committed_disk :: "'a log_state_scheme \<Rightarrow> (uint \<Rightarrow> block) \<Rightarrow> (nat \<Rightarrow> block)" where
  "committed_disk s V = apply_writes (home_writes s V) (disk s)"

lemma committed_disk_home:
  assumes c: "committing s V" and i: "i < nat (lh_n s)"
  shows "committed_disk s V (unat (lh_block s i)) = V (lh_block s i)"
  unfolding committed_disk_def
proof (rule apply_writes_in)
  have "inj_on (lh_block s) {..<nat (lh_n s)}" using committingD(1) [OF c] by (simp add: log_wf_def)
  then show "distinct (map fst (home_writes s V))"
    by (auto simp: home_writes_def comp_def distinct_map inj_on_def simp flip: word_unat_eq_iff)
  show "(unat (lh_block s i), V (lh_block s i)) \<in> set (home_writes s V)" using i by (auto simp: home_writes_def)
qed

lemma fst_home_writes: "fst ` set (home_writes s V) = (\<lambda>i. unat (lh_block s i)) ` {..<nat (lh_n s)}"
  by (force simp: home_writes_def)

lemma committed_disk_other:
  "m \<notin> (\<lambda>i. unat (lh_block s i)) ` {..<nat (lh_n s)} \<Longrightarrow> committed_disk s V m = disk s m"
  by (simp add: committed_disk_def apply_writes_other fst_home_writes)

text \<open>The committed disk is what the transaction's view shows.\<close>

lemma committed_disk_view:
  assumes c: "committing s V"
  shows "committed_disk s V (unat b) = V b"
proof (cases "b \<in> lh_block s ` {..<nat (lh_n s)}")
  case True
  then show ?thesis using committed_disk_home [OF c] by auto
next
  case False
  then have "unat b \<notin> (\<lambda>i. unat (lh_block s i)) ` {..<nat (lh_n s)}" by (auto simp flip: word_unat_eq_iff)
  then show ?thesis using False bview_clean [OF committingD(8) [OF c]] by (simp add: committed_disk_other)
qed

lemma outside_log_committing:
  assumes c: "committing s V"
  shows "outside_log (unat (lg_start s)) (nat (lh_n s)) (lh_block s)"
  using committingD(1) [OF c] c unfolding log_wf_def outside_log_def committing_def by fastforce

lemma crash_log_part:
  assumes c: "committing s V" and z: "load32 (disk s (unat (lg_start s))) 0 = 0" and k: "k \<le> nat (lh_n s)"
  shows "settled (unat (lg_start s)) (nat (lh_n s)) (disk s)
     (apply_writes (map (\<lambda>i. (unat (slot s i), V (lh_block s i))) [0..<k]) (disk s))"
proof -
  have "fst ` set (map (\<lambda>i. (unat (slot s i), V (lh_block s i))) [0..<k]) \<subseteq> {unat (lg_start s) + 1..unat (lg_start s) + nat (lh_n s)}"
    using unat_slot [OF committingD(1) [OF c]] k by auto
  then have "m \<notin> {unat (lg_start s) + 1..unat (lg_start s) + nat (lh_n s)} \<Longrightarrow>
      apply_writes (map (\<lambda>i. (unat (slot s i), V (lh_block s i))) [0..<k]) (disk s) m = disk s m" for m
    by (blast intro: apply_writes_other)
  then show ?thesis using z by (simp add: settled_def)
qed

lemma logged_pending:
  assumes c: "committing s V"
  defines "d \<equiv> apply_writes (logged_writes s V) (disk s)"
  shows "pending (unat (lg_start s)) (nat (lh_n s)) (lh_block s) (committed_disk s V) d"
proof -
  let ?st = "unat (lg_start s)" and ?n = "nat (lh_n s)" and ?L = "as_writes (log_copies s V (nat (lh_n s)))"
  note w = committingD(1) [OF c]
  have L: "?L = map (\<lambda>i. (unat (slot s i), V (lh_block s i))) [0..<?n]" by (simp add: log_copies_def comp_def)
  have d: "d = (apply_writes ?L (disk s))(?st := put_head (lh_n s) (lh_block s) (V (lg_start s)))"
    by (simp add: d_def logged_writes_def)
  have slots: "d (?st + i + 1) = V (lh_block s i)" if i: "i < ?n" for i
  proof -
    have "inj_on (\<lambda>i. unat (slot s i)) {0..<?n}"
      using slot_inj [OF w] by (auto simp: inj_on_def simp flip: word_unat_eq_iff)
    then have "apply_writes ?L (disk s) (unat (slot s i)) = V (lh_block s i)"
      using i unfolding L by (intro apply_writes_in) (auto simp: comp_def distinct_map)
    then show ?thesis using unat_slot [OF w i] by (simp add: d)
  qed
  have other: "d m = disk s m" if "m \<notin> {?st..?st + ?n}" for m
  proof -
    have "m \<notin> fst ` set ?L" using that unat_slot [OF w] unfolding L by auto
    then show ?thesis using that by (auto simp: d apply_writes_other)
  qed
  have "load32 (d ?st) 0 = of_nat ?n" using c by (simp add: d put_head_n committing_def)
  moreover have "head_block ?st d i = lh_block s i" if "i < ?n" for i
    using that by (simp add: head_block_def d put_head_block)
  ultimately show ?thesis
    using slots other committed_disk_home [OF c] committed_disk_other [of _ s V] by (simp add: pending_def)
qed

lemma commit_crash:
  fixes s :: "'a log_state_scheme" and k :: nat
  assumes c: "committing s V" and z: "load32 (disk s (unat (lg_start s))) 0 = 0"
  defines "d \<equiv> apply_writes (take k (commit_writes s V)) (disk s)"
    and "st \<equiv> unat (lg_start s)" and "n \<equiv> nat (lh_n s)"
  shows "settled st n (disk s) d \<or> pending st n (lh_block s) (committed_disk s V) d \<or> settled st n (committed_disk s V) d"
proof -
  let ?h0 = "(st, put_head 0 (lh_block s) (put_head (lh_n s) (lh_block s) (V (lg_start s))))"
  let ?bl = "\<lambda>i. (unat (lh_block s i), V (lh_block s i))"
  have home: "map ?bl [0..<j] = map (\<lambda>i. (unat (lh_block s i), committed_disk s V (unat (lh_block s i)))) [0..<j]" if "j \<le> n" for j
    using that by (simp add: committed_disk_home [OF c] n_def)
  have W: "commit_writes s V = logged_writes s V @ map ?bl [0..<n] @ [?h0]"
    by (simp add: commit_writes_def Let_def logged_writes_def log_copies_def comp_def st_def n_def)
  note p = logged_pending [OF c, folded st_def n_def] and o = outside_log_committing [OF c, folded st_def n_def]
  consider "k \<le> n" | "n < k" "k \<le> n + 1 + n" | "n + 1 + n < k" by linarith
  then show ?thesis
  proof cases
    case 1
    then have "take k (commit_writes s V) = map (\<lambda>i. (unat (slot s i), V (lh_block s i))) [0..<k]"
      unfolding W by (simp add: logged_writes_def log_copies_def comp_def n_def take_map)
    then show ?thesis using crash_log_part [OF c z] 1 by (simp add: d_def st_def n_def)
  next
    case 2
    then obtain j where j: "k = n + 1 + j" "j \<le> n" by (metis add_diff_inverse_nat le_add_diff_inverse less_eq_Suc_le add_le_cancel_left Suc_eq_plus1)
    have "length (logged_writes s V) = n + 1" by (simp add: logged_writes_def log_copies_def n_def)
    then have "take k (commit_writes s V) = logged_writes s V @ map ?bl [0..<j]"
      unfolding W j using j(2) by (simp add: take_map)
    then show ?thesis using pending_partial [OF p o j(2)] by (simp add: d_def home [OF j(2)])
  next
    case 3
    then have "take k (commit_writes s V) = commit_writes s V"
      unfolding W by (simp add: logged_writes_def log_copies_def n_def)
    moreover have "pending st n (lh_block s) (committed_disk s V) (apply_writes (logged_writes s V @ map ?bl [0..<n]) (disk s))"
      using pending_partial [OF p o order_refl] by (simp add: home)
    then have "settled st n (committed_disk s V) (apply_writes (commit_writes s V) (disk s))"
      unfolding W settled_def pending_def
      by (auto simp: put_head_n home apply_F [of "\<lambda>i. unat (lh_block s i)"])
    ultimately show ?thesis by (simp add: d_def)
  qed
qed

section \<open>The recovery routine performs these writes\<close>

lemma recover_from_log_view:
  assumes v: "bview u (\<lambda>m. disk u (unat m)) [] {}" and dev: "lg_dev u = 1" and st: "lg_start u < disksize u"
    and h: "head_n (unat (lg_start u)) (disk u) \<le> LOGSIZE" "0 \<le> sint (load32 (disk u (unat (lg_start u))) 0)"
    and w: "log_wf (u\<lparr>lh_block := head_block (unat (lg_start u)) (disk u)\<rparr>) (head_n (unat (lg_start u)) (disk u))"
  shows "returns (recover_from_log u) (\<lambda>_ t. disk t = recover_disk (unat (lg_start u)) (disk u)
     \<and> dwrites t = dwrites u @ recovery_writes (unat (lg_start u)) (disk u) \<and> lh_n t = 0)"
proof -
  let ?st = "unat (lg_start u)" and ?V = "\<lambda>m. disk u (unat m)"
  let ?n = "head_n ?st (disk u)" and ?hb = "head_block ?st (disk u)"
  define bl where "bl = (\<lambda>i. if i < ?n then load32 (disk u ?st) (4 + 4 * i) else lh_block u i)"
  define s where "s = u\<lparr>lh_n := int ?n, lh_block := bl\<rparr>"
  have sn: "sint (load32 (disk u ?st) 0) = int ?n" using h(2) by (simp add: head_n_def)
  have r: "returns (read_head u) (\<lambda>_ t. bview t ?V [] {} \<and> rest_same s t)"
    using read_head_view [OF v dev st] h(1) sn by (simp add: s_def bl_def)
  have blh: "i < ?n \<Longrightarrow> bl i = ?hb i" for i by (simp add: bl_def head_block_def)
  have ws: "log_wf s ?n" using w blh by (simp add: log_wf_def s_def inj_on_def)
  have sl: "slot s i = lg_start u + of_nat i + 1" for i by (simp add: slot_def s_def)
  have us: "i < ?n \<Longrightarrow> unat (slot s i) = ?st + i + 1" for i using unat_slot [OF ws, of i] by (simp add: s_def)
  define I where "I = map (\<lambda>i. (unat (?hb i), disk u (?st + i + 1))) [0..<?n]"
  have inst: "returns (install_trans t) (\<lambda>_ x. (\<exists>V. bview x V [] {} \<and> V (lg_start u) = disk u ?st) \<and> rest_same (wrotes I s) x)"
    if t: "bview t ?V [] {}" "rest_same s t" for t
  proof -
    note e = rest_same_log [OF t(2)]
    have slt: "slot t i = slot s i" for i using slot_same(1) [OF t(2)] .
    have "returns (install_trans t) (\<lambda>_ x. bview x (upds (home_copies t ?V ?n) ?V) [] ({} - lh_block t ` {..<?n})
        \<and> rest_same (wrotes (as_writes (home_copies t ?V ?n)) t) x)"
      using t(1) ws log_wf_same [OF t(2)] rest_sameD(3) [OF t(2)]
      by (intro install_trans_view) (auto simp: e s_def)
    moreover have "as_writes (home_copies t ?V ?n) = I"
      using us blh by (simp add: home_copies_def I_def slt e s_def)
    moreover have "upds (home_copies t ?V ?n) ?V (lg_start u) = disk u ?st"
    proof (rule upds_other)
      show "lg_start u \<notin> fst ` set (home_copies t ?V ?n)"
        using start_not_block [OF ws] unfolding fst_copies e by (simp add: s_def)
    qed
    ultimately show ?thesis
      using rest_same_trans [OF rest_same_wrotes [OF t(2), of I]] by (auto elim!: returns_mono)
  qed
  have fin: "returns (write_head (x\<lparr>lh_n := 0\<rparr>)) (\<lambda>_ y. rest_same (wrotes (I @ [(?st, store32 0 0 (disk u ?st))]) (s\<lparr>lh_n := 0\<rparr>)) y)"
    if x: "\<exists>V. bview x V [] {} \<and> V (lg_start u) = disk u ?st" "rest_same (wrotes I s) x" for x
  proof -
    let ?x = "x\<lparr>lh_n := 0\<rparr>" and ?h = "store32 0 0 (disk u ?st)"
    obtain V where V: "bview x V [] {}" "V (lg_start u) = disk u ?st" using x(1) by blast
    have bx: "bview ?x V [] {}" using V(1) by (subst bview_cong [of ?x x]) simp_all
    note e = rest_same_log [OF x(2)] and ds = rest_sameD(4) [OF x(2)]
    have "returns (write_head ?x) (\<lambda>_ y. rest_same (wrote (lg_start u) ?h ?x) y)"
      using write_head_view [OF bx] dev st V(2) by (auto simp: e ds s_def put_head_def elim!: returns_mono)
    moreover have "rest_same (wrotes (I @ [(?st, ?h)]) (s\<lparr>lh_n := 0\<rparr>)) (wrote (lg_start u) ?h ?x)"
      using rest_same_wrote [OF rest_same_lh_n [OF x(2), of 0], of "lg_start u" ?h]
      unfolding wrotes_lh_n wrote_wrotes(1) .
    ultimately show ?thesis by (auto elim!: returns_mono intro: rest_same_trans)
  qed
  have R: "recovery_writes ?st (disk u) = I @ [(?st, store32 0 0 (disk u ?st))]" by (simp add: recovery_writes_def I_def)
  have "returns (recover_from_log u) (\<lambda>_ y. rest_same (wrotes (recovery_writes ?st (disk u)) (s\<lparr>lh_n := 0\<rparr>)) y)"
    unfolding recover_from_log_def R
    by (intro returns_andthenI [OF r] returns_andthenI [OF inst] fin) auto
  then show ?thesis
    by (rule returns_mono) (simp add: rest_sameD rest_same_log recover_disk_def s_def)
qed

end
