(* ===== verification/Xv6_Tx.thy ===== *)
theory Xv6_Tx
  imports Xv6_Crash
begin

text \<open>
  Transactions: what a file-system call sees between \<^verbatim>\<open>begin_op\<close> and \<^verbatim>\<open>end_op\<close>. \<open>tview s V H R L\<close> says
  that the blocks have contents \<open>V\<close>, the caller holds the buffers \<open>H\<close>, blocks \<open>L\<close> are in the log, and
  at least \<open>R\<close> more fit. The locale \<open>block_tx\<close> is the interface the file system is verified against.
\<close>

section \<open>The view inside a transaction\<close>

definition log_blocks :: "'a log_state_scheme \<Rightarrow> uint set" where
  "log_blocks s = lh_block s ` {..<nat (lh_n s)}"

definition tview :: "'a log_state_scheme \<Rightarrow> (uint \<Rightarrow> block) \<Rightarrow> (nat \<times> uint) list \<Rightarrow> nat \<Rightarrow> uint set \<Rightarrow> bool" where
  "tview s V H R L \<longleftrightarrow> bview s V H L \<and> L = log_blocks s \<and> inj_on (lh_block s) {..<nat (lh_n s)} \<and> 0 \<le> lh_n s
     \<and> lh_n s + int R \<le> 29 \<and> lh_n s + int R \<le> lg_size s - 1 \<and> 1 \<le> lg_outstanding s \<and> LkLog \<notin> held s
     \<and> (\<forall>n. n \<notin> L \<longrightarrow> V n = disk s (unat n))"

text \<open>The part of the state that transactions leave alone.\<close>

definition tx_same :: "'a log_state_scheme \<Rightarrow> 'a log_state_scheme \<Rightarrow> bool" where
  "tx_same s t \<longleftrightarrow> (\<exists>B P n bl. t = s\<lparr>bufs := B, ptable := P, lh_n := n, lh_block := bl\<rparr> \<and> procs_same (ptable s) P)"

lemma tx_same_refl [simp]: "tx_same s s"
  unfolding tx_same_def
  by (rule exI [of _ "bufs s"], rule exI [of _ "ptable s"], rule exI [of _ "lh_n s"], rule exI [of _ "lh_block s"]) simp

lemma tx_same_trans: "tx_same s t \<Longrightarrow> tx_same t u \<Longrightarrow> tx_same s u"
  unfolding tx_same_def by (elim exE conjE) (auto intro: procs_same_trans)

lemma rest_same_tx: "rest_same s t \<Longrightarrow> tx_same s t" for s :: "'a log_state_scheme"
  unfolding tx_same_def rest_same_def
  by (elim exE conjE) (rule exI [of _ "bufs t"], rule exI [of _ "ptable t"], rule exI [of _ "lh_n t"], rule exI [of _ "lh_block t"], simp)

lemma tx_sameD:
  assumes "tx_same s t"
  shows "held t = held s" "curproc t = curproc s" "disk t = disk s" "disksize t = disksize s" "mem t = mem s" "syms t = syms s"
    "procs_same (ptable s) (ptable t)" "freelist t = freelist s" "use_lock t = use_lock s" "lg_start t = lg_start s"
    "lg_size t = lg_size s" "lg_outstanding t = lg_outstanding s" "lg_committing t = lg_committing s" "lg_dev t = lg_dev s"
    "log_state.more t = log_state.more s" "dwrites t = dwrites s"
  using assms by (auto simp: tx_same_def)

lemma tview_card: "tview s V H R L \<Longrightarrow> card L + R < NBUF"
proof -
  assume t: "tview s V H R L"
  have "card L \<le> nat (lh_n s)" using t card_image_le [of "{..<nat (lh_n s)}" "lh_block s"] by (simp add: tview_def log_blocks_def)
  moreover have "nat (lh_n s) + R \<le> 29" using t unfolding tview_def by linarith
  ultimately show ?thesis by simp
qed

lemma tview_bview: "tview s V H R L \<Longrightarrow> bview s V H L"
  unfolding tview_def by blast

lemma tview_same:
  assumes t: "tview s V H R L" and r: "rest_same s u" and v: "bview u V H' L"
  shows "tview u V H' R L"
  using t v rest_same_log [OF r] rest_sameD(1,3) [OF r] unfolding tview_def log_blocks_def by simp

lemma tview_weaken: "tview s V H R L \<Longrightarrow> R' \<le> R \<Longrightarrow> tview s V H R' L"
  unfolding tview_def by auto

lemma bread_tview:
  assumes t: "tview s V H R L" and n: "\<And>c. (c, n) \<notin> set H" "n < disksize s" and h: "length H \<le> R"
  shows "returns (bread 1 n s) (\<lambda>b u. tview u V ((b, n) # H) R L \<and> tx_same s u)"
proof -
  have "bview s V H L" using t by (rule tview_bview)
  then have "returns (bread 1 n s) (\<lambda>b u. bview u V ((b, n) # H) L \<and> rest_same s u)"
    using n tview_card [OF t] h by (intro bread_view) auto
  then show ?thesis using tview_same [OF t] by (auto elim!: returns_mono simp: rest_same_tx)
qed

lemma brelse_tview:
  assumes t: "tview s V H R L" and b: "(b, n) \<in> set H"
  shows "returns (brelse b s) (\<lambda>_ u. tview u V (remove1 (b, n) H) R L \<and> tx_same s u)"
proof -
  have v: "bview s V H L" and "n \<in> L \<or> V n = disk s (unat n)" using t by (auto simp: tview_def)
  then have "returns (brelse b s) (\<lambda>_ u. bview u V (remove1 (b, n) H) L \<and> rest_same s u)"
    using b by (intro brelse_view) auto
  then show ?thesis using tview_same [OF t] by (auto elim!: returns_mono simp: rest_same_tx)
qed

lemma tview_data: "tview s V H R L \<Longrightarrow> (b, n) \<in> set H \<Longrightarrow> b_data (bufs s b) = V n"
  by (auto simp: tview_def intro: bview_data)

section \<open>log_write\<close>

text \<open>Recording a block in the header: absorbed if it is already there, appended otherwise.\<close>

lemma log_index_cases:
  obtains (old) "log_index s no < nat (lh_n s)" "lh_block s (log_index s no) = no"
  | (new) "log_index s no = nat (lh_n s)" "no \<notin> log_blocks s"
proof (cases "find (\<lambda>i. lh_block s i = no) [0..<nat (lh_n s)]")
  case None
  then have "log_index s no = nat (lh_n s)" by (simp add: log_index_def)
  moreover have "no \<notin> log_blocks s" using None by (auto simp: find_None_iff log_blocks_def)
  ultimately show ?thesis by (rule new)
next
  case (Some i)
  then show ?thesis using old find_in_set [OF Some] by (simp add: log_index_def)
qed

definition log_add :: "uint \<Rightarrow> 'a log_state_scheme \<Rightarrow> 'a log_state_scheme" where
  "log_add no s = s\<lparr>lh_block := (lh_block s)(log_index s no := no),
     lh_n := (if log_index s no = nat (lh_n s) then lh_n s + 1 else lh_n s)\<rparr>"

lemma log_add_blocks:
  assumes "0 \<le> lh_n s" "inj_on (lh_block s) {..<nat (lh_n s)}"
  shows "log_blocks (log_add no s) = insert no (log_blocks s) \<and> inj_on (lh_block (log_add no s)) {..<nat (lh_n (log_add no s))}
    \<and> lh_n s \<le> lh_n (log_add no s) \<and> lh_n (log_add no s) \<le> lh_n s + 1"
proof (cases rule: log_index_cases [of s no])
  case old
  have "(lh_block s)(log_index s no := no) = lh_block s" using old(2) by auto
  moreover have "no \<in> log_blocks s" unfolding log_blocks_def
    by (rule image_eqI [where x = "log_index s no"]) (use old in simp_all)
  ultimately show ?thesis using old(1) assms(2) by (simp add: log_add_def log_blocks_def insert_absorb)
next
  case new
  have S: "{..<nat (lh_n s + 1)} = insert (nat (lh_n s)) {..<nat (lh_n s)}"
    using assms(1) by (auto simp: nat_add_distrib lessThan_Suc)
  have n: "no \<notin> lh_block s ` {..<nat (lh_n s)}" using new(2) by (simp add: log_blocks_def)
  have restr: "{..<nat (lh_n s)} \<inter> {x. x \<noteq> nat (lh_n s)} = {..<nat (lh_n s)}" by auto
  have im: "((lh_block s)(nat (lh_n s) := no)) ` {..<nat (lh_n s)} = lh_block s ` {..<nat (lh_n s)}" by auto
  have "inj_on ((lh_block s)(nat (lh_n s) := no)) {..<nat (lh_n s + 1)}"
    unfolding S inj_on_insert using assms(2) n im by (simp add: inj_on_def)
  then show ?thesis using new(1) im assms(1)
    unfolding log_add_def log_blocks_def by (simp add: S restr)
qed

lemma log_write_eq:
  assumes "lh_n s < int LOGSIZE" "lh_n s < lg_size s - 1" "1 \<le> lg_outstanding s" "LkLog \<notin> held s"
  shows "log_write b s = Ret () (upd_buf b (\<lambda>k. k\<lparr>b_flags := b_flags k OR B_DIRTY\<rparr>) (log_add (b_blockno (bufs s b)) s))"
proof -
  have "log_index (s\<lparr>held := h\<rparr>) no = log_index s no" for h no by (simp add: log_index_def cong: option.case_cong)
  then show ?thesis using assms
    by (simp add: log_write_def Let_def log_add_def upd_buf_def)
qed

lemma log_add_fields [simp]:
  "bufs (log_add no s) = bufs s" "disk (log_add no s) = disk s" "held (log_add no s) = held s"
  "lg_size (log_add no s) = lg_size s" "lg_outstanding (log_add no s) = lg_outstanding s"
  by (simp_all add: log_add_def)

lemma log_fields_upd_buf [simp]:
  "lg_size (upd_buf b f s) = lg_size s" "lg_outstanding (upd_buf b f s) = lg_outstanding s"
  "log_blocks (upd_buf b f s) = log_blocks s"
  by (simp_all add: upd_buf_def log_blocks_def)

lemma log_write_tview:
  assumes t: "tview s V H (Suc R) L" and b: "(b, n) \<in> set H"
  shows "returns (log_write b (upd_buf b (\<lambda>k. k\<lparr>b_data := d\<rparr>) s)) (\<lambda>_ u. tview u (V(n := d)) H R (insert n L) \<and> tx_same s u)"
proof -
  let ?s = "upd_buf b (\<lambda>k. k\<lparr>b_data := d\<rparr>) s"
  let ?a = "log_add n ?s"
  let ?u = "upd_buf b (\<lambda>k. k\<lparr>b_flags := b_flags k OR B_DIRTY\<rparr>) ?a"
  have v: "bview s V H L" using t by (rule tview_bview)
  have lim: "0 \<le> lh_n s" "inj_on (lh_block s) {..<nat (lh_n s)}" "L = log_blocks s" "1 \<le> lg_outstanding s" "LkLog \<notin> held s"
      "lh_n s + 1 + int R \<le> 29" "lh_n s + 1 + int R \<le> lg_size s - 1" "\<And>n. n \<notin> L \<Longrightarrow> V n = disk s (unat n)"
    using t unfolding tview_def by (auto simp: algebra_simps)
  have bn: "b_blockno (bufs ?s b) = n" using bview_blockno [OF v b] by (simp add: upd_buf_def)
  have r: "log_write b ?s = Ret () ?u" using lim by (subst log_write_eq) (simp_all add: bn)
  have "bview ?s (V(n := d)) H L" by (rule upd_data_view [OF v b])
  then have "bview ?a (V(n := d)) H L" by (subst bview_cong [of ?a ?s]) simp_all
  then have bu: "bview ?u (V(n := d)) H (insert n L)" using b by (rule mark_dirty_view)
  have a: "log_blocks ?a = insert n L" "inj_on (lh_block ?a) {..<nat (lh_n ?a)}" "lh_n s \<le> lh_n ?a" "lh_n ?a \<le> lh_n s + 1"
    using log_add_blocks [of ?s n] lim by simp_all
  have "tview ?u (V(n := d)) H R (insert n L)"
    using bu a lim unfolding tview_def by auto
  moreover have "tx_same s ?u"
    unfolding tx_same_def
    by (rule exI [of _ "bufs ?u"], rule exI [of _ "ptable ?u"], rule exI [of _ "lh_n ?u"], rule exI [of _ "lh_block ?u"])
      (simp add: upd_buf_def log_add_def)
  ultimately show ?thesis unfolding r by simp
qed

section \<open>Beginning and ending a call\<close>

definition log_placed :: "'a log_state_scheme \<Rightarrow> bool" where
  "log_placed s \<longleftrightarrow> lg_dev s = 1 \<and> unat (lg_start s) + LOGSIZE < unat (disksize s) \<and> 30 \<le> lg_size s"

definition off_log :: "'a log_state_scheme \<Rightarrow> uint \<Rightarrow> bool" where
  "off_log s n \<longleftrightarrow> n < disksize s \<and> (unat n < unat (lg_start s) \<or> unat (lg_start s) + LOGSIZE \<le> unat n)"

text \<open>Between calls: nothing logged, nothing outstanding, the header on disk is empty.\<close>

definition idle :: "'a log_state_scheme \<Rightarrow> (uint \<Rightarrow> block) \<Rightarrow> bool" where
  "idle s V \<longleftrightarrow> bview s V [] {} \<and> lh_n s = 0 \<and> lg_outstanding s = 0 \<and> \<not> lg_committing s \<and> LkLog \<notin> held s \<and> log_placed s
     \<and> load32 (disk s (unat (lg_start s))) 0 = 0"

lemma begin_op_idle:
  assumes "idle s V"
  shows "returns (begin_op s) (\<lambda>_ t. tview t V [] 29 {} \<and> t = s\<lparr>lg_outstanding := 1\<rparr>)"
proof -
  let ?t = "s\<lparr>lg_outstanding := 1\<rparr>"
  have r: "begin_op s = Ret () ?t" using assms by (simp add: begin_op_def begin_op_loop_def idle_def)
  have v: "bview s V [] {}" using assms by (simp add: idle_def)
  then have "bview ?t V [] {}" by (subst bview_cong [of ?t s]) simp_all
  moreover have "V n = disk s (unat n)" for n using bview_clean [OF v] by simp
  ultimately have "tview ?t V [] 29 {}" using assms by (auto simp: tview_def idle_def log_blocks_def log_placed_def)
  then show ?thesis unfolding r by simp
qed

text \<open>\<^verbatim>\<open>end_op\<close> of the only call in progress commits what it logged.\<close>

lemma tview_committing:
  assumes t: "tview s V [] R L" and p: "log_placed s" and o: "\<And>n. n \<in> L \<Longrightarrow> off_log s n" and n: "lh_n s \<noteq> 0"
  shows "committing s V"
proof -
  let ?n = "nat (lh_n s)"
  have f: "0 \<le> lh_n s" "lh_n s \<le> 29" "inj_on (lh_block s) {..<?n}" "L = lh_block s ` {..<?n}"
    using t by (auto simp: tview_def log_blocks_def)
  have "off_log s (lh_block s i)" if "i < ?n" for i using o that f(4) by blast
  then have "log_wf s ?n" using p f by (fastforce simp: log_wf_def log_placed_def off_log_def)
  then show ?thesis using f n tview_bview [OF t] by (simp add: committing_def)
qed

text \<open>What \<^verbatim>\<open>commit\<close> leaves, whether or not anything was logged.\<close>

definition after_commit :: "'a log_state_scheme \<Rightarrow> (uint \<Rightarrow> block) \<Rightarrow> 'a log_state_scheme \<Rightarrow> (uint \<Rightarrow> block) \<Rightarrow> bool" where
  "after_commit s V u V' \<longleftrightarrow> bview u V' [] {} \<and> lh_n u = 0 \<and> (\<forall>n. off_log s n \<longrightarrow> V' n = V n)
     \<and> load32 (disk u (unat (lg_start s))) 0 = 0 \<and> lg_outstanding u = lg_outstanding s \<and> held u = held s
     \<and> log_placed u \<and> lg_start u = lg_start s \<and> log_state.more u = log_state.more s \<and> disksize u = disksize s"

lemma committing_after:
  assumes c: "committing s V" and p: "log_placed s" and n: "lh_n s \<le> 29"
  shows "returns (commit s) (\<lambda>_ u. \<exists>V'. after_commit s V u V')"
proof -
  let ?V = "(logged_view s V)(lg_start s := put_head 0 (lh_block s) (logged_view s V (lg_start s)))"
  let ?w = "wrotes (commit_writes s V) (s\<lparr>lh_n := 0\<rparr>)"
  have off: "?V m = V m" if "off_log s m" for m
  proof -
    have "m \<noteq> lg_start s" using that by (auto simp: off_log_def)
    moreover have "m \<notin> slot s ` {..<nat (lh_n s)}"
      using that unat_slot [OF committingD(1) [OF c]] n by (fastforce simp: off_log_def)
    ultimately show ?thesis by (simp add: logged_view_def upds_other fst_copies)
  qed
  have "after_commit s V u ?V" if u: "bview u ?V [] {}" and r: "rest_same ?w u" for u
  proof -
    have "?V (lg_start s) = disk u (unat (lg_start s))" using bview_clean [OF u] by blast
    then have "load32 (disk u (unat (lg_start s))) 0 = 0" using put_head_n [of 0] by (metis fun_upd_same of_int_0)
    moreover have "log_state.more u = log_state.more s" using r by (auto simp: rest_same_def wrotes_def)
    ultimately show ?thesis using u off p rest_same_log [OF r] rest_sameD(1,4) [OF r]
      by (simp add: after_commit_def log_placed_def wrotes_def)
  qed
  then show ?thesis using commit_view [OF c] by (auto elim!: returns_mono)
qed

lemma commit_after:
  fixes s :: "'a log_state_scheme" and m :: int
  assumes t: "tview s V [] R L" and p: "log_placed s" and o: "\<And>n. n \<in> L \<Longrightarrow> off_log s n"
    and z: "load32 (disk s (unat (lg_start s))) 0 = 0"
  defines "s' \<equiv> s\<lparr>lg_outstanding := m, lg_committing := True\<rparr>"
  shows "returns (commit s') (\<lambda>_ u. \<exists>V'. after_commit s' V u V')"
proof -
  have bs: "bview s' V [] L" using tview_bview [OF t] by (subst bview_cong [of s' s]) (simp_all add: s'_def)
  have p': "log_placed s'" using p by (simp add: log_placed_def s'_def)
  show ?thesis
  proof (cases "lh_n s = 0")
    case True
    then have "L = {}" using t by (simp add: tview_def log_blocks_def)
    then have "after_commit s' V s' V" using True bs z p' by (simp add: after_commit_def s'_def)
    then show ?thesis using True by (auto simp: commit_def s'_def)
  next
    case False
    have "committing s V" by (rule tview_committing [OF t p o False])
    then have "committing s' V" using bs t by (simp add: committing_def log_wf_def tview_def log_blocks_def s'_def)
    then show ?thesis using p' t by (intro committing_after) (simp_all add: tview_def s'_def)
  qed
qed

lemma end_op_commits:
  assumes t: "tview s V [] R L" and p: "log_placed s" and o: "\<And>n. n \<in> L \<Longrightarrow> off_log s n"
    and one: "lg_outstanding s = 1" "\<not> lg_committing s" and z: "load32 (disk s (unat (lg_start s))) 0 = 0"
  shows "returns (end_op s) (\<lambda>_ u. \<exists>V'. idle u V' \<and> (\<forall>n. off_log s n \<longrightarrow> V' n = V n \<and> disk u (unat n) = V n)
    \<and> held u = held s \<and> log_state.more u = log_state.more s \<and> disksize u = disksize s \<and> lg_start u = lg_start s)"
proof -
  let ?s = "s\<lparr>lg_outstanding := 0, lg_committing := True\<rparr>"
  let ?fin = "\<lambda>u. andthen (acquire LkLog u) (\<lambda>_ s. andthen (wakeup ChLog (s\<lparr>lg_committing := False\<rparr>)) (\<lambda>_ s. release LkLog s))"
  have f: "LkLog \<notin> held s" "LkPtable \<notin> held s"
    using t bview_inv(4) [OF tview_bview [OF t]] by (auto simp: tview_def)
  have e: "end_op s = andthen (commit ?s) (\<lambda>_ s. ?fin s)" using f one by (simp add: end_op_def Let_def)
  have c: "returns (commit ?s) (\<lambda>_ u. \<exists>V'. after_commit ?s V u V')" by (rule commit_after [OF t p o z])
  show ?thesis unfolding e
  proof (rule returns_andthenI [OF c], elim exE)
    fix u V'
    assume u: "after_commit ?s V u V'"
    let ?w = "wakeup1 ChLog (u\<lparr>lg_committing := False\<rparr>)"
    have b: "bview u V' [] {}" and h: "held u = held s" using u by (simp_all add: after_commit_def)
    have "?fin u = Ret () ?w" using h f by (simp add: wakeup_eq wakeup1_def cong: if_cong)
    moreover have "bview ?w V' [] {}" using b by (subst bview_cong [of ?w u]) (simp_all add: wakeup1_def)
    then have "idle ?w V'"
      using u f(1) by (simp add: idle_def log_placed_def after_commit_def) (auto simp: wakeup1_def)
    moreover have "disk ?w (unat n) = V' n" for n using bview_clean [OF b, of n] by simp
    moreover have "off_log s n \<Longrightarrow> V' n = V n" for n using u by (simp add: after_commit_def off_log_def)
    moreover have "held ?w = held s \<and> log_state.more ?w = log_state.more s \<and> disksize ?w = disksize s \<and> lg_start ?w = lg_start s"
      using u h by (simp add: after_commit_def wakeup1_def)
    ultimately show "returns (?fin u) (\<lambda>_ u. \<exists>V'. idle u V' \<and> (\<forall>n. off_log s n \<longrightarrow> V' n = V n \<and> disk u (unat n) = V n)
      \<and> held u = held s \<and> log_state.more u = log_state.more s \<and> disksize u = disksize s \<and> lg_start u = lg_start s)"
      by auto
  qed
qed

section \<open>The interface of transactions\<close>

text \<open>
  What the file system uses: read a block into a buffer, change the buffer and log it, release it.
  \<open>view s V H R L\<close> is the client's knowledge of the state; \<open>same\<close> relates states that agree on
  everything outside the cache and the log.
\<close>

locale block_tx =
  fixes rd :: "uint \<Rightarrow> 's \<Rightarrow> ('s, nat) outcome"
    and wr :: "nat \<Rightarrow> block \<Rightarrow> 's \<Rightarrow> ('s, unit) outcome"
    and rel :: "nat \<Rightarrow> 's \<Rightarrow> ('s, unit) outcome"
    and get :: "'s \<Rightarrow> nat \<Rightarrow> block"
    and on_disk :: "'s \<Rightarrow> uint \<Rightarrow> bool"
    and view :: "'s \<Rightarrow> (uint \<Rightarrow> block) \<Rightarrow> (nat \<times> uint) list \<Rightarrow> nat \<Rightarrow> uint set \<Rightarrow> bool"
    and same :: "'s \<Rightarrow> 's \<Rightarrow> bool"
  assumes read_law: "view s V H R L \<Longrightarrow> (\<And>c. (c, n) \<notin> set H) \<Longrightarrow> on_disk s n \<Longrightarrow> length H \<le> R \<Longrightarrow>
      returns (rd n s) (\<lambda>b t. view t V ((b, n) # H) R L \<and> same s t)"
    and write_law: "view s V H (Suc R) L \<Longrightarrow> (b, n) \<in> set H \<Longrightarrow>
      returns (wr b d s) (\<lambda>_ t. view t (V(n := d)) H R (insert n L) \<and> same s t)"
    and rel_law: "view s V H R L \<Longrightarrow> (b, n) \<in> set H \<Longrightarrow>
      returns (rel b s) (\<lambda>_ t. view t V (remove1 (b, n) H) R L \<and> same s t)"
    and get_law: "view s V H R L \<Longrightarrow> (b, n) \<in> set H \<Longrightarrow> get s b = V n"
    and same_trans: "same s t \<Longrightarrow> same t u \<Longrightarrow> same s u"
begin

lemma rel_last:
  assumes "view s V ((b, n) # H) R L"
  shows "returns (rel b s) (\<lambda>_ t. view t V H R L \<and> same s t)"
  using rel_law [OF assms, of b n] by simp

text \<open>Reading a block: the caller sees its contents, and nothing changes.\<close>

lemma read_block:
  assumes v: "view s V H R L" and n: "\<And>c. (c, n) \<notin> set H" "on_disk s n" "length H \<le> R"
  shows "returns (andthen (rd n s) (\<lambda>b s. let x = f (get s b) in andthen (rel b s) (\<lambda>_ s. Ret x s)))
    (\<lambda>x t. x = f (V n) \<and> view t V H R L \<and> same s t)"
proof (rule returns_andthenI [OF read_law [OF v n]], elim conjE)
  fix b t
  assume t: "view t V ((b, n) # H) R L" "same s t"
  have "get t b = V n" using get_law [OF t(1)] by simp
  then show "returns (let x = f (get t b) in andthen (rel b t) (\<lambda>_ s. Ret x s)) (\<lambda>x t. x = f (V n) \<and> view t V H R L \<and> same s t)"
    using rel_last [OF t(1)] same_trans [OF t(2)] by (auto elim!: returns_mono)
qed

text \<open>Updating a block: read, modify, log, release.\<close>

lemma update_block:
  assumes v: "view s V H (Suc R) L" and n: "\<And>c. (c, n) \<notin> set H" "on_disk s n" "length H \<le> Suc R"
  shows "returns (andthen (rd n s) (\<lambda>b s. andthen (wr b (f (get s b)) s) (\<lambda>_ s. rel b s)))
    (\<lambda>_ t. view t (V(n := f (V n))) H R (insert n L) \<and> same s t)"
proof (rule returns_andthenI [OF read_law [OF v n]], elim conjE)
  fix b t
  assume t: "view t V ((b, n) # H) (Suc R) L" "same s t"
  have d: "get t b = V n" using get_law [OF t(1)] by simp
  have w: "returns (wr b (f (V n)) t) (\<lambda>_ u. view u (V(n := f (V n))) ((b, n) # H) R (insert n L) \<and> same t u)"
    using write_law [OF t(1)] by simp
  show "returns (andthen (wr b (f (get t b)) t) (\<lambda>_ s. rel b s)) (\<lambda>_ t. view t (V(n := f (V n))) H R (insert n L) \<and> same s t)"
    unfolding d
  proof (rule returns_andthenI [OF w], elim conjE)
    fix u
    assume u: "view u (V(n := f (V n))) ((b, n) # H) R (insert n L)" "same t u"
    show "returns (rel b u) (\<lambda>_ t. view t (V(n := f (V n))) H R (insert n L) \<and> same s t)"
      using rel_last [OF u(1)] same_trans [OF same_trans [OF t(2) u(2)]] by (auto elim!: returns_mono)
  qed
qed

end

text \<open>The log provides this interface for disk 1.\<close>

definition tx_write :: "nat \<Rightarrow> block \<Rightarrow> 'a log_state_scheme \<Rightarrow> ('a log_state_scheme, unit) outcome" where
  "tx_write b d s = log_write b (upd_buf b (\<lambda>k. k\<lparr>b_data := d\<rparr>) s)"

interpretation tx: block_tx "bread 1" tx_write brelse "\<lambda>s b. b_data (bufs s b)" "\<lambda>s n. n < disksize s" tview tx_same
proof
  fix s :: "'a log_state_scheme" and V H R L b n d and t u :: "'a log_state_scheme"
  show "returns (bread 1 n s) (\<lambda>b t. tview t V ((b, n) # H) R L \<and> tx_same s t)"
    if "tview s V H R L" "\<And>c. (c, n) \<notin> set H" "n < disksize s" "length H \<le> R"
    by (rule bread_tview [OF that])
  show "returns (tx_write b d s) (\<lambda>_ t. tview t (V(n := d)) H R (insert n L) \<and> tx_same s t)"
    if "tview s V H (Suc R) L" "(b, n) \<in> set H"
    unfolding tx_write_def by (rule log_write_tview [OF that])
  show "returns (brelse b s) (\<lambda>_ t. tview t V (remove1 (b, n) H) R L \<and> tx_same s t)"
    if "tview s V H R L" "(b, n) \<in> set H" by (rule brelse_tview [OF that])
  show "b_data (bufs s b) = V n" if "tview s V H R L" "(b, n) \<in> set H" by (rule tview_data [OF that])
  show "tx_same s u" if "tx_same s t" "tx_same t u" using that by (rule tx_same_trans)
qed

end
