(* ===== verification/Xv6_Storage.thy ===== *)
theory Xv6_Storage
  imports Xv6_Tx
begin

text \<open>
  The properties of the storage stack as a whole: buffer cache, log and recovery, with the concrete
  machine states on which they are instantiated.
\<close>

section \<open>A concrete disk\<close>

definition final :: "('s, 'a) outcome \<Rightarrow> 's \<Rightarrow> 's" where
  "final m s = (case m of Ret _ t \<Rightarrow> t | _ \<Rightarrow> s)"

lemma returns_final: "returns m (\<lambda>_. Q) \<Longrightarrow> Q (final m s)"
  by (auto simp: returns_def final_def)

definition zero_buf :: buf where
  "zero_buf = \<lparr>b_flags = 0, b_dev = 0, b_blockno = 0, b_prev = 0, b_next = 0, b_qnext = None, b_data = (\<lambda>_. 0)\<rparr>"

definition zero_disk :: log_state where
  "zero_disk = \<lparr>held = {}, curproc = None, ptable = undefined, initproc = None, nextpid = 1, ticks = 0,
     syscount = 0, prioritybump = 0, mem = (\<lambda>_. 0), syms = undefined, consout = [], kpgdir = 0, cr3 = 0, ts_esp0 = 0, use_lock = False, freelist = 0,
     bufs = (\<lambda>_. zero_buf), disk = (\<lambda>_ _. 0), disksize = 1000, dwrites = [],
     lg_start = 2, lg_size = 30, lg_outstanding = 0, lg_committing = False, lg_dev = 1, lh_n = 0, lh_block = (\<lambda>_. 0)\<rparr>"

lemma zero_disk_view: "bview (binit zero_disk) (\<lambda>_ _. 0) [] {}" "rest_same zero_disk (binit zero_disk)"
    "cache_ring (binit zero_disk) (rev buf_ids)"
    "i < NBUF \<Longrightarrow> b_flags (bufs (binit zero_disk) i) = 0 \<and> b_dev (bufs (binit zero_disk) i) = - 1"
  using binit_bview [of zero_disk] by (simp_all add: zero_disk_def zero_buf_def)

lemma load_zero: "load32 (\<lambda>_::nat. 0) 0 = 0"
  by (simp add: load32_def)

lemma zero_disk_fields:
  "disksize (binit zero_disk) = 1000" "held (binit zero_disk) = {}" "lg_start (binit zero_disk) = 2"
  "disk (binit zero_disk) = (\<lambda>_ _. 0)"
  using rest_sameD [OF zero_disk_view(2)] rest_same_log [OF zero_disk_view(2)] by (simp_all add: zero_disk_def)

lemma zero_disk_idle: "idle (binit zero_disk) (\<lambda>_ _. 0)"
  using zero_disk_view(1) rest_sameD [OF zero_disk_view(2)] rest_same_log [OF zero_disk_view(2)]
  by (simp add: idle_def log_placed_def load_zero) (simp add: zero_disk_def load_zero)

section \<open>The buffer cache\<close>

text \<open>
  \<^bold>\<open>C24.\<close> \<^verbatim>\<open>bread\<close> returns the current contents of a block. When the client holds no buffer of the block
  and the cache is not full of held and pinned buffers, \<^verbatim>\<open>bread\<close> returns a buffer that the client now
  holds, with the block's current contents; no block's contents, no other held buffer and nothing
  outside the cache changes.
\<close>
theorem bread_returns_contents:
  assumes "bview s V H D" "\<And>c. (c, n) \<notin> set H" "n < disksize s" "n \<in> D \<or> length H + card D < NBUF"
  shows "returns (bread 1 n s) (\<lambda>b t. bview t V ((b, n) # H) D \<and> b_data (bufs t b) = V n \<and> rest_same s t)"
proof -
  have "bview t V ((b, n) # H) D \<Longrightarrow> b_data (bufs t b) = V n" for b and t :: "'a bio_state_scheme"
    by (erule bview_data) simp
  then show ?thesis using bread_view [OF assms] by (auto elim!: returns_mono)
qed

theorem bread_returns_contents_witness:
  "returns (bread 1 7 (binit zero_disk)) (\<lambda>b t. b_data (bufs t b) = (\<lambda>_. 0) \<and> disk t = disk (binit zero_disk))"
  using bread_returns_contents [OF zero_disk_view(1), of 7]
  by (auto simp: zero_disk_fields rest_sameD elim!: returns_mono)

text \<open>
  \<^bold>\<open>C25.\<close> Least-recently-used replacement. The ring orders the buffers from most to least recently
  released. On a miss \<^verbatim>\<open>bget\<close> recycles the last buffer of the ring that is neither held nor dirty;
  \<^verbatim>\<open>brelse\<close> of a buffer puts it first and keeps the order of the others.
\<close>
theorem bcache_lru:
  assumes r: "cache_ring s (xs @ b # ys)" and b: "\<not> busy s b" "\<not> dirty s b" and ys: "\<forall>c\<in>set ys. busy s c \<or> dirty s c"
    and miss: "\<forall>c<NBUF. \<not> buf_for s dev n c" and h: "LkBcache \<notin> held s"
    and c: "c < NBUF" "busy t c" "cache_ring t zs" "LkBcache \<notin> held t" "LkPtable \<notin> held t"
  shows "bget dev n s = Ret b (upd_buf b (\<lambda>k. k\<lparr>b_dev := dev, b_blockno := n, b_flags := B_BUSY\<rparr>) s)
    \<and> returns (brelse c t) (\<lambda>_ u. cache_ring u (c # remove1 c zs))"
proof
  have "find (\<lambda>b. \<not> busy s b \<and> \<not> dirty s b) (rev ys @ b # rev xs) = Some b"
  proof -
    have "find (\<lambda>b. \<not> busy s b \<and> \<not> dirty s b) (us @ b # vs) = Some b" if "\<forall>c\<in>set us. busy s c \<or> dirty s c" for us vs
      using that b by (induction us) auto
    with ys show ?thesis by simp
  qed
  then show "bget dev n s = Ret b (upd_buf b (\<lambda>k. k\<lparr>b_dev := dev, b_blockno := n, b_flags := B_BUSY\<rparr>) s)"
    using bget_miss [OF r h, of dev n] miss by simp
  show "returns (brelse c t) (\<lambda>_ u. cache_ring u (c # remove1 c zs))"
    using brelse_eq [OF c(2,4,5)] released_ring [OF c(3,1)] by (simp add: released_def)
qed

definition holding_29 :: log_state where
  "holding_29 = upd_buf 29 (\<lambda>k. k\<lparr>b_flags := 1\<rparr>) (binit zero_disk)"

lemma ids_last: "rev buf_ids = rev [1..<NBUF] @ 0 # []"
  by (simp add: buf_ids_def upt_rec del: upt_rec_numeral rev_append)

theorem bcache_lru_witness:
  "(\<exists>s. bget 1 7 (binit zero_disk) = Ret 0 s) \<and> returns (brelse 29 holding_29) (\<lambda>_ u. cache_ring u (29 # remove1 29 (rev buf_ids)))"
proof -
  let ?s = "binit zero_disk"
  have 0: "\<not> busy ?s 0" "\<not> dirty ?s 0" and miss: "\<forall>c<NBUF. \<not> buf_for ?s 1 7 c"
    using zero_disk_view(4) by (simp_all add: buf_for_def)
  have t: "busy holding_29 29" "cache_ring holding_29 (rev buf_ids)" "held holding_29 = {}"
    using zero_disk_view(3) zero_disk_fields(2) by (simp_all add: cache_ring_def holding_29_def) (simp_all add: upd_buf_def)
  have "bget 1 7 ?s = Ret 0 (upd_buf 0 (\<lambda>k. k\<lparr>b_dev := 1, b_blockno := 7, b_flags := B_BUSY\<rparr>) ?s)
    \<and> returns (brelse 29 holding_29) (\<lambda>_ u. cache_ring u (29 # remove1 29 (rev buf_ids)))"
    by (rule bcache_lru [OF zero_disk_view(3) [unfolded ids_last] 0 _ miss _ _ t(1,2)])
      (simp_all add: zero_disk_fields t(3))
  then show ?thesis by blast
qed

section \<open>The log\<close>

text \<open>
  \<^bold>\<open>C1.\<close> Crash atomicity. Take a state in which \<^verbatim>\<open>commit\<close> starts, with blocks \<open>V\<close> as the transaction left
  them and an empty header on disk. \<^verbatim>\<open>commit\<close> returns, and issues a fixed sequence of block writes.
  If the machine crashes after any number \<open>k\<close> of them, and recovery runs (itself crashing any number
  of times before it completes), then the blocks outside the log are either all as they were before
  the transaction, or all as the transaction left them.
\<close>
theorem commit_crash_atomic:
  assumes c: "committing s V" and z: "load32 (disk s (unat (lg_start s))) 0 = 0"
    and r: "recovers (unat (lg_start s)) (apply_writes (take k (commit_writes s V)) (disk s)) d"
  shows "returns (commit s) (\<lambda>_ t. dwrites t = dwrites s @ commit_writes s V)
    \<and> ((\<forall>b. unat b \<notin> {unat (lg_start s)..unat (lg_start s) + nat (lh_n s)} \<longrightarrow> d (unat b) = disk s (unat b))
      \<or> (\<forall>b. unat b \<notin> {unat (lg_start s)..unat (lg_start s) + nat (lh_n s)} \<longrightarrow> d (unat b) = V b))"
proof
  show "returns (commit s) (\<lambda>_ t. dwrites t = dwrites s @ commit_writes s V)"
    using commit_view [OF c] by (auto elim!: returns_mono simp: rest_sameD)
  have "settled (unat (lg_start s)) (nat (lh_n s)) (disk s) d \<or> settled (unat (lg_start s)) (nat (lh_n s)) (committed_disk s V) d"
    using commit_crash [OF c z, of k] recovers_settled [OF r outside_log_committing [OF c]] by blast
  then show "(\<forall>b. unat b \<notin> {unat (lg_start s)..unat (lg_start s) + nat (lh_n s)} \<longrightarrow> d (unat b) = disk s (unat b))
      \<or> (\<forall>b. unat b \<notin> {unat (lg_start s)..unat (lg_start s) + nat (lh_n s)} \<longrightarrow> d (unat b) = V b)"
    by (auto simp: settled_def committed_disk_view [OF c])
qed

text \<open>A transaction that fills block 100 with sevens, up to its commit.\<close>

definition sevens :: "uint \<Rightarrow> block" where
  "sevens = (\<lambda>_ _. 0)(100 := (\<lambda>_. 7))"

definition fill_block :: "uint \<Rightarrow> block \<Rightarrow> 'a log_state_scheme \<Rightarrow> ('a log_state_scheme, unit) outcome" where
  "fill_block n d s = andthen (bread 1 n s) (\<lambda>b s. andthen (tx_write b d s) (\<lambda>_ s. brelse b s))"

lemma fill_block_tview:
  assumes "tview s V [] (Suc R) L" "n < disksize s"
  shows "returns (fill_block n d s) (\<lambda>_ t. tview t (V(n := d)) [] R (insert n L) \<and> tx_same s t)"
  unfolding fill_block_def using tx.update_block [of s V "[]" R L n "\<lambda>_. d"] assms by simp

definition in_tx :: log_state where
  "in_tx = final (andthen (begin_op (binit zero_disk)) (\<lambda>_ s. fill_block 100 (\<lambda>_. 7) s)) zero_disk"

lemma in_tx_tview: "tview in_tx sevens [] 28 {100}" "tx_same (binit zero_disk\<lparr>lg_outstanding := 1\<rparr>) in_tx"
proof -
  have "returns (andthen (begin_op (binit zero_disk)) (\<lambda>_ s. fill_block 100 (\<lambda>_. 7) s))
      (\<lambda>_ t. tview t sevens [] 28 {100} \<and> tx_same (binit zero_disk\<lparr>lg_outstanding := 1\<rparr>) t)"
  proof (rule returns_andthenI [OF begin_op_idle [OF zero_disk_idle]])
    fix t :: log_state
    assume "tview t (\<lambda>_ _. 0) [] 29 {} \<and> t = binit zero_disk\<lparr>lg_outstanding := 1\<rparr>"
    then show "returns (fill_block 100 (\<lambda>_. 7) t) (\<lambda>_ u. tview u sevens [] 28 {100} \<and> tx_same (binit zero_disk\<lparr>lg_outstanding := 1\<rparr>) u)"
      using fill_block_tview [of t "\<lambda>_ _. 0" 28 "{}" 100 "\<lambda>_. 7"] zero_disk_fields(1) by (auto simp: sevens_def)
  qed
  then have "(\<lambda>t. tview t sevens [] 28 {100} \<and> tx_same (binit zero_disk\<lparr>lg_outstanding := 1\<rparr>) t) in_tx"
    unfolding in_tx_def by (rule returns_final)
  then show "tview in_tx sevens [] 28 {100}" "tx_same (binit zero_disk\<lparr>lg_outstanding := 1\<rparr>) in_tx" by simp_all
qed

lemma in_tx_fields: "lg_start in_tx = 2" "disksize in_tx = 1000" "disk in_tx = (\<lambda>_ _. 0)" "log_placed in_tx"
    "lg_outstanding in_tx = 1" "\<not> lg_committing in_tx"
  using tx_sameD [OF in_tx_tview(2)] zero_disk_fields zero_disk_idle by (simp_all add: idle_def log_placed_def)

lemma in_tx_committing: "committing in_tx sevens"
proof (rule tview_committing [OF in_tx_tview(1) in_tx_fields(4)])
  show "off_log in_tx n" if "n \<in> {100}" for n using that in_tx_fields by (simp add: off_log_def)
  show "lh_n in_tx \<noteq> 0" using in_tx_tview(1) by (auto simp: tview_def log_blocks_def)
qed

theorem commit_crash_atomic_witness:
  "let d = recover_disk 2 (apply_writes (take 2 (commit_writes in_tx sevens)) (disk in_tx)) in
   (\<forall>b. unat b \<notin> {2..2 + nat (lh_n in_tx)} \<longrightarrow> d (unat b) = disk in_tx (unat b))
   \<or> (\<forall>b. unat b \<notin> {2..2 + nat (lh_n in_tx)} \<longrightarrow> d (unat b) = sevens b)"
  using commit_crash_atomic [OF in_tx_committing _ recovers.complete, of 2] in_tx_fields
  by (simp add: load_zero Let_def) blast

text \<open>
  \<^bold>\<open>C23.\<close> The recovery that runs at boot performs the writes the crash model assumes: from a disk
  whose header names at most \<^verbatim>\<open>LOGSIZE\<close> blocks outside the log, \<^verbatim>\<open>recover_from_log\<close> copies every
  logged block home, in order, and then clears the header.
\<close>
theorem recovery_performs_writes:
  assumes "bview u (\<lambda>m. disk u (unat m)) [] {}" "lg_dev u = 1" "lg_start u < disksize u"
    and "head_n (unat (lg_start u)) (disk u) \<le> LOGSIZE" "0 \<le> sint (load32 (disk u (unat (lg_start u))) 0)"
    and "log_wf (u\<lparr>lh_block := head_block (unat (lg_start u)) (disk u)\<rparr>) (head_n (unat (lg_start u)) (disk u))"
  shows "returns (recover_from_log u) (\<lambda>_ t. disk t = recover_disk (unat (lg_start u)) (disk u)
     \<and> dwrites t = dwrites u @ recovery_writes (unat (lg_start u)) (disk u) \<and> lh_n t = 0)"
  by (rule recover_from_log_view [OF assms])

theorem recovery_performs_writes_witness:
  "returns (recover_from_log (binit zero_disk)) (\<lambda>_ t. dwrites t = dwrites (binit zero_disk) @ recovery_writes 2 (\<lambda>_ _. 0))"
proof -
  have "head_n 2 (\<lambda>_ _. 0) = 0" by (simp add: head_n_def load_zero)
  then have "returns (recover_from_log (binit zero_disk)) (\<lambda>_ t. disk t = recover_disk 2 (\<lambda>_ _. 0)
      \<and> dwrites t = dwrites (binit zero_disk) @ recovery_writes 2 (\<lambda>_ _. 0) \<and> lh_n t = 0)"
    using recovery_performs_writes [of "binit zero_disk"] zero_disk_view(1) zero_disk_fields zero_disk_idle
    by (simp add: load_zero idle_def log_placed_def log_wf_def)
  then show ?thesis by (rule returns_mono) simp
qed

text \<open>
  \<^bold>\<open>C20.\<close> Durability. A system call that opens a transaction, replaces one block outside the log and
  closes the transaction returns, and then the block is on the disk with its new contents, every
  other block outside the log is as before, and the log is idle again.
\<close>
theorem transaction_durable:
  assumes s: "idle s V" and n: "off_log s n"
  shows "returns (andthen (begin_op s) (\<lambda>_ s. andthen (fill_block n d s) (\<lambda>_ s. end_op s)))
    (\<lambda>_ t. (\<exists>V'. idle t V') \<and> (\<forall>m. off_log s m \<longrightarrow> disk t (unat m) = (if m = n then d else V m)))"
proof (rule returns_andthenI [OF begin_op_idle [OF s]])
  fix t
  assume t: "tview t V [] 29 {} \<and> t = s\<lparr>lg_outstanding := 1\<rparr>"
  then have "returns (fill_block n d t) (\<lambda>_ u. tview u (V(n := d)) [] 28 (insert n {}) \<and> tx_same t u)"
    using n by (intro fill_block_tview) (auto simp: off_log_def)
  then show "returns (andthen (fill_block n d t) (\<lambda>_ s. end_op s))
    (\<lambda>_ t. (\<exists>V'. idle t V') \<and> (\<forall>m. off_log s m \<longrightarrow> disk t (unat m) = (if m = n then d else V m)))"
  proof (rule returns_andthenI)
    fix u
    assume u: "tview u (V(n := d)) [] 28 (insert n {}) \<and> tx_same t u"
    then have f: "tx_same (s\<lparr>lg_outstanding := 1\<rparr>) u" using t by simp
    have o: "off_log u m = off_log s m" for m using tx_sameD [OF f] by (simp add: off_log_def)
    have "returns (end_op u) (\<lambda>_ w. \<exists>V'. idle w V' \<and> (\<forall>m. off_log u m \<longrightarrow> V' m = (V(n := d)) m \<and> disk w (unat m) = (V(n := d)) m))"
      by (rule returns_mono [OF end_op_commits [OF conjunct1 [OF u]]])
        (use n o s tx_sameD [OF f] in \<open>auto simp: idle_def log_placed_def\<close>)
    then show "returns (end_op u) (\<lambda>_ t. (\<exists>V'. idle t V') \<and> (\<forall>m. off_log s m \<longrightarrow> disk t (unat m) = (if m = n then d else V m)))"
      by (rule returns_mono) (auto simp: o)
  qed
qed

theorem transaction_durable_witness:
  "returns (andthen (begin_op (binit zero_disk)) (\<lambda>_ s. andthen (fill_block 100 (\<lambda>_. 7) s) (\<lambda>_ s. end_op s)))
    (\<lambda>_ t. disk t 100 = (\<lambda>_. 7) \<and> disk t 101 = (\<lambda>_. 0))"
proof -
  have "off_log (binit zero_disk) 100" "off_log (binit zero_disk) 101" using zero_disk_fields by (simp_all add: off_log_def)
  then show ?thesis
    by (intro returns_mono [OF transaction_durable [OF zero_disk_idle]]) force+
qed



text \<open>The writes of a transaction over a list of blocks.\<close>

lemma fill_blocks_tview:
  assumes "tview s V [] (length ns) L" "\<forall>n\<in>set ns. n < disksize s"
  shows "returns (for_each ns (\<lambda>n. fill_block n d) s) (\<lambda>_ t. (\<exists>V'. tview t V' [] 0 (L \<union> set ns)) \<and> tx_same s t)"
  using assms
proof (induction ns arbitrary: s V L)
  case Nil
  then show ?case by auto
next
  case (Cons n ns)
  have "returns (fill_block n d s) (\<lambda>_ t. tview t (V(n := d)) [] (length ns) (insert n L) \<and> tx_same s t)"
    using Cons.prems by (intro fill_block_tview) simp_all
  then show ?case
    unfolding for_each.simps
  proof (rule returns_andthenI, elim conjE)
    fix t
    assume t: "tview t (V(n := d)) [] (length ns) (insert n L)" "tx_same s t"
    have "\<forall>n\<in>set ns. n < disksize t" using Cons.prems tx_sameD [OF t(2)] by simp
    then show "returns (for_each ns (\<lambda>n. fill_block n d) t) (\<lambda>_ t. (\<exists>V'. tview t V' [] 0 (L \<union> set (n # ns))) \<and> tx_same s t)"
      using tx_same_trans [OF t(2)] by (intro returns_mono [OF Cons.IH [OF t(1)]]) auto
  qed
qed

lemma three_ops:
  assumes "idle s V"
  shows "andthen (begin_op s) (\<lambda>_ s. andthen (begin_op s) (\<lambda>_ s. begin_op s)) = Ret () (s\<lparr>lg_outstanding := 3\<rparr>)"
  using assms by (simp add: begin_op_def begin_op_loop_def idle_def)

text \<open>
  \<^bold>\<open>C27.\<close> The reservation of \<^verbatim>\<open>begin_op\<close> is one block too generous. On the log \<^verbatim>\<open>mkfs\<close> makes
  (\<^verbatim>\<open>LOGSIZE\<close> blocks, the header included) three operations are admitted, each with a reservation of
  \<^verbatim>\<open>MAXOPBLOCKS\<close> blocks, but when they have logged 29 different blocks between them, one of them still within its
  reservation of ten, every further \<^verbatim>\<open>log_write\<close> panics.
\<close>
theorem log_reservation_gap:
  assumes s: "idle s V" and ns: "distinct ns" "length ns = 29" "\<forall>n\<in>set ns. n < disksize s"
    and sz: "lg_size s = int LOGSIZE"
  shows "returns (andthen (andthen (begin_op s) (\<lambda>_ s. andthen (begin_op s) (\<lambda>_ s. begin_op s))) (\<lambda>_ s. for_each ns (\<lambda>n. fill_block n d) s))
    (\<lambda>_ t. lg_outstanding t = 3 \<and> lh_n t = 29 \<and> (\<forall>b. log_write b t = Panic ''too big a transaction''))"
proof -
  let ?s = "s\<lparr>lg_outstanding := 3\<rparr>"
  have v: "bview s V [] {}" using s by (simp add: idle_def)
  then have "bview ?s V [] {}" by (subst bview_cong [of ?s s]) simp_all
  moreover have "V n = disk s (unat n)" for n using bview_clean [OF v] by simp
  ultimately have t: "tview ?s V [] (length ns) {}"
    using s ns(2) by (auto simp: tview_def idle_def log_blocks_def log_placed_def)
  have "lh_n t = 29" if "tview t V' [] 0 ({} \<union> set ns)" for t :: "'a log_state_scheme" and V'
  proof -
    have "card (set ns) = 29" using ns distinct_card by fastforce
    moreover have "card (log_blocks t) = nat (lh_n t)" "log_blocks t = set ns" "0 \<le> lh_n t"
      using that by (auto simp: tview_def log_blocks_def card_image)
    ultimately show ?thesis by simp
  qed
  moreover have "lg_outstanding t = 3 \<and> lg_size t = int LOGSIZE" if "tx_same ?s t" for t
    using tx_sameD [OF that] sz by simp
  ultimately have "lg_outstanding t = 3 \<and> lh_n t = 29 \<and> (\<forall>b. log_write b t = Panic ''too big a transaction'')"
    if "(\<exists>V'. tview t V' [] 0 ({} \<union> set ns)) \<and> tx_same ?s t" for t
    using that by (auto simp: log_write_def)
  then show ?thesis
    using fill_blocks_tview [OF t, of d] ns(3) unfolding three_ops [OF s] by (auto elim!: returns_mono)
qed

definition many_blocks :: "uint list" where
  "many_blocks = map (\<lambda>i. 100 + of_nat i) [0..<29]"

theorem log_reservation_gap_witness:
  "returns (andthen (andthen (begin_op (binit zero_disk)) (\<lambda>_ s. andthen (begin_op s) (\<lambda>_ s. begin_op s)))
      (\<lambda>_ s. for_each many_blocks (\<lambda>n. fill_block n (\<lambda>_. 7)) s))
    (\<lambda>_ t. lg_outstanding t = 3 \<and> lh_n t = 29 \<and> (\<forall>b. log_write b t = Panic ''too big a transaction''))"
proof (rule log_reservation_gap [OF zero_disk_idle])
  show "distinct many_blocks" "length many_blocks = 29"
    by (simp_all add: many_blocks_def upt_rec)
  show "\<forall>n\<in>set many_blocks. n < disksize (binit zero_disk)"
    unfolding zero_disk_fields by (simp add: many_blocks_def upt_rec)
  show "lg_size (binit zero_disk) = int LOGSIZE"
    using rest_same_log [OF zero_disk_view(2)] by (simp add: zero_disk_def)
qed

end
