(* ===== verification/Xv6_Inode.thy ===== *)
theory Xv6_Inode
  imports Xv6_Tx
begin

text \<open>
  The lower half of the file system (\<^verbatim>\<open>fs.c\<close>): the block allocator over the free bit map, inodes on
  disk, the cache of inodes in memory with its reference counts and sleep locks, and the map from
  a file's block numbers to disk blocks. A pointer to a cached inode is its index in
  \<^verbatim>\<open>icache.inode\<close>.
\<close>

section \<open>On-disk and in-memory data\<close>

abbreviation "ROOTINO \<equiv> (1::uint)"
abbreviation "NDIRECT \<equiv> (12::nat)"
abbreviation "NINDIRECT \<equiv> (128::nat)"
abbreviation "MAXFILE \<equiv> (140::nat)"
abbreviation "IPB \<equiv> (8::uint)"
abbreviation "BPB \<equiv> (4096::nat)"
abbreviation "DIRSIZ \<equiv> (14::nat)"
abbreviation "T_DIR \<equiv> (1::ushort)"
abbreviation "T_FILE \<equiv> (2::ushort)"
abbreviation "T_DEV \<equiv> (3::ushort)"
abbreviation "I_BUSY \<equiv> (1::uint)"
abbreviation "I_VALID \<equiv> (2::uint)"

record dinode =
  d_type :: ushort
  d_major :: ushort
  d_minor :: ushort
  d_nlink :: ushort
  d_size :: uint
  d_addrs :: "nat \<Rightarrow> uint"

record inode =
  i_dev :: uint
  i_inum :: uint
  i_ref :: int
  i_flags :: uint
  i_type :: ushort
  i_major :: ushort
  i_minor :: ushort
  i_nlink :: ushort
  i_size :: uint
  i_addrs :: "nat \<Rightarrow> uint"

text \<open>
  The functions a driver puts into \<^verbatim>\<open>devsw\<close>. The console is the only device of this kernel, so an
  entry is either null or one of its two functions.
\<close>

datatype devfun = ConsoleRead | ConsoleWrite

record fs_state = log_state +
  fs_sb :: superblock
  icache :: "nat \<Rightarrow> inode"
  devsw_read :: "nat \<Rightarrow> devfun option"
  devsw_write :: "nat \<Rightarrow> devfun option"

definition upd_inode :: "nat \<Rightarrow> (inode \<Rightarrow> inode) \<Rightarrow> 'a fs_state_scheme \<Rightarrow> 'a fs_state_scheme" where
  "upd_inode i f s = s\<lparr>icache := (icache s)(i := f (icache s i))\<rparr>"

definition IBLOCK :: "uint \<Rightarrow> superblock \<Rightarrow> uint" where
  "IBLOCK i sb = i div IPB + sb_inodestart sb"

definition BBLOCK :: "uint \<Rightarrow> superblock \<Rightarrow> uint" where
  "BBLOCK b sb = b div of_nat BPB + sb_bmapstart sb"

text \<open>Entry \<open>k\<close> of an array of \<^verbatim>\<open>struct dinode\<close>: 64 bytes each.\<close>

definition get_dinode :: "block \<Rightarrow> nat \<Rightarrow> dinode" where
  "get_dinode d k = \<lparr>d_type = load16 d (64 * k), d_major = load16 d (64 * k + 2), d_minor = load16 d (64 * k + 4),
     d_nlink = load16 d (64 * k + 6), d_size = load32 d (64 * k + 8), d_addrs = (\<lambda>i. load32 d (64 * k + 12 + 4 * i))\<rparr>"

definition put_addrs :: "nat \<Rightarrow> (nat \<Rightarrow> uint) \<Rightarrow> nat \<Rightarrow> block \<Rightarrow> block" where
  "put_addrs k a n d = fold (\<lambda>i d. store32 (64 * k + 12 + 4 * i) (a i) d) [0..<n] d"

definition put_dinode :: "nat \<Rightarrow> dinode \<Rightarrow> block \<Rightarrow> block" where
  "put_dinode k i d =
     put_addrs k (d_addrs i) (NDIRECT + 1)
      (store32 (64 * k + 8) (d_size i) (store16 (64 * k + 6) (d_nlink i) (store16 (64 * k + 4) (d_minor i)
      (store16 (64 * k + 2) (d_major i) (store16 (64 * k) (d_type i) d)))))"

section \<open>Blocks\<close>

definition bzero :: "uint \<Rightarrow> uint \<Rightarrow> 'a log_state_scheme \<Rightarrow> ('a log_state_scheme, unit) outcome" where
  "bzero dev bno s =
     andthen (bread dev bno s) (\<lambda>bp s.
     andthen (log_write bp (upd_buf bp (\<lambda>k. k\<lparr>b_data := (\<lambda>i. if i < BSIZE then 0 else b_data k i)\<rparr>) s)) (\<lambda>_ s.
     brelse bp s))"

definition bm_get :: "block \<Rightarrow> nat \<Rightarrow> bool" where
  "bm_get d bi \<longleftrightarrow> d (bi div 8) AND push_bit (bi mod 8) 1 \<noteq> 0"

definition bm_set :: "nat \<Rightarrow> block \<Rightarrow> block" where
  "bm_set bi d = d(bi div 8 := d (bi div 8) OR push_bit (bi mod 8) 1)"

definition bm_clear :: "nat \<Rightarrow> block \<Rightarrow> block" where
  "bm_clear bi d = d(bi div 8 := d (bi div 8) AND NOT (push_bit (bi mod 8) 1))"

definition balloc_in :: "uint \<Rightarrow> nat \<Rightarrow> 'a fs_state_scheme \<Rightarrow> ('a fs_state_scheme, uint option) outcome" where
  "balloc_in dev b s =
     andthen (bread dev (BBLOCK (of_nat b) (fs_sb s)) s) (\<lambda>bp s.
     case find (\<lambda>bi. \<not> bm_get (b_data (bufs s bp)) bi) [0..<min BPB (unat (sb_size (fs_sb s)) - b)] of
       None \<Rightarrow> andthen (brelse bp s) (\<lambda>_ s. Ret None s)
     | Some bi \<Rightarrow>
         andthen (log_write bp (upd_buf bp (\<lambda>k. k\<lparr>b_data := bm_set bi (b_data k)\<rparr>) s)) (\<lambda>_ s.
         andthen (brelse bp s) (\<lambda>_ s.
         andthen (bzero dev (of_nat (b + bi)) s) (\<lambda>_ s.
         Ret (Some (of_nat (b + bi))) s))))"

definition balloc :: "uint \<Rightarrow> 'a fs_state_scheme \<Rightarrow> ('a fs_state_scheme, uint) outcome" where
  "balloc dev s =
     andthen (for_until (map (\<lambda>k. k * BPB) [0..<(unat (sb_size (fs_sb s)) + BPB - 1) div BPB]) (balloc_in dev) s) (\<lambda>r s.
     case r of Some b \<Rightarrow> Ret b s | None \<Rightarrow> Panic ''balloc: out of blocks'')"

definition bfree :: "uint \<Rightarrow> uint \<Rightarrow> 'a fs_state_scheme \<Rightarrow> ('a fs_state_scheme, unit) outcome" where
  "bfree dev b s =
     andthen (readsb dev s) (\<lambda>sb s.
     let s = s\<lparr>fs_sb := sb\<rparr> in
     andthen (bread dev (BBLOCK b (fs_sb s)) s) (\<lambda>bp s.
     let bi = unat b mod BPB in
     if \<not> bm_get (b_data (bufs s bp)) bi then Panic ''freeing free block''
     else
       andthen (log_write bp (upd_buf bp (\<lambda>k. k\<lparr>b_data := bm_clear bi (b_data k)\<rparr>) s)) (\<lambda>_ s.
       brelse bp s)))"

section \<open>Inodes\<close>

text \<open>\<^verbatim>\<open>iinit\<close>: what it prints on the console is left out.\<close>

definition iinit :: "uint \<Rightarrow> 'a fs_state_scheme \<Rightarrow> ('a fs_state_scheme, unit) outcome" where
  "iinit dev s = andthen (readsb dev s) (\<lambda>sb s. Ret () (s\<lparr>fs_sb := sb\<rparr>))"

definition iget :: "uint \<Rightarrow> uint \<Rightarrow> 'a fs_state_scheme \<Rightarrow> ('a fs_state_scheme, nat) outcome" where
  "iget dev inum s =
     andthen (acquire LkIcache s) (\<lambda>_ s.
     case find (\<lambda>i. i_ref (icache s i) > 0 \<and> i_dev (icache s i) = dev \<and> i_inum (icache s i) = inum) [0..<NINODE] of
       Some ip \<Rightarrow>
         andthen (release LkIcache (upd_inode ip (\<lambda>i. i\<lparr>i_ref := i_ref i + 1\<rparr>) s)) (\<lambda>_ s. Ret ip s)
     | None \<Rightarrow>
         (case find (\<lambda>i. i_ref (icache s i) = 0) [0..<NINODE] of
            None \<Rightarrow> Panic ''iget: no inodes''
          | Some ip \<Rightarrow>
              andthen (release LkIcache (upd_inode ip (\<lambda>i. i\<lparr>i_dev := dev, i_inum := inum, i_ref := 1, i_flags := 0\<rparr>) s)) (\<lambda>_ s.
              Ret ip s)))"

definition ialloc_one :: "uint \<Rightarrow> ushort \<Rightarrow> nat \<Rightarrow> 'a fs_state_scheme \<Rightarrow> ('a fs_state_scheme, nat option) outcome" where
  "ialloc_one dev ty inum s =
     andthen (bread dev (IBLOCK (of_nat inum) (fs_sb s)) s) (\<lambda>bp s.
     let k = inum mod 8 in
     if load16 (b_data (bufs s bp)) (64 * k) = 0 then
       andthen (log_write bp (upd_buf bp (\<lambda>b. b\<lparr>b_data := store16 (64 * k) ty (\<lambda>i. if 64 * k \<le> i \<and> i < 64 * k + 64 then 0 else b_data b i)\<rparr>) s)) (\<lambda>_ s.
       andthen (brelse bp s) (\<lambda>_ s.
       andthen (iget dev (of_nat inum) s) (\<lambda>ip s. Ret (Some ip) s)))
     else andthen (brelse bp s) (\<lambda>_ s. Ret None s))"

definition ialloc :: "uint \<Rightarrow> ushort \<Rightarrow> 'a fs_state_scheme \<Rightarrow> ('a fs_state_scheme, nat) outcome" where
  "ialloc dev ty s =
     andthen (for_until [1..<unat (sb_ninodes (fs_sb s))] (ialloc_one dev ty) s) (\<lambda>r s.
     case r of Some ip \<Rightarrow> Ret ip s | None \<Rightarrow> Panic ''ialloc: no inodes'')"

definition to_dinode :: "inode \<Rightarrow> dinode" where
  "to_dinode i = \<lparr>d_type = i_type i, d_major = i_major i, d_minor = i_minor i, d_nlink = i_nlink i, d_size = i_size i, d_addrs = i_addrs i\<rparr>"

definition iupdate :: "nat \<Rightarrow> 'a fs_state_scheme \<Rightarrow> ('a fs_state_scheme, unit) outcome" where
  "iupdate ip s =
     andthen (bread (i_dev (icache s ip)) (IBLOCK (i_inum (icache s ip)) (fs_sb s)) s) (\<lambda>bp s.
     let i = icache s ip in
     andthen (log_write bp (upd_buf bp (\<lambda>b. b\<lparr>b_data := put_dinode (unat (i_inum i mod IPB)) (to_dinode i) (b_data b)\<rparr>) s)) (\<lambda>_ s.
     brelse bp s))"

definition idup :: "nat \<Rightarrow> 'a fs_state_scheme \<Rightarrow> ('a fs_state_scheme, nat) outcome" where
  "idup ip s =
     andthen (acquire LkIcache s) (\<lambda>_ s.
     andthen (release LkIcache (upd_inode ip (\<lambda>i. i\<lparr>i_ref := i_ref i + 1\<rparr>) s)) (\<lambda>_ s. Ret ip s))"

text \<open>
  \<^verbatim>\<open>ilock\<close> sleeps while another process has the inode; the fields of the disk inode are copied
  when the entry is not valid. Only the first \<open>NDIRECT + 1\<close> addresses are copied.
\<close>

definition load_inode :: "dinode \<Rightarrow> inode \<Rightarrow> inode" where
  "load_inode d i = i\<lparr>i_type := d_type d, i_major := d_major d, i_minor := d_minor d, i_nlink := d_nlink d, i_size := d_size d,
     i_addrs := (\<lambda>j. if j < NDIRECT + 1 then d_addrs d j else i_addrs i j)\<rparr>"

definition ilock_loop :: "nat \<Rightarrow> 'a fs_state_scheme \<Rightarrow> ('a fs_state_scheme, unit) outcome" where
  "ilock_loop ip s =
     (if i_flags (icache s ip) AND I_BUSY \<noteq> 0 then sleep (ChInode ip) LkIcache s
      else andthen (release LkIcache (upd_inode ip (\<lambda>i. i\<lparr>i_flags := i_flags i OR I_BUSY\<rparr>) s)) (\<lambda>_ s.
        if i_flags (icache s ip) AND I_VALID = 0 then
          andthen (bread (i_dev (icache s ip)) (IBLOCK (i_inum (icache s ip)) (fs_sb s)) s) (\<lambda>bp s.
          let d = get_dinode (b_data (bufs s bp)) (unat (i_inum (icache s ip) mod IPB)) in
          andthen (brelse bp (upd_inode ip (load_inode d) s)) (\<lambda>_ s.
          let s = upd_inode ip (\<lambda>i. i\<lparr>i_flags := i_flags i OR I_VALID\<rparr>) s in
          if i_type (icache s ip) = 0 then Panic ''ilock: no type'' else Ret () s))
        else Ret () s))"

definition ilock :: "nat \<Rightarrow> 'a fs_state_scheme \<Rightarrow> ('a fs_state_scheme, unit) outcome" where
  "ilock ip s =
     (if i_ref (icache s ip) < 1 then Panic ''ilock''
      else andthen (acquire LkIcache s) (\<lambda>_ s. ilock_loop ip s))"

definition ilock_resume :: "nat \<Rightarrow> 'a fs_state_scheme \<Rightarrow> ('a fs_state_scheme, unit) outcome" where
  "ilock_resume ip s = andthen (sleep_resume LkIcache s) (\<lambda>_ s. ilock_loop ip s)"

definition iunlock :: "nat \<Rightarrow> 'a fs_state_scheme \<Rightarrow> ('a fs_state_scheme, unit) outcome" where
  "iunlock ip s =
     (if i_flags (icache s ip) AND I_BUSY = 0 \<or> i_ref (icache s ip) < 1 then Panic ''iunlock''
      else andthen (acquire LkIcache s) (\<lambda>_ s.
        andthen (wakeup (ChInode ip) (upd_inode ip (\<lambda>i. i\<lparr>i_flags := i_flags i AND NOT I_BUSY\<rparr>) s)) (\<lambda>_ s.
        release LkIcache s)))"

section \<open>Inode content\<close>

definition bmap :: "nat \<Rightarrow> nat \<Rightarrow> 'a fs_state_scheme \<Rightarrow> ('a fs_state_scheme, uint) outcome" where
  "bmap ip bn s =
     (if bn < NDIRECT then
        let addr = i_addrs (icache s ip) bn in
        if addr = 0 then
          andthen (balloc (i_dev (icache s ip)) s) (\<lambda>addr s.
          Ret addr (upd_inode ip (\<lambda>i. i\<lparr>i_addrs := (i_addrs i)(bn := addr)\<rparr>) s))
        else Ret addr s
      else if bn - NDIRECT < NINDIRECT then
        let bn = bn - NDIRECT; addr = i_addrs (icache s ip) NDIRECT in
        andthen (if addr = 0 then
                   andthen (balloc (i_dev (icache s ip)) s) (\<lambda>addr s.
                   Ret addr (upd_inode ip (\<lambda>i. i\<lparr>i_addrs := (i_addrs i)(NDIRECT := addr)\<rparr>) s))
                 else Ret addr s) (\<lambda>addr s.
        andthen (bread (i_dev (icache s ip)) addr s) (\<lambda>bp s.
        let addr = load32 (b_data (bufs s bp)) (4 * bn) in
        andthen (if addr = 0 then
                   andthen (balloc (i_dev (icache s ip)) s) (\<lambda>addr s.
                   andthen (log_write bp (upd_buf bp (\<lambda>b. b\<lparr>b_data := store32 (4 * bn) addr (b_data b)\<rparr>) s)) (\<lambda>_ s.
                   Ret addr s))
                 else Ret addr s) (\<lambda>addr s.
        andthen (brelse bp s) (\<lambda>_ s. Ret addr s))))
      else Panic ''bmap: out of range'')"

definition itrunc_direct :: "nat \<Rightarrow> nat \<Rightarrow> 'a fs_state_scheme \<Rightarrow> ('a fs_state_scheme, unit) outcome" where
  "itrunc_direct ip i s =
     (if i_addrs (icache s ip) i \<noteq> 0 then
        andthen (bfree (i_dev (icache s ip)) (i_addrs (icache s ip) i) s) (\<lambda>_ s.
        Ret () (upd_inode ip (\<lambda>k. k\<lparr>i_addrs := (i_addrs k)(i := 0)\<rparr>) s))
      else Ret () s)"

definition itrunc_indirect :: "nat \<Rightarrow> nat \<Rightarrow> nat \<Rightarrow> 'a fs_state_scheme \<Rightarrow> ('a fs_state_scheme, unit) outcome" where
  "itrunc_indirect ip bp j s =
     (let a = load32 (b_data (bufs s bp)) (4 * j) in
      if a \<noteq> 0 then bfree (i_dev (icache s ip)) a s else Ret () s)"

definition itrunc :: "nat \<Rightarrow> 'a fs_state_scheme \<Rightarrow> ('a fs_state_scheme, unit) outcome" where
  "itrunc ip s =
     andthen (for_each [0..<NDIRECT] (itrunc_direct ip) s) (\<lambda>_ s.
     andthen (if i_addrs (icache s ip) NDIRECT \<noteq> 0 then
                andthen (bread (i_dev (icache s ip)) (i_addrs (icache s ip) NDIRECT) s) (\<lambda>bp s.
                andthen (for_each [0..<NINDIRECT] (itrunc_indirect ip bp) s) (\<lambda>_ s.
                andthen (brelse bp s) (\<lambda>_ s.
                andthen (bfree (i_dev (icache s ip)) (i_addrs (icache s ip) NDIRECT) s) (\<lambda>_ s.
                Ret () (upd_inode ip (\<lambda>k. k\<lparr>i_addrs := (i_addrs k)(NDIRECT := 0)\<rparr>) s)))))
              else Ret () s) (\<lambda>_ s.
     iupdate ip (upd_inode ip (\<lambda>k. k\<lparr>i_size := 0\<rparr>) s)))"

definition iput :: "nat \<Rightarrow> 'a fs_state_scheme \<Rightarrow> ('a fs_state_scheme, unit) outcome" where
  "iput ip s =
     andthen (acquire LkIcache s) (\<lambda>_ s.
     andthen
      (if i_ref (icache s ip) = 1 \<and> i_flags (icache s ip) AND I_VALID \<noteq> 0 \<and> i_nlink (icache s ip) = 0 then
         if i_flags (icache s ip) AND I_BUSY \<noteq> 0 then Panic ''iput busy''
         else
           andthen (release LkIcache (upd_inode ip (\<lambda>i. i\<lparr>i_flags := i_flags i OR I_BUSY\<rparr>) s)) (\<lambda>_ s.
           andthen (itrunc ip s) (\<lambda>_ s.
           andthen (iupdate ip (upd_inode ip (\<lambda>i. i\<lparr>i_type := 0\<rparr>) s)) (\<lambda>_ s.
           andthen (acquire LkIcache s) (\<lambda>_ s.
           wakeup (ChInode ip) (upd_inode ip (\<lambda>i. i\<lparr>i_flags := 0\<rparr>) s)))))
       else Ret () s) (\<lambda>_ s.
     release LkIcache (upd_inode ip (\<lambda>i. i\<lparr>i_ref := i_ref i - 1\<rparr>) s)))"

definition iunlockput :: "nat \<Rightarrow> 'a fs_state_scheme \<Rightarrow> ('a fs_state_scheme, unit) outcome" where
  "iunlockput ip s = andthen (iunlock ip s) (\<lambda>_ s. iput ip s)"

end
