(* ===== verification/Xv6_Printf.thy ===== *)
theory Xv6_Printf
  imports Xv6_String
begin

text \<open>
  Formatted output: the text that the kernel's \<^verbatim>\<open>cprintf\<close> (\<^verbatim>\<open>console.c\<close>) and the user library's
  \<^verbatim>\<open>printf\<close> (\<^verbatim>\<open>printf.c\<close>) produce. The characters go to the console or to a descriptor one at a time,
  in the order of the list.
\<close>

section \<open>Numbers\<close>

text \<open>
  The digits of a number, last one first: the do-while loop of both \<^verbatim>\<open>printint\<close>. The bases in
  use are 10 and 16; the test on the base makes the function total.
\<close>

function digit_loop :: "nat \<Rightarrow> nat \<Rightarrow> nat list" where
  "digit_loop x base = x mod base # (if x div base \<noteq> 0 \<and> 2 \<le> base then digit_loop (x div base) base else [])"
  by pat_completeness auto
termination
  by (relation "measure fst") (auto simp: div_less_dividend div_greater_zero_iff)

declare digit_loop.simps [simp del]

text \<open>\<^verbatim>\<open>printint\<close> of \<^verbatim>\<open>console.c\<close>: \<^verbatim>\<open>sign\<close> is reused for the outcome of the test.\<close>

definition printint :: "uint \<Rightarrow> nat \<Rightarrow> bool \<Rightarrow> string" where
  "printint xx base sign =
     (let sign = (sign \<and> sint xx < 0);
          x = (if sign then - xx else xx);
          buf = map (\<lambda>d. ''0123456789abcdef'' ! d) (digit_loop (unat x) base);
          buf = (if sign then buf @ ''-'' else buf)
      in rev buf)"

text \<open>\<^verbatim>\<open>printint\<close> of \<^verbatim>\<open>printf.c\<close>.\<close>

definition printint_user :: "uint \<Rightarrow> nat \<Rightarrow> bool \<Rightarrow> string" where
  "printint_user xx base sg =
     (let neg = (sg \<and> sint xx < 0);
          x = (if neg then - xx else xx);
          buf = map (\<lambda>d. ''0123456789ABCDEF'' ! d) (digit_loop (unat x) base);
          buf = (if neg then buf @ ''-'' else buf)
      in rev buf)"

section \<open>Formats\<close>

text \<open>
  An argument is a number or a string pointer, null or not. Fetching an argument that was not
  passed, or one of the other kind, is undefined (\<open>None\<close>).
\<close>

datatype carg = ArgInt uint | ArgStr "string option"

definition arg_string :: "string option \<Rightarrow> string" where
  "arg_string s = (case s of None \<Rightarrow> ''(null)'' | Some s \<Rightarrow> s)"

fun cprintf_text :: "string \<Rightarrow> carg list \<Rightarrow> string option" where
  "cprintf_text [] args = Some []"
| "cprintf_text (c # cs) args =
     (if c \<noteq> CHR ''%'' then map_option (\<lambda>r. c # r) (cprintf_text cs args)
      else case cs of
        [] \<Rightarrow> Some []
      | c # cs \<Rightarrow>
          if c = CHR ''d'' then
            (case args of ArgInt x # as \<Rightarrow> map_option (\<lambda>r. printint x 10 True @ r) (cprintf_text cs as) | _ \<Rightarrow> None)
          else if c = CHR ''x'' \<or> c = CHR ''p'' then
            (case args of ArgInt x # as \<Rightarrow> map_option (\<lambda>r. printint x 16 False @ r) (cprintf_text cs as) | _ \<Rightarrow> None)
          else if c = CHR ''s'' then
            (case args of ArgStr p # as \<Rightarrow> map_option (\<lambda>r. arg_string p @ r) (cprintf_text cs as) | _ \<Rightarrow> None)
          else if c = CHR ''%'' then map_option (\<lambda>r. CHR ''%'' # r) (cprintf_text cs args)
          else map_option (\<lambda>r. CHR ''%'' # c # r) (cprintf_text cs args))"

text \<open>The user's \<^verbatim>\<open>printf\<close> keeps in \<^verbatim>\<open>state\<close> whether the last character was a percent sign.\<close>

fun printf_loop :: "bool \<Rightarrow> string \<Rightarrow> carg list \<Rightarrow> string option" where
  "printf_loop st [] args = Some []"
| "printf_loop st (c # cs) args =
     (if \<not> st then
        if c = CHR ''%'' then printf_loop True cs args
        else map_option (\<lambda>r. c # r) (printf_loop False cs args)
      else if c = CHR ''d'' then
        (case args of ArgInt x # as \<Rightarrow> map_option (\<lambda>r. printint_user x 10 True @ r) (printf_loop False cs as) | _ \<Rightarrow> None)
      else if c = CHR ''x'' \<or> c = CHR ''p'' then
        (case args of ArgInt x # as \<Rightarrow> map_option (\<lambda>r. printint_user x 16 False @ r) (printf_loop False cs as) | _ \<Rightarrow> None)
      else if c = CHR ''s'' then
        (case args of ArgStr p # as \<Rightarrow> map_option (\<lambda>r. arg_string p @ r) (printf_loop False cs as) | _ \<Rightarrow> None)
      else if c = CHR ''c'' then
        (case args of ArgInt x # as \<Rightarrow> map_option (\<lambda>r. char_of (unat x) # r) (printf_loop False cs as) | _ \<Rightarrow> None)
      else if c = CHR ''%'' then map_option (\<lambda>r. c # r) (printf_loop False cs args)
      else map_option (\<lambda>r. CHR ''%'' # c # r) (printf_loop False cs args))"

definition printf :: "string \<Rightarrow> carg list \<Rightarrow> string option" where
  "printf fmt args = printf_loop False fmt args"

section \<open>Digits\<close>

fun digits_value :: "nat \<Rightarrow> nat list \<Rightarrow> nat" where
  "digits_value base [] = 0"
| "digits_value base (d # ds) = d + base * digits_value base ds"

lemma digit_loop_value: "2 \<le> base \<Longrightarrow> digits_value base (digit_loop x base) = x"
proof (induction x base rule: digit_loop.induct)
  case (1 x base)
  show ?case
  proof (cases "x div base = 0")
    case True
    then have "x < base" using 1(2) by (simp add: div_eq_0_iff)
    then show ?thesis using True by (subst digit_loop.simps) simp
  next
    case False
    then show ?thesis using 1 by (subst digit_loop.simps) simp
  qed
qed

lemma digit_loop_less: "2 \<le> base \<Longrightarrow> d \<in> set (digit_loop x base) \<Longrightarrow> d < base"
proof (induction x base rule: digit_loop.induct)
  case (1 x base)
  then show ?case by (subst (asm) (2) digit_loop.simps) (auto split: if_splits)
qed

text \<open>The array \<^verbatim>\<open>buf\<close> holds 16 characters.\<close>

lemma digit_loop_length: "2 \<le> base \<Longrightarrow> x < base ^ n \<Longrightarrow> 0 < n \<Longrightarrow> length (digit_loop x base) \<le> n"
proof (induction x base arbitrary: n rule: digit_loop.induct)
  case (1 x base)
  show ?case
  proof (cases "x div base \<noteq> 0")
    case True
    then obtain m where m: "n = Suc m" "0 < m" using 1(3,4) by (cases n; cases "n - 1") (auto)
    then have "x div base < base ^ m" using 1(2,3) by (simp add: less_mult_imp_div_less mult.commute)
    then have "length (digit_loop (x div base) base) \<le> m" using 1 True m by simp
    then show ?thesis using m by (subst digit_loop.simps) simp
  next
    case False
    then show ?thesis using 1(4) by (subst digit_loop.simps) simp
  qed
qed

section \<open>Printing and reading numbers\<close>

text \<open>A string in memory: its characters and then zeros.\<close>

definition cstr :: "string \<Rightarrow> nat \<Rightarrow> uchar" where
  "cstr s i = (if i < length s then of_char (s ! i) else 0)"

lemma atoi_from_digits:
  assumes "\<And>j. i \<le> j \<Longrightarrow> j < length s \<Longrightarrow> 48 \<le> sint (cstr s j) \<and> sint (cstr s j) \<le> 57"
  shows "i \<le> length s \<Longrightarrow> atoi_from i n (cstr s) = Some (foldl (\<lambda>n c. n * 10 + ucast (of_char c :: uchar) - 48) n (drop i s))"
  using assms
proof (induction "length s - i" arbitrary: i n)
  case 0
  then show ?case by (subst atoi_from.simps) (simp add: cstr_def)
next
  case (Suc k)
  then have i: "i < length s" by simp
  have "drop i s = s ! i # drop (Suc i) s" using i by (simp add: Cons_nth_drop_Suc)
  moreover have "cstr s i = of_char (s ! i)" using i by (simp add: cstr_def)
  moreover have "atoi_from (Suc i) m (cstr s) = Some (foldl (\<lambda>n c. n * 10 + ucast (of_char c :: uchar) - 48) m (drop (Suc i) s))" for m
    using Suc i by auto
  moreover have "48 \<le> sint (cstr s i) \<and> sint (cstr s i) \<le> 57" using Suc.prems i by simp
  ultimately show ?case by (subst atoi_from.simps) simp
qed

lemma digit_char:
  assumes "d < 10"
  shows "(of_char (''0123456789ABCDEF'' ! d) :: uchar) = 48 + of_nat d"
proof -
  have "d \<in> set [0..<10]" using assms by simp
  moreover have "\<forall>d\<in>set [0..<10]. (of_char (''0123456789ABCDEF'' ! d) :: uchar) = 48 + of_nat d" by code_simp
  ultimately show ?thesis by blast
qed

lemma sint_digit: "d < 10 \<Longrightarrow> sint (48 + of_nat d :: uchar) = 48 + int d"
proof -
  assume "d < 10"
  then have "d \<in> set [0..<10]" by simp
  moreover have "\<forall>d\<in>set [0..<10]. sint (48 + of_nat d :: uchar) = 48 + int d" by code_simp
  ultimately show ?thesis by blast
qed

lemma ucast_digit: "d < 10 \<Longrightarrow> (ucast (48 + of_nat d :: uchar) :: uint) = 48 + of_nat d"
proof -
  assume "d < 10"
  then have "d \<in> set [0..<10]" by simp
  moreover have "\<forall>d\<in>set [0..<10]. (ucast (48 + of_nat d :: uchar) :: uint) = 48 + of_nat d" by code_simp
  ultimately show ?thesis by blast
qed

lemma foldl_digits:
  assumes "\<And>d. d \<in> set ds \<Longrightarrow> d < 10"
  shows "foldl (\<lambda>n c. n * 10 + ucast (of_char c :: uchar) - 48) 0 (rev (map (\<lambda>d. ''0123456789ABCDEF'' ! d) ds))
    = (of_nat (digits_value 10 ds) :: uint)"
  using assms
proof (induction ds)
  case (Cons d ds)
  have "(ucast (of_char (''0123456789ABCDEF'' ! d) :: uchar) :: uint) = 48 + of_nat d"
    unfolding digit_char [OF Cons.prems [of d, simplified]] using ucast_digit Cons.prems by simp
  then show ?case using Cons by (simp add: algebra_simps)
qed simp

lemma atoi_digits:
  "atoi (cstr (rev (map (\<lambda>d. ''0123456789ABCDEF'' ! d) (digit_loop x 10)))) = Some (of_nat x)"
proof -
  let ?s = "rev (map (\<lambda>d. ''0123456789ABCDEF'' ! d) (digit_loop x 10))"
  have d: "e < 10" if "e \<in> set (digit_loop x 10)" for e using digit_loop_less [of 10] that by simp
  have "48 \<le> sint (cstr ?s j) \<and> sint (cstr ?s j) \<le> 57" if "j < length ?s" for j
  proof -
    define e where "e = digit_loop x 10 ! (length (digit_loop x 10) - Suc j)"
    have e: "e < 10" "?s ! j = ''0123456789ABCDEF'' ! e" using that d by (simp_all add: rev_nth e_def)
    then have "cstr ?s j = 48 + of_nat e" using that unfolding cstr_def e(2) digit_char [OF e(1)] by simp
    then show ?thesis using sint_digit [OF e(1)] e(1) by simp
  qed
  then have "atoi (cstr ?s) = Some (foldl (\<lambda>n c. n * 10 + ucast (of_char c :: uchar) - 48) 0 ?s)"
    using atoi_from_digits [of 0 ?s 0] by (simp add: atoi_def)
  then show ?thesis using foldl_digits [OF d] by (simp add: digit_loop_value)
qed

text \<open>
  \<^bold>\<open>C35.\<close> Numbers survive printing and reading: for every 32-bit value the text \<^verbatim>\<open>printf\<close> writes
  for \<^verbatim>\<open>%d\<close> fits the 16 characters of its buffer, and \<^verbatim>\<open>atoi\<close> reads a non-negative number back as
  itself; of a negative number it reads back the magnitude that follows the minus sign.
\<close>
theorem printf_atoi_roundtrip:
  "length (printint_user xx 10 True) \<le> 16
   \<and> (if sint xx < 0 then hd (printint_user xx 10 True) = CHR ''-'' \<and> atoi (cstr (tl (printint_user xx 10 True))) = Some (- xx)
      else atoi (cstr (printint_user xx 10 True)) = Some xx)"
proof -
  have "unat y < 10 ^ 10" for y :: uint using unat_bound [of y] by simp
  then have "length (digit_loop (unat y) 10) \<le> 10" for y :: uint by (intro digit_loop_length) simp_all
  then have "length (printint_user xx 10 True) \<le> 16"
    by (auto simp: printint_user_def Let_def intro: order_trans [of _ 10] order_trans [of _ 11])
  then show ?thesis using atoi_digits by (simp add: printint_user_def Let_def)
qed

end
