(* ===== verification/Xv6_Console.thy ===== *)
theory Xv6_Console
  imports Xv6_Inode Xv6_Printf Xv6_Spinlock
begin

text \<open>
  The console (\<^verbatim>\<open>console.c\<close>): formatted kernel output, the cursor and scrolling of the text screen,
  the line editor that runs on keyboard interrupts, and the device functions through which
  processes read and write the console; and the process listings of \<^verbatim>\<open>proc.c\<close>.
\<close>

abbreviation "INPUT_BUF \<equiv> (128::uint)"
abbreviation "BACKSPACE \<equiv> (0x100::int)"

record con_state = fs_state +
  cons_locking :: bool
  in_buf :: "nat \<Rightarrow> uchar"
  in_r :: uint
  in_w :: uint
  in_e :: uint

section \<open>Output\<close>

text \<open>
  \<^verbatim>\<open>consputc\<close>: the characters sent to the serial port; the screen follows below. The test of
  \<^verbatim>\<open>panicked\<close> has no counterpart, since a panic ends every execution of the model.
\<close>

definition consputc :: "int \<Rightarrow> 'a kstate_scheme \<Rightarrow> 'a kstate_scheme" where
  "consputc c s = cputs (if c = BACKSPACE then [CHR 0x08, CHR 0x20, CHR 0x08] else [char_of (nat (c mod 256))]) s"

definition cprintf :: "string \<Rightarrow> carg list \<Rightarrow> 'a con_state_scheme \<Rightarrow> ('a con_state_scheme, unit) outcome" where
  "cprintf fmt args s =
     (let locking = cons_locking s in
      andthen (if locking then acquire LkCons s else Ret () s) (\<lambda>_ s.
      case cprintf_text fmt args of
        None \<Rightarrow> Undef ''cprintf: arguments''
      | Some t \<Rightarrow> if locking then release LkCons (cputs t s) else Ret () (cputs t s)))"

text \<open>
  The text screen: 25 rows of 80 cells of which 24 are used, and the cursor position that the
  display controller keeps.
\<close>

record cga =
  crt :: "nat \<Rightarrow> ushort"
  crt_pos :: int

definition cgaputc :: "int \<Rightarrow> cga \<Rightarrow> (cga, unit) outcome" where
  "cgaputc c g =
     (let pos = crt_pos g;
          (m, pos) = (if c = 10 then (crt g, pos + (80 - pos mod 80))
                      else if c = BACKSPACE then (crt g, if pos > 0 then pos - 1 else pos)
                      else ((crt g)(nat pos := (of_int c AND 0xFF) OR 0x0700), pos + 1)) in
      if pos < 0 \<or> pos > 25 * 80 then Panic ''pos under/overflow''
      else
        let (m, pos) = (if pos div 80 \<ge> 24 then
                          let m = (\<lambda>i. if i < 23 * 80 then m (i + 80) else m i); pos = pos - 80 in
                          ((\<lambda>i. if nat pos \<le> i \<and> i < 24 * 80 then 0 else m i), pos)
                        else (m, pos)) in
        Ret () \<lparr>crt = m(nat pos := 0x20 OR 0x0700), crt_pos = pos\<rparr>)"

section \<open>Process listings (proc.c)\<close>

definition state_name :: "procstate \<Rightarrow> string" where
  "state_name st = (case st of UNUSED \<Rightarrow> ''unused'' | EMBRYO \<Rightarrow> ''embryo'' | SLEEPING \<Rightarrow> ''sleep ''
     | RUNNABLE \<Rightarrow> ''runble'' | RUNNING \<Rightarrow> ''run   '' | ZOMBIE \<Rightarrow> ''zombie'')"

definition procdump_one :: "nat \<Rightarrow> 'a con_state_scheme \<Rightarrow> ('a con_state_scheme, unit) outcome" where
  "procdump_one i s =
     (let p = ptable s i in
      if p_state p = UNUSED then Ret () s
      else
        andthen (cprintf ''%d %s %s'' [ArgInt (of_int (p_pid p)), ArgStr (Some (state_name (p_state p))), ArgStr (Some (p_name p))] s) (\<lambda>_ s.
        andthen
         (if p_state p = SLEEPING then
            let pc = getcallerpcs (c_ebp (p_context p) + 8) (mem s) (\<lambda>_. 0) in
            for_each (takeWhile (\<lambda>j. pc j \<noteq> 0) [0..<10]) (\<lambda>j s. cprintf '' %p'' [ArgInt (pc j)] s) s
          else Ret () s) (\<lambda>_ s.
        andthen (cprintf ('' PP= %d'' @ [CHR 0x0A]) [ArgInt (of_int (p_priority p))] s) (\<lambda>_ s.
        cprintf [CHR 0x0A] [] s))))"

definition procdump :: "'a con_state_scheme \<Rightarrow> ('a con_state_scheme, unit) outcome" where
  "procdump s = for_each [0..<NPROC] procdump_one s"

definition processinfo_one :: "nat \<Rightarrow> 'a con_state_scheme \<Rightarrow> ('a con_state_scheme, unit) outcome" where
  "processinfo_one i s =
     (let p = ptable s i in
      if p_state p = UNUSED \<or> p_state p = SLEEPING then Ret () s
      else cprintf (''Name:  %s    PID: %d        Priority: %d'' @ [CHR 0x0A])
             [ArgStr (Some (p_name p)), ArgInt (of_int (p_pid p)), ArgInt (of_int (p_priority p))] s)"

definition processinfo :: "'a con_state_scheme \<Rightarrow> ('a con_state_scheme, unit) outcome" where
  "processinfo s =
     andthen (cprintf (''Currently Running Process:'' @ [CHR 0x0A]) [] s) (\<lambda>_ s.
     for_each [0..<NPROC] processinfo_one s)"

section \<open>Input\<close>

text \<open>Control-U: erase the line being edited.\<close>

function kill_line :: "'a con_state_scheme \<Rightarrow> 'a con_state_scheme" where
  "kill_line s =
     (if in_e s \<noteq> in_w s \<and> in_buf s (unat ((in_e s - 1) mod INPUT_BUF)) \<noteq> 10
      then kill_line (consputc BACKSPACE (s\<lparr>in_e := in_e s - 1\<rparr>)) else s)"
  by pat_completeness auto
termination
proof (relation "measure (\<lambda>s. unat (in_e s - in_w s))", simp)
  fix s :: "'a con_state_scheme"
  assume "in_e s \<noteq> in_w s \<and> in_buf s (unat ((in_e s - 1) mod INPUT_BUF)) \<noteq> 10"
  then have "in_e s - in_w s \<noteq> 0" by simp
  then have "unat (in_e s - in_w s - 1) < unat (in_e s - in_w s)" by (simp add: unat_minus_one unat_gt_0)
  then show "(consputc BACKSPACE (s\<lparr>in_e := in_e s - 1\<rparr>), s) \<in> measure (\<lambda>s. unat (in_e s - in_w s))"
    by (simp add: consputc_def cputs_def diff_right_commute)
qed

declare kill_line.simps [simp del]

text \<open>
  \<^verbatim>\<open>consoleintr\<close> handles the characters that \<^verbatim>\<open>getc\<close> delivers until it returns a negative number: the
  argument is the list of those characters. Its outcome says whether the listing was asked for
  with Control-P.
\<close>

definition consoleintr_char :: "int \<Rightarrow> 'a con_state_scheme \<Rightarrow> ('a con_state_scheme, unit) outcome" where
  "consoleintr_char c s =
     (if c = 16 then Ret () s
      else if c = 21 then Ret () (kill_line s)
      else if c = 8 \<or> c = 127 then
        Ret () (if in_e s \<noteq> in_w s then consputc BACKSPACE (s\<lparr>in_e := in_e s - 1\<rparr>) else s)
      else if c \<noteq> 0 \<and> in_e s - in_r s < INPUT_BUF then
        let c = (if c = 13 then 10 else c);
            s = s\<lparr>in_buf := (in_buf s)(unat (in_e s mod INPUT_BUF) := of_int c), in_e := in_e s + 1\<rparr>;
            s = consputc c s in
        if c = 10 \<or> c = 4 \<or> in_e s = in_r s + INPUT_BUF
        then wakeup ChInput (s\<lparr>in_w := in_e s\<rparr>)
        else Ret () s
      else Ret () s)"

definition consoleintr :: "int list \<Rightarrow> 'a con_state_scheme \<Rightarrow> ('a con_state_scheme, unit) outcome" where
  "consoleintr cs s =
     andthen (acquire LkCons s) (\<lambda>_ s.
     andthen (for_each cs consoleintr_char s) (\<lambda>_ s.
     andthen (release LkCons s) (\<lambda>_ s.
     if 16 \<in> set cs then procdump s else Ret () s)))"

text \<open>
  \<^verbatim>\<open>consoleread\<close>. The loop yields what is left of \<open>n\<close> and the bytes stored at \<^verbatim>\<open>dst\<close>, or \<open>None\<close> when the
  process was killed while it waited.
\<close>

primrec consoleread_loop ::
  "nat \<Rightarrow> nat \<Rightarrow> uchar list \<Rightarrow> 'a con_state_scheme \<Rightarrow> ('a con_state_scheme, (nat \<times> uchar list) option) outcome" where
  "consoleread_loop target 0 dst s = Ret (Some (0, dst)) s"
| "consoleread_loop target (Suc n) dst s =
     (if in_r s = in_w s then
        case curproc s of
          None \<Rightarrow> Undef ''consoleread: proc''
        | Some p \<Rightarrow>
            if p_killed (ptable s p) then Ret None s
            else andthen (sleep ChInput LkCons s) (\<lambda>_ _. Undef ''consoleread: sleep'')
      else
        let c = in_buf s (unat (in_r s mod INPUT_BUF)); s = s\<lparr>in_r := in_r s + 1\<rparr> in
        if c = 4 then
          Ret (Some (Suc n, dst)) (if Suc n < target then s\<lparr>in_r := in_r s - 1\<rparr> else s)
        else if c = 10 then Ret (Some (n, dst @ [c])) s
        else consoleread_loop target n (dst @ [c]) s)"

definition consoleread_end ::
  "nat \<Rightarrow> nat \<Rightarrow> (nat \<times> uchar list) option \<Rightarrow> 'a con_state_scheme \<Rightarrow> ('a con_state_scheme, int \<times> uchar list) outcome" where
  "consoleread_end ip target r s =
     andthen (release LkCons s) (\<lambda>_ s.
     andthen (ilock ip s) (\<lambda>_ s.
     case r of None \<Rightarrow> Ret (- 1, []) s | Some (n, dst) \<Rightarrow> Ret (int target - int n, dst) s))"

definition consoleread :: "nat \<Rightarrow> nat \<Rightarrow> 'a con_state_scheme \<Rightarrow> ('a con_state_scheme, int \<times> uchar list) outcome" where
  "consoleread ip n s =
     andthen (iunlock ip s) (\<lambda>_ s.
     andthen (acquire LkCons s) (\<lambda>_ s.
     andthen (consoleread_loop n n [] s) (\<lambda>r s. consoleread_end ip n r s)))"

text \<open>A process that slept in \<^verbatim>\<open>consoleread\<close> with \<open>n\<close> bytes to go resumes at the head of the loop.\<close>

definition consoleread_resume ::
  "nat \<Rightarrow> nat \<Rightarrow> nat \<Rightarrow> uchar list \<Rightarrow> 'a con_state_scheme \<Rightarrow> ('a con_state_scheme, int \<times> uchar list) outcome" where
  "consoleread_resume ip target n dst s =
     andthen (sleep_resume LkCons s) (\<lambda>_ s.
     andthen (consoleread_loop target n dst s) (\<lambda>r s. consoleread_end ip target r s))"

definition consolewrite :: "nat \<Rightarrow> (nat \<Rightarrow> uchar) \<Rightarrow> nat \<Rightarrow> 'a con_state_scheme \<Rightarrow> ('a con_state_scheme, int) outcome" where
  "consolewrite ip buf n s =
     andthen (iunlock ip s) (\<lambda>_ s.
     andthen (acquire LkCons s) (\<lambda>_ s.
     andthen (release LkCons (fold (\<lambda>i. consputc (uint (buf i))) [0..<n] s)) (\<lambda>_ s.
     andthen (ilock ip s) (\<lambda>_ s. Ret (int n) s))))"

definition consoleinit :: "'a con_state_scheme \<Rightarrow> 'a con_state_scheme" where
  "consoleinit s = s\<lparr>devsw_write := (devsw_write s)(1 := Some ConsoleWrite),
     devsw_read := (devsw_read s)(1 := Some ConsoleRead), cons_locking := True\<rparr>"

section \<open>The screen\<close>

lemma cga_scrolled:
  assumes "0 \<le> p" "p \<le> 1920" "\<forall>i\<ge>2000. m i = k i"
  shows "returns (if p < 0 \<or> p > 25 * 80 then Panic e
      else
        let (m, pos) = (if p div 80 \<ge> 24 then
                          let m = (\<lambda>i. if i < 23 * 80 then m (i + 80) else m i); pos = p - 80 in
                          ((\<lambda>i. if nat pos \<le> i \<and> i < 24 * 80 then 0 else m i), pos)
                        else (m, p)) in
        Ret () \<lparr>crt = m(nat pos := 0x20 OR 0x0700), crt_pos = pos\<rparr>)
     (\<lambda>_ h. 0 \<le> crt_pos h \<and> crt_pos h < 1920 \<and> (\<forall>i\<ge>2000. crt h i = k i))"
proof (cases "p = 1920")
  case True
  then show ?thesis using assms by (simp add: Let_def)
next
  case False
  then have "p div 80 < 24" using assms by (simp add: div_less_iff_less_mult)
  moreover have "nat p < 2000" using assms by simp
  ultimately show ?thesis using assms False by auto
qed

lemma cgaputc_row:
  assumes "0 \<le> crt_pos g" "crt_pos g < 1920"
  shows "returns (cgaputc c g) (\<lambda>_ h. 0 \<le> crt_pos h \<and> crt_pos h < 1920 \<and> (\<forall>i\<ge>2000. crt h i = crt g i))"
proof -
  define q where "q = (if c = 10 then crt_pos g + (80 - crt_pos g mod 80)
    else if c = BACKSPACE then if crt_pos g > 0 then crt_pos g - 1 else crt_pos g else crt_pos g + 1)"
  define m where "m = (if c = 10 \<or> c = BACKSPACE then crt g else (crt g)(nat (crt_pos g) := (of_int c AND 0xFF) OR 0x0700))"
  have "crt_pos g div 80 < 24" "crt_pos g = crt_pos g div 80 * 80 + crt_pos g mod 80" "crt_pos g mod 80 < 80"
    using assms by (simp_all add: div_less_iff_less_mult)
  then have q: "0 \<le> q" "q \<le> 1920" unfolding q_def using assms by (smt (verit))+
  have m: "\<forall>i\<ge>2000. m i = crt g i" using assms by (auto simp: m_def)
  have e: "(if c = 10 then (crt g, crt_pos g + (80 - crt_pos g mod 80))
     else if c = BACKSPACE then (crt g, if crt_pos g > 0 then crt_pos g - 1 else crt_pos g)
     else ((crt g)(nat (crt_pos g) := (of_int c AND 0xFF) OR 0x0700), crt_pos g + 1)) = (m, q)"
    by (simp only: m_def q_def) simp
  show ?thesis unfolding cgaputc_def Let_def [of "crt_pos g"] e Let_def [of "(m, q)"] prod.case by (rule cga_scrolled [OF q m])
qed

text \<open>
  \<^bold>\<open>C36.\<close> The cursor never leaves the screen: from any position in the 24 rows in use, whatever
  characters are printed, \<^verbatim>\<open>cgaputc\<close> does not panic, the cursor stays in those rows, and no cell outside
  the 25 rows of display memory changes.
\<close>
theorem cgaputc_on_screen:
  assumes "0 \<le> crt_pos g" "crt_pos g < 24 * 80"
  shows "returns (for_each cs cgaputc g) (\<lambda>_ h. 0 \<le> crt_pos h \<and> crt_pos h < 24 * 80 \<and> (\<forall>i\<ge>25 * 80. crt h i = crt g i))"
  using assms
proof (induction cs arbitrary: g)
  case (Cons c cs)
  show ?case unfolding for_each.simps
  proof (rule returns_andthenI [OF cgaputc_row [of g c]])
    fix h :: cga
    assume h: "0 \<le> crt_pos h \<and> crt_pos h < 1920 \<and> (\<forall>i\<ge>2000. crt h i = crt g i)"
    then show "returns (for_each cs cgaputc h) (\<lambda>_ h. 0 \<le> crt_pos h \<and> crt_pos h < 24 * 80 \<and> (\<forall>i\<ge>25 * 80. crt h i = crt g i))"
      by (intro returns_mono [OF Cons.IH]) simp_all
  qed (use Cons.prems in simp_all)
qed simp

theorem cgaputc_on_screen_witness:
  "returns (for_each [65, 10, BACKSPACE] cgaputc \<lparr>crt = (\<lambda>_. 0), crt_pos = 1919\<rparr>) (\<lambda>_ h. 0 \<le> crt_pos h \<and> crt_pos h < 1920)"
  using cgaputc_on_screen [of "\<lparr>crt = (\<lambda>_. 0), crt_pos = 1919\<rparr>" "[65, 10, BACKSPACE]"] by (auto elim!: returns_mono)

section \<open>The input queue\<close>

text \<open>
  The characters between \<^verbatim>\<open>input.r\<close> and \<^verbatim>\<open>input.w\<close> are waiting to be read, those between \<^verbatim>\<open>input.w\<close> and
  \<^verbatim>\<open>input.e\<close> are being edited. The indices run freely modulo \<open>2^32\<close>.
\<close>

definition in_wf :: "'a con_state_scheme \<Rightarrow> bool" where
  "in_wf s \<longleftrightarrow> unat (in_w s - in_r s) \<le> unat (in_e s - in_r s) \<and> unat (in_e s - in_r s) \<le> 128"

definition in_char :: "'a con_state_scheme \<Rightarrow> nat \<Rightarrow> uchar" where
  "in_char s i = in_buf s (unat ((in_r s + of_nat i) mod INPUT_BUF))"

definition in_pending :: "'a con_state_scheme \<Rightarrow> uchar list" where
  "in_pending s = map (in_char s) [0..<unat (in_w s - in_r s)]"

lemma unat_mod_128: "unat ((r + of_nat i) mod INPUT_BUF) = (unat r + i) mod 128" for r :: uint
proof -
  have "unat (of_nat i :: uint) mod 128 = i mod 128" by (simp add: unat_of_nat mod_mod_cancel)
  then have "(unat r + unat (of_nat i :: uint)) mod 128 = (unat r + i) mod 128" by (metis mod_add_right_eq)
  then show ?thesis by (simp add: unat_mod unat_word_ariths mod_mod_cancel)
qed

lemma consputc_fields [simp]:
  "in_buf (consputc c s) = in_buf s" "in_r (consputc c s) = in_r s" "in_w (consputc c s) = in_w s"
  "in_e (consputc c s) = in_e s" "held (consputc c s) = held s"
  by (simp_all add: consputc_def cputs_def)

lemma unat_diff_less: "unat (w - r) \<le> unat (e - r) \<Longrightarrow> e \<noteq> w \<Longrightarrow> unat (w - r) < unat (e - r)" for e r w :: uint
  by (metis add.commute diff_add_cancel nat_less_le word_unat_eq_iff)

lemma in_wf_erase:
  assumes "in_wf s" "in_e s \<noteq> in_w s"
  shows "in_wf (consputc c (s\<lparr>in_e := in_e s - 1\<rparr>))"
proof -
  have l: "unat (in_w s - in_r s) < unat (in_e s - in_r s)" using assms unat_diff_less by (simp add: in_wf_def)
  then have "in_e s - in_r s \<noteq> 0" by auto
  then have "unat (in_e s - in_r s - 1) = unat (in_e s - in_r s) - 1" by (rule unat_minus_one)
  then show ?thesis using assms(1) l by (simp add: in_wf_def diff_right_commute) linarith
qed

lemma in_pending_erase [simp]: "in_pending (consputc c (s\<lparr>in_e := e\<rparr>)) = in_pending s"
  by (simp add: in_pending_def in_char_def)

lemma kill_line_wf:
  "in_wf s \<Longrightarrow> in_wf (kill_line s) \<and> in_pending (kill_line s) = in_pending s \<and> in_r (kill_line s) = in_r s \<and> held (kill_line s) = held s"
proof (induction s rule: kill_line.induct)
  case (1 s)
  show ?case
  proof (cases "in_e s \<noteq> in_w s \<and> in_buf s (unat ((in_e s - 1) mod INPUT_BUF)) \<noteq> 10")
    case True
    then have "kill_line s = kill_line (consputc BACKSPACE (s\<lparr>in_e := in_e s - 1\<rparr>))"
      by (subst kill_line.simps) simp
    then show ?thesis using 1 in_wf_erase [of s BACKSPACE] True by simp
  next
    case False
    then have "kill_line s = s" by (subst kill_line.simps) (simp only: if_False)
    then show ?thesis using 1(2) by simp
  qed
qed

text \<open>Storing a character leaves the waiting ones alone.\<close>

lemma in_store:
  fixes s :: "'a con_state_scheme" and x :: uchar
  assumes w: "in_wf s" and e: "unat (in_e s - in_r s) < 128"
  defines "t \<equiv> s\<lparr>in_buf := (in_buf s)(unat (in_e s mod INPUT_BUF) := x), in_e := in_e s + 1\<rparr>"
  shows "in_pending t = in_pending s" "in_wf t" "in_wf (t\<lparr>in_w := in_e t\<rparr>)"
    "\<exists>y. in_pending (t\<lparr>in_w := in_e t\<rparr>) = in_pending s @ y"
proof -
  let ?k = "unat (in_e s - in_r s)"
  have pos: "unat (in_e s mod INPUT_BUF) = (unat (in_r s) + ?k) mod 128"
    using unat_mod_128 [of "in_r s" ?k] by simp
  have ch: "in_char t i = in_char s i" if "i < ?k" for i
  proof -
    have "(unat (in_r s) + i) mod 128 \<noteq> (unat (in_r s) + ?k) mod 128"
      using that e mod_eq_dvd_iff_nat [of "unat (in_r s) + i" "unat (in_r s) + ?k" 128] dvd_imp_le [of 128 "?k - i"] by auto
    then show ?thesis by (simp add: in_char_def t_def pos unat_mod_128)
  qed
  then show p: "in_pending t = in_pending s" using w by (auto simp: in_pending_def in_wf_def t_def)
  have "unat (in_e s - in_r s + 1) = Suc ?k" using e by (simp add: unat_word_ariths)
  then have se: "unat (in_e s + 1 - in_r s) = Suc ?k" by (simp add: algebra_simps)
  then show "in_wf t" "in_wf (t\<lparr>in_w := in_e t\<rparr>)" using w e by (simp_all add: in_wf_def t_def)
  have c: "in_char (t\<lparr>in_w := in_e t\<rparr>) = in_char t" by (simp add: in_char_def fun_eq_iff)
  have n: "[0..<Suc ?k] = [0..<unat (in_w s - in_r s)] @ [unat (in_w s - in_r s)..<Suc ?k]"
    using w by (metis in_wf_def le_SucI le0 upt_add_eq_append le_Suc_ex)
  have "in_pending (t\<lparr>in_w := in_e t\<rparr>) = map (in_char t) [0..<Suc ?k]" unfolding in_pending_def c using se by (simp add: t_def)
  also have "\<dots> = in_pending t @ map (in_char t) [unat (in_w s - in_r s)..<Suc ?k]"
    unfolding n map_append by (simp add: in_pending_def t_def)
  finally show "\<exists>y. in_pending (t\<lparr>in_w := in_e t\<rparr>) = in_pending s @ y" unfolding p by blast
qed

lemma consoleintr_char_queue:
  assumes "in_wf s" "LkPtable \<notin> held s"
  shows "returns (consoleintr_char c s) (\<lambda>_ t. in_wf t \<and> (\<exists>y. in_pending t = in_pending s @ y) \<and> held t = held s)"
proof -
  have wk: "returns (wakeup ChInput u) (\<lambda>_ t. in_wf t = in_wf u \<and> in_pending t = in_pending u \<and> held t = held u)"
    if "LkPtable \<notin> held u" for u :: "'a con_state_scheme"
    using that by (simp add: wakeup_eq wakeup1_def in_wf_def in_pending_def in_char_def fun_eq_iff)
  have cp: "in_wf (consputc c u) = in_wf u" "in_pending (consputc c u) = in_pending u" for c and u :: "'a con_state_scheme"
    by (simp_all add: in_wf_def in_pending_def in_char_def fun_eq_iff)
  have cw: "(consputc c u)\<lparr>in_w := x\<rparr> = consputc c (u\<lparr>in_w := x\<rparr>)" for c x and u :: "'a con_state_scheme"
    by (simp add: consputc_def cputs_def)
  consider "c = 16" | "c = 21" | "c = 8 \<or> c = 127" | "c \<noteq> 16" "c \<noteq> 21" "c \<noteq> 8" "c \<noteq> 127" "c = 0 \<or> \<not> in_e s - in_r s < INPUT_BUF"
    | "c \<noteq> 16" "c \<noteq> 21" "c \<noteq> 8" "c \<noteq> 127" "c \<noteq> 0" "in_e s - in_r s < INPUT_BUF" by blast
  then show ?thesis
  proof cases
    case 5
    define d where "d = (if c = 13 then 10 else c)"
    define u where "u = s\<lparr>in_buf := (in_buf s)(unat (in_e s mod INPUT_BUF) := of_int d), in_e := in_e s + 1\<rparr>"
    have "unat (in_e s - in_r s) < 128" using 5(6) by (simp add: word_less_nat_alt)
    note st = in_store [OF assms(1) this, of "of_int d", folded u_def]
    have h: "held u = held s" by (simp add: u_def)
    have e: "consoleintr_char c s =
      (if d = 10 \<or> d = 4 \<or> in_e u = in_r u + INPUT_BUF then wakeup ChInput (consputc d (u\<lparr>in_w := in_e u\<rparr>)) else Ret () (consputc d u))"
      using 5 unfolding consoleintr_char_def Let_def d_def [symmetric] u_def [symmetric] cw by simp
    have "returns (wakeup ChInput (consputc d (u\<lparr>in_w := in_e u\<rparr>))) (\<lambda>_ t. in_wf t \<and> (\<exists>y. in_pending t = in_pending s @ y) \<and> held t = held s)"
      using wk [of "consputc d (u\<lparr>in_w := in_e u\<rparr>)"] assms(2) st(3,4) h by (auto simp: cp elim!: returns_mono)
    then show ?thesis unfolding e using st(1,2) h by (simp add: cp)
  qed (use assms kill_line_wf [of s] in_wf_erase [of s BACKSPACE] in \<open>auto simp: consoleintr_char_def\<close>)
qed

lemma in_pending_step:
  assumes "in_wf s" "in_r s \<noteq> in_w s"
  shows "in_pending s = in_char s 0 # in_pending (s\<lparr>in_r := in_r s + 1\<rparr>)" "in_wf (s\<lparr>in_r := in_r s + 1\<rparr>)"
proof -
  have n: "in_w s - in_r s \<noteq> 0" using assms by simp
  have u: "unat (in_w s - in_r s) = Suc (unat (in_w s - (in_r s + 1)))"
    using unat_minus_one [OF n] unat_diff_pos [of "in_w s" "in_r s"] assms(2) by (simp add: diff_diff_eq)
  have c: "in_char (s\<lparr>in_r := in_r s + 1\<rparr>) = in_char s \<circ> Suc" by (simp add: in_char_def fun_eq_iff algebra_simps)
  show "in_pending s = in_char s 0 # in_pending (s\<lparr>in_r := in_r s + 1\<rparr>)"
    unfolding in_pending_def u c by (simp add: map_upt_Suc del: upt_Suc)
  have "in_e s \<noteq> in_r s" using assms(1) u by (auto simp: in_wf_def)
  then have "unat (in_e s - (in_r s + 1)) = unat (in_e s - in_r s) - 1" by (rule unat_diff_Suc)
  then show "in_wf (s\<lparr>in_r := in_r s + 1\<rparr>)" using assms(1) u by (simp add: in_wf_def) linarith
qed

lemma consoleread_loop_queue:
  "in_wf s \<Longrightarrow> consoleread_loop target n dst s = Ret (Some (k, out)) t \<Longrightarrow>
   \<exists>new. out = dst @ new \<and> k + length new = n \<and> (\<exists>eof. in_pending s = new @ eof @ in_pending t \<and> (eof = [] \<or> eof = [4]))
     \<and> 10 \<notin> set (butlast new) \<and> in_wf t"
proof (induction n arbitrary: dst s)
  case (Suc n)
  show ?case
  proof (cases "in_r s = in_w s")
    case True
    then show ?thesis using Suc.prems(2) by (auto simp: andthen_eq_Ret split: option.splits if_splits)
  next
    case False
    let ?s = "s\<lparr>in_r := in_r s + 1\<rparr>" and ?c = "in_buf s (unat (in_r s mod INPUT_BUF))"
    note st = in_pending_step [OF Suc.prems(1) False]
    have c: "in_char s 0 = ?c" by (simp add: in_char_def)
    consider "?c = 4" | "?c = 10" | "?c \<noteq> 4" "?c \<noteq> 10" by blast
    then show ?thesis
    proof cases
      case 1
      then have "out = dst" "k = Suc n" "t = (if Suc n < target then s else ?s)"
        using Suc.prems(2) False by (auto simp: Let_def split: if_splits)
      then show ?thesis using st c 1 Suc.prems(1) by auto
    next
      case 2
      then have "out = dst @ [10]" "k = n" "t = ?s" using Suc.prems(2) False by (auto simp: Let_def)
      then show ?thesis using st c 2 by auto
    next
      case 3
      then have "consoleread_loop target n (dst @ [?c]) ?s = Ret (Some (k, out)) t" using Suc.prems(2) False by (simp add: Let_def)
      from Suc.IH [OF st(2) this] obtain new eof where n: "out = (dst @ [?c]) @ new" "k + length new = n"
        "in_pending ?s = new @ eof @ in_pending t" "eof = [] \<or> eof = [4]" "10 \<notin> set (butlast new)" "in_wf t" by blast
      then show ?thesis using st(1) c 3 by (intro exI [of _ "?c # new"]) auto
    qed
  qed
qed auto

text \<open>
  \<^bold>\<open>C31.\<close> The console delivers lines in order. From a well-formed buffer, any keyboard input leaves the
  buffer well formed and only appends to the characters waiting to be read; and when the loop of
  \<^verbatim>\<open>consoleread\<close> ends, it has delivered exactly the first waiting characters, at most one line of them,
  leaving the rest, less an end-of-file mark it consumed.
\<close>
theorem console_lines_in_order:
  assumes w: "in_wf s" and h: "LkPtable \<notin> held s"
  shows "returns (for_each cs consoleintr_char s) (\<lambda>_ t. in_wf t \<and> (\<exists>y. in_pending t = in_pending s @ y))
    \<and> (\<forall>n k out t. consoleread_loop n n [] s = Ret (Some (k, out)) t \<longrightarrow>
        in_wf t \<and> k + length out = n \<and> 10 \<notin> set (butlast out)
        \<and> (\<exists>eof. in_pending s = out @ eof @ in_pending t \<and> (eof = [] \<or> eof = [4])))"
proof
  have "returns (for_each cs consoleintr_char s) (\<lambda>_ t. in_wf t \<and> (\<exists>y. in_pending t = in_pending s @ y) \<and> held t = held s)"
    using w h
  proof (induction cs arbitrary: s)
    case (Cons c cs)
    show ?case unfolding for_each.simps
    proof (rule returns_andthenI [OF consoleintr_char_queue [OF Cons.prems]])
      fix t :: "'a con_state_scheme"
      assume t: "in_wf t \<and> (\<exists>y. in_pending t = in_pending s @ y) \<and> held t = held s"
      then show "returns (for_each cs consoleintr_char t) (\<lambda>_ t. in_wf t \<and> (\<exists>y. in_pending t = in_pending s @ y) \<and> held t = held s)"
        using Cons.prems by (intro returns_mono [OF Cons.IH]) auto
    qed
  qed simp
  then show "returns (for_each cs consoleintr_char s) (\<lambda>_ t. in_wf t \<and> (\<exists>y. in_pending t = in_pending s @ y))"
    by (rule returns_mono) blast
  show "\<forall>n k out t. consoleread_loop n n [] s = Ret (Some (k, out)) t \<longrightarrow>
        in_wf t \<and> k + length out = n \<and> 10 \<notin> set (butlast out)
        \<and> (\<exists>eof. in_pending s = out @ eof @ in_pending t \<and> (eof = [] \<or> eof = [4]))"
    using consoleread_loop_queue [OF w] by fastforce
qed

definition typed_hi :: con_state where
  "typed_hi = undefined\<lparr>held := {}, in_buf := (\<lambda>_. 0)(0 := 104, 1 := 105, 2 := 10), in_r := 0, in_w := 3, in_e := 3\<rparr>"

theorem console_lines_in_order_witness:
  "in_pending typed_hi = [104, 105, 10]
   \<and> returns (for_each [111, 107, 13] consoleintr_char typed_hi) (\<lambda>_ t. \<exists>y. in_pending t = [104, 105, 10] @ y)
   \<and> (\<exists>k out t. consoleread_loop 5 5 [] typed_hi = Ret (Some (k, out)) t \<and> out = [104, 105, 10] \<and> in_pending t = [])"
proof -
  have w: "in_wf typed_hi" "LkPtable \<notin> held typed_hi" by (simp_all add: in_wf_def typed_hi_def)
  have p: "in_pending typed_hi = [104, 105, 10]"
    by (simp add: in_pending_def in_char_def typed_hi_def upt_rec)
  have "consoleread_loop 5 5 [] typed_hi = Ret (Some (2, [104, 105, 10])) (typed_hi\<lparr>in_r := 3\<rparr>)"
    using consoleread_loop.simps(2) [of 5 4 "[]" typed_hi] consoleread_loop.simps(2) [of 5 3 "[104]" "typed_hi\<lparr>in_r := 1\<rparr>"]
      consoleread_loop.simps(2) [of 5 2 "[104, 105]" "typed_hi\<lparr>in_r := 2\<rparr>"]
    by (simp add: typed_hi_def Let_def)
  then obtain k out t where r: "consoleread_loop 5 5 [] typed_hi = Ret (Some (k, out)) t" "out = [104, 105, 10]" by blast
  note th = console_lines_in_order [OF w, of "[111, 107, 13]"]
  from conjunct2 [OF th] r have "\<exists>eof. [104, 105, 10] = out @ eof @ in_pending t" unfolding p by blast
  then have "in_pending t = []" using r(2) by simp
  moreover from conjunct1 [OF th] have "returns (for_each [111, 107, 13] consoleintr_char typed_hi) (\<lambda>_ t. \<exists>y. in_pending t = [104, 105, 10] @ y)"
    unfolding p by (rule returns_mono) blast
  ultimately show ?thesis using p r by blast
qed

end
