(* ===== verification/Xv6_Dir.thy ===== *)
theory Xv6_Dir
  imports Xv6_Console
begin

text \<open>
  The upper half of the file system (\<^verbatim>\<open>fs.c\<close>): reading and writing the content of an inode,
  directories, and path names. A routine that copies to memory yields the bytes in the order in
  which it stores them; the caller puts them at the destination. A routine that copies from
  memory gets the function that reads the source.
\<close>

section \<open>Reading and writing\<close>

record stat =
  st_type :: ushort
  st_dev :: uint
  st_ino :: uint
  st_nlink :: ushort
  st_size :: uint

definition stati :: "nat \<Rightarrow> 'a fs_state_scheme \<Rightarrow> stat" where
  "stati ip s = (let i = icache s ip in
     \<lparr>st_type = i_type i, st_dev = i_dev i, st_ino = i_inum i, st_nlink = i_nlink i, st_size = i_size i\<rparr>)"

text \<open>The driver of a device inode, or \<open>None\<close> where \<^verbatim>\<open>readi\<close> and \<^verbatim>\<open>writei\<close> refuse the device.\<close>

definition dev_fun :: "(nat \<Rightarrow> devfun option) \<Rightarrow> inode \<Rightarrow> devfun option" where
  "dev_fun sw i = (if sint (i_major i) < 0 \<or> sint (i_major i) \<ge> int NDEV then None else sw (nat (sint (i_major i))))"

function readi_loop ::
  "nat \<Rightarrow> nat \<Rightarrow> nat \<Rightarrow> uchar list \<Rightarrow> 'a fs_state_scheme \<Rightarrow> ('a fs_state_scheme, uchar list) outcome" where
  "readi_loop ip off n dst s =
     (if n = 0 then Ret dst s
      else
        andthen (bmap ip (off div BSIZE) s) (\<lambda>addr s.
        andthen (bread (i_dev (icache s ip)) addr s) (\<lambda>bp s.
        let m = min n (BSIZE - off mod BSIZE);
            new = map (\<lambda>i. b_data (bufs s bp) (off mod BSIZE + i)) [0..<m] in
        andthen (brelse bp s) (\<lambda>_ s. readi_loop ip (off + m) (n - m) (dst @ new) s))))"
  by pat_completeness auto
termination by (relation "measure (\<lambda>(ip, off, n, dst, s). n)") auto

declare readi_loop.simps [simp del]

definition readi :: "nat \<Rightarrow> uint \<Rightarrow> uint \<Rightarrow> 'a con_state_scheme \<Rightarrow> ('a con_state_scheme, int \<times> uchar list) outcome" where
  "readi ip off n s =
     (let i = icache s ip in
      if i_type i = T_DEV then
        case dev_fun (devsw_read s) i of
          Some ConsoleRead \<Rightarrow> consoleread ip (nat (sint n)) s
        | Some ConsoleWrite \<Rightarrow> Undef ''readi: devsw''
        | None \<Rightarrow> Ret (- 1, []) s
      else if off > i_size i \<or> off + n < off then Ret (- 1, []) s
      else
        let n = (if off + n > i_size i then i_size i - off else n) in
        andthen (readi_loop ip (unat off) (unat n) [] s) (\<lambda>dst s. Ret (sint n, dst) s))"

function writei_loop ::
  "nat \<Rightarrow> (nat \<Rightarrow> uchar) \<Rightarrow> nat \<Rightarrow> nat \<Rightarrow> 'a fs_state_scheme \<Rightarrow> ('a fs_state_scheme, unit) outcome" where
  "writei_loop ip src off n s =
     (if n = 0 then Ret () s
      else
        andthen (bmap ip (off div BSIZE) s) (\<lambda>addr s.
        andthen (bread (i_dev (icache s ip)) addr s) (\<lambda>bp s.
        let m = min n (BSIZE - off mod BSIZE) in
        andthen (log_write bp (upd_buf bp (\<lambda>b. b\<lparr>b_data := blit 0 src (off mod BSIZE) m (b_data b)\<rparr>) s)) (\<lambda>_ s.
        andthen (brelse bp s) (\<lambda>_ s. writei_loop ip (\<lambda>i. src (m + i)) (off + m) (n - m) s)))))"
  by pat_completeness auto
termination by (relation "measure (\<lambda>(ip, src, off, n, s). n)") auto

declare writei_loop.simps [simp del]

definition writei :: "nat \<Rightarrow> (nat \<Rightarrow> uchar) \<Rightarrow> uint \<Rightarrow> uint \<Rightarrow> 'a con_state_scheme \<Rightarrow> ('a con_state_scheme, int) outcome" where
  "writei ip src off n s =
     (let i = icache s ip in
      if i_type i = T_DEV then
        case dev_fun (devsw_write s) i of
          Some ConsoleWrite \<Rightarrow> consolewrite ip src (nat (sint n)) s
        | Some ConsoleRead \<Rightarrow> Undef ''writei: devsw''
        | None \<Rightarrow> Ret (- 1) s
      else if off > i_size i \<or> off + n < off then Ret (- 1) s
      else if off + n > of_nat (MAXFILE * BSIZE) then Ret (- 1) s
      else
        andthen (writei_loop ip src (unat off) (unat n) s) (\<lambda>_ s.
        let off = off + n in
        andthen (if n > 0 \<and> off > i_size (icache s ip)
                 then iupdate ip (upd_inode ip (\<lambda>i. i\<lparr>i_size := off\<rparr>) s) else Ret () s) (\<lambda>_ s.
        Ret (sint n) s)))"

section \<open>Directories\<close>

definition namecmp :: "(nat \<Rightarrow> uchar) \<Rightarrow> (nat \<Rightarrow> uchar) \<Rightarrow> int" where
  "namecmp p q = strncmp DIRSIZ p q"

text \<open>A \<^verbatim>\<open>struct dirent\<close> as the 16 bytes \<^verbatim>\<open>readi\<close> delivers: inode number, then name.\<close>

definition de_inum :: "uchar list \<Rightarrow> ushort" where
  "de_inum de = load16 (nth de) 0"

definition de_name :: "uchar list \<Rightarrow> nat \<Rightarrow> uchar" where
  "de_name de i = (if i < DIRSIZ then de ! (2 + i) else 0)"

definition read_dirent :: "nat \<Rightarrow> nat \<Rightarrow> 'a con_state_scheme \<Rightarrow> ('a con_state_scheme, uchar list) outcome" where
  "read_dirent dp off s =
     andthen (readi dp (of_nat off) 16 s) (\<lambda>(r, de) s. if r \<noteq> 16 then Panic ''dirlink read'' else Ret de s)"

text \<open>The offsets of the entries of a directory: \<open>0, 16, ...\<close> below its size.\<close>

definition dir_offs :: "uint \<Rightarrow> nat list" where
  "dir_offs sz = map (\<lambda>k. 16 * k) [0..<(unat sz + 15) div 16]"

definition dirlookup_one ::
  "nat \<Rightarrow> (nat \<Rightarrow> uchar) \<Rightarrow> nat \<Rightarrow> 'a con_state_scheme \<Rightarrow> ('a con_state_scheme, (nat \<times> uint) option) outcome" where
  "dirlookup_one dp name off s =
     andthen (read_dirent dp off s) (\<lambda>de s.
     if de_inum de = 0 then Ret None s
     else if namecmp name (de_name de) = 0 then
       andthen (iget (i_dev (icache s dp)) (ucast (de_inum de)) s) (\<lambda>ip s. Ret (Some (ip, of_nat off)) s)
     else Ret None s)"

definition dirlookup :: "nat \<Rightarrow> (nat \<Rightarrow> uchar) \<Rightarrow> 'a con_state_scheme \<Rightarrow> ('a con_state_scheme, (nat \<times> uint) option) outcome" where
  "dirlookup dp name s =
     (if i_type (icache s dp) \<noteq> T_DIR then Panic ''dirlookup not DIR''
      else for_until (dir_offs (i_size (icache s dp))) (dirlookup_one dp name) s)"

text \<open>The name field that \<^verbatim>\<open>strncpy(de.name, name, DIRSIZ)\<close> leaves.\<close>

definition name_field :: "(nat \<Rightarrow> uchar) \<Rightarrow> nat \<Rightarrow> uchar" where
  "name_field name = (let k = length (takeWhile (\<lambda>c. c \<noteq> 0) (map name [0..<DIRSIZ])) in (\<lambda>i. if i < k then name i else 0))"

definition dirent :: "ushort \<Rightarrow> (nat \<Rightarrow> uchar) \<Rightarrow> nat \<Rightarrow> uchar" where
  "dirent inum name i = (if i < 2 then byte i inum else name (i - 2))"

definition dirlink_one :: "nat \<Rightarrow> nat \<Rightarrow> 'a con_state_scheme \<Rightarrow> ('a con_state_scheme, nat option) outcome" where
  "dirlink_one dp off s =
     andthen (read_dirent dp off s) (\<lambda>de s. Ret (if de_inum de = 0 then Some off else None) s)"

definition dirlink :: "nat \<Rightarrow> (nat \<Rightarrow> uchar) \<Rightarrow> uint \<Rightarrow> 'a con_state_scheme \<Rightarrow> ('a con_state_scheme, int) outcome" where
  "dirlink dp name inum s =
     andthen (dirlookup dp name s) (\<lambda>r s.
     case r of
       Some (ip, _) \<Rightarrow> andthen (iput ip s) (\<lambda>_ s. Ret (- 1) s)
     | None \<Rightarrow>
         andthen (for_until (dir_offs (i_size (icache s dp))) (dirlink_one dp) s) (\<lambda>r s.
         let off = (case r of Some off \<Rightarrow> off | None \<Rightarrow> 16 * length (dir_offs (i_size (icache s dp)))) in
         andthen (writei dp (dirent (ucast inum) (name_field name)) (of_nat off) 16 s) (\<lambda>r s.
         if r \<noteq> 16 then Panic ''dirlink'' else Ret 0 s)))"

section \<open>Paths\<close>

text \<open>
  \<^verbatim>\<open>skipelem\<close>. A path is the list of its characters before the terminating zero; \<^verbatim>\<open>name\<close> is a buffer of
  \<^verbatim>\<open>DIRSIZ\<close> bytes, and an element of that length or longer leaves no terminator in it.
\<close>

definition put_name :: "uchar list \<Rightarrow> (nat \<Rightarrow> uchar) \<Rightarrow> nat \<Rightarrow> uchar" where
  "put_name e name =
     (if length e \<ge> DIRSIZ then (\<lambda>i. if i < DIRSIZ then e ! i else name i)
      else (\<lambda>i. if i < length e then e ! i else name i)(length e := 0))"

definition skipelem :: "uchar list \<Rightarrow> (nat \<Rightarrow> uchar) \<Rightarrow> (uchar list \<times> (nat \<Rightarrow> uchar)) option" where
  "skipelem path name =
     (let path = dropWhile (\<lambda>c. c = 47) path in
      if path = [] then None
      else
        let e = takeWhile (\<lambda>c. c \<noteq> 47) path;
            path = dropWhile (\<lambda>c. c \<noteq> 47) path in
        Some (dropWhile (\<lambda>c. c = 47) path, put_name e name))"

lemma length_dropWhile: "length (dropWhile P xs) \<le> length xs"
  by (induction xs) auto

lemma skipelem_shorter: "skipelem path name = Some (path', name') \<Longrightarrow> length path' < length path"
proof -
  assume a: "skipelem path name = Some (path', name')"
  obtain c cs where p: "dropWhile (\<lambda>c. c = 47) path = c # cs" "c \<noteq> 47"
    using a by (cases "dropWhile (\<lambda>c. c = 47) path") (auto simp: skipelem_def Let_def dropWhile_eq_Cons_conv)
  have "path' = dropWhile (\<lambda>c. c = 47) (dropWhile (\<lambda>c. c \<noteq> 47) cs)"
    using a p by (simp add: skipelem_def Let_def)
  then have "length path' \<le> length cs" using length_dropWhile order_trans by blast
  moreover have "length (c # cs) \<le> length path" using length_dropWhile [of "\<lambda>c. c = 47" path] p by simp
  ultimately show ?thesis by simp
qed

function namex_loop ::
  "bool \<Rightarrow> nat \<Rightarrow> uchar list \<Rightarrow> (nat \<Rightarrow> uchar) \<Rightarrow> 'a con_state_scheme \<Rightarrow> ('a con_state_scheme, (nat \<times> (nat \<Rightarrow> uchar)) option) outcome" where
  "namex_loop parent ip path name s =
     (case skipelem path name of
        None \<Rightarrow> if parent then andthen (iput ip s) (\<lambda>_ s. Ret None s) else Ret (Some (ip, name)) s
      | Some (path, name) \<Rightarrow>
          andthen (ilock ip s) (\<lambda>_ s.
          if i_type (icache s ip) \<noteq> T_DIR then andthen (iunlockput ip s) (\<lambda>_ s. Ret None s)
          else if parent \<and> path = [] then andthen (iunlock ip s) (\<lambda>_ s. Ret (Some (ip, name)) s)
          else
            andthen (dirlookup ip name s) (\<lambda>r s.
            case r of
              None \<Rightarrow> andthen (iunlockput ip s) (\<lambda>_ s. Ret None s)
            | Some (next, _) \<Rightarrow> andthen (iunlockput ip s) (\<lambda>_ s. namex_loop parent next path name s))))"
  by pat_completeness auto
termination by (relation "measure (\<lambda>(parent, ip, path, name, s). length path)") (auto dest: skipelem_shorter)

declare namex_loop.simps [simp del]

definition namex :: "uchar list \<Rightarrow> bool \<Rightarrow> 'a con_state_scheme \<Rightarrow> ('a con_state_scheme, (nat \<times> (nat \<Rightarrow> uchar)) option) outcome" where
  "namex path parent s =
     andthen (if path \<noteq> [] \<and> hd path = 47 then iget ROOTDEV ROOTINO s
              else case curproc s of
                None \<Rightarrow> Undef ''namex: proc''
              | Some p \<Rightarrow> (case p_cwd (ptable s p) of None \<Rightarrow> Undef ''namex: cwd'' | Some cwd \<Rightarrow> idup cwd s)) (\<lambda>ip s.
     namex_loop parent ip path (\<lambda>_. 0) s)"

definition namei :: "uchar list \<Rightarrow> 'a con_state_scheme \<Rightarrow> ('a con_state_scheme, nat option) outcome" where
  "namei path s = andthen (namex path False s) (\<lambda>r s. Ret (map_option fst r) s)"

definition nameiparent :: "uchar list \<Rightarrow> 'a con_state_scheme \<Rightarrow> ('a con_state_scheme, (nat \<times> (nat \<Rightarrow> uchar)) option) outcome" where
  "nameiparent path s = namex path True s"

section \<open>Path elements\<close>

text \<open>The elements that successive calls of \<^verbatim>\<open>skipelem\<close> put into \<^verbatim>\<open>name\<close>, each up to its terminator.\<close>

definition name_string :: "(nat \<Rightarrow> uchar) \<Rightarrow> uchar list" where
  "name_string name = takeWhile (\<lambda>c. c \<noteq> 0) (map name [0..<DIRSIZ])"

function path_elems :: "uchar list \<Rightarrow> (nat \<Rightarrow> uchar) \<Rightarrow> uchar list list" where
  "path_elems path name =
     (case skipelem path name of None \<Rightarrow> [] | Some (path, name) \<Rightarrow> name_string name # path_elems path name)"
  by pat_completeness auto
termination by (relation "measure (\<lambda>(path, name). length path)") (auto dest: skipelem_shorter)

declare path_elems.simps [simp del]

lemma name_string_put:
  assumes "0 \<notin> set e"
  shows "name_string (put_name e name) = take DIRSIZ e"
proof (cases "length e \<ge> DIRSIZ")
  case True
  then have m: "map (put_name e name) [0..<DIRSIZ] = take DIRSIZ e" by (intro nth_equalityI) (auto simp: put_name_def)
  show ?thesis unfolding name_string_def m using assms by (auto simp: takeWhile_eq_all_conv dest: in_set_takeD)
next
  case False
  have u: "[0..<DIRSIZ] = [0..<length e] @ length e # [Suc (length e)..<DIRSIZ]"
    using False by (metis le0 less_imp_le_nat not_le upt_add_eq_append upt_conv_Cons le_Suc_ex)
  have "map (put_name e name) [0..<length e] = e" using False by (intro nth_equalityI) (auto simp: put_name_def)
  moreover have "put_name e name (length e) = 0" using False by (simp add: put_name_def)
  ultimately show ?thesis unfolding name_string_def u using False assms
    by (auto simp: takeWhile_append2 takeWhile_append)
qed

lemma skipelem_slashes: "skipelem (replicate k 47 @ path) name = skipelem path name"
proof -
  have "dropWhile (\<lambda>c. c = 47) (replicate k 47 @ path) = dropWhile (\<lambda>c. c = 47) path" by (induction k) auto
  then show ?thesis by (simp add: skipelem_def)
qed

lemma skipelem_elem:
  assumes "e \<noteq> []" "47 \<notin> set e" "path = [] \<or> hd path = 47"
  shows "skipelem (e @ path) name = Some (dropWhile (\<lambda>c. c = 47) path, put_name e name)"
proof -
  have d: "dropWhile (\<lambda>c. c = 47) (e @ path) = e @ path" using assms by (cases e) auto
  have n: "x \<noteq> 47" if "x \<in> set e" for x using that assms(2) by blast
  have "takeWhile (\<lambda>c. c \<noteq> 47) path = []" "dropWhile (\<lambda>c. c \<noteq> 47) path = path" using assms(3) by (cases path; simp)+
  then have "takeWhile (\<lambda>c. c \<noteq> 47) (e @ path) = e" "dropWhile (\<lambda>c. c \<noteq> 47) (e @ path) = path"
    using takeWhile_append2 [of e "\<lambda>c. c \<noteq> 47" path, OF n] dropWhile_append2 [of e "\<lambda>c. c \<noteq> 47" path, OF n] by simp_all
  then show ?thesis unfolding skipelem_def d Let_def using assms(1) by simp
qed

text \<open>A path with elements \<open>es\<close>, each preceded by some slashes.\<close>

fun join_path :: "(nat \<times> uchar list) list \<Rightarrow> uchar list" where
  "join_path [] = []"
| "join_path ((k, e) # es) = replicate k 47 @ e @ join_path es"

lemma path_elems_dropWhile: "path_elems (dropWhile (\<lambda>c. c = 47) path) name = path_elems path name"
proof -
  have "skipelem (dropWhile (\<lambda>c. c = 47) path) name = skipelem path name"
    by (simp add: skipelem_def dropWhile_idem)
  then show ?thesis by (subst (1 2) path_elems.simps) simp
qed

text \<open>
  \<^bold>\<open>C34.\<close> Path names: for any list of non-empty elements without slashes, written with one or more
  slashes between them, any number before the first and any number after the last, \<^verbatim>\<open>skipelem\<close>
  delivers exactly those elements in order, each cut to \<^verbatim>\<open>DIRSIZ\<close> characters, and then stops.
\<close>
theorem path_roundtrip:
  assumes "\<And>k e. (k, e) \<in> set es \<Longrightarrow> e \<noteq> [] \<and> 47 \<notin> set e \<and> 0 \<notin> set e" and "\<And>k e. (k, e) \<in> set (tl es) \<Longrightarrow> 0 < k"
  shows "path_elems (join_path es @ replicate j 47) name = map (\<lambda>(k, e). take DIRSIZ e) es"
  using assms
proof (induction es arbitrary: name)
  case Nil
  show ?case using skipelem_slashes [of j "[]" name] by (subst path_elems.simps) (simp add: skipelem_def)
next
  case (Cons x es)
  obtain k e where x: "x = (k, e)" by (cases x)
  let ?r = "join_path es @ replicate j 47"
  have e: "e \<noteq> []" "47 \<notin> set e" "0 \<notin> set e" using Cons.prems(1) [of k e] x by auto
  have "?r = [] \<or> hd ?r = 47"
  proof (cases es)
    case Nil
    then show ?thesis by (cases j) auto
  next
    case (Cons y ys)
    then obtain k' e' where y: "y = (k', e')" by (cases y)
    then have "0 < k'" using Cons.prems(2) [of k' e'] Cons by simp
    then show ?thesis using Cons y by (cases k') auto
  qed
  then have "skipelem (join_path (x # es) @ replicate j 47) name = Some (dropWhile (\<lambda>c. c = 47) ?r, put_name e name)"
    using skipelem_slashes [of k "e @ ?r"] skipelem_elem [OF e(1,2)] by (simp add: x)
  moreover have "path_elems ?r (put_name e name) = map (\<lambda>(k, e). take DIRSIZ e) es"
  proof (rule Cons.IH)
    show "0 < k" if "(k, e) \<in> set (tl es)" for k e using that Cons.prems(2) [of k e] by (cases es) auto
  qed (use Cons.prems(1) in auto)
  ultimately show ?case
    by (subst path_elems.simps) (simp add: path_elems_dropWhile name_string_put e x)
qed

theorem path_roundtrip_witness:
  "path_elems (map of_char ''/usr//rtm/xv6-programming/fs.c/'') (\<lambda>_. 0)
     = map (map of_char) [''usr'', ''rtm'', ''xv6-programmin'', ''fs.c'']"
proof -
  have "join_path [(1, map of_char ''usr''), (2, map of_char ''rtm''), (1, map of_char ''xv6-programming''), (1, map of_char ''fs.c'')] @ replicate 1 47
      = map of_char ''/usr//rtm/xv6-programming/fs.c/''" by (simp add: numeral_2_eq_2)
  moreover have "path_elems (join_path [(1, map of_char ''usr''), (2, map of_char ''rtm''), (1, map of_char ''xv6-programming''), (1, map of_char ''fs.c'')] @ replicate 1 47) (\<lambda>_. 0)
      = map (\<lambda>(k::nat, e). take DIRSIZ e) [(1, map of_char ''usr''), (2, map of_char ''rtm''), (1, map of_char ''xv6-programming''), (1, map of_char ''fs.c'')]"
    by (rule path_roundtrip) auto
  ultimately show ?thesis by simp
qed

end
