(* ===== verification/Xv6_File.thy ===== *)
theory Xv6_File
  imports Xv6_Dir
begin

text \<open>
  Open files and pipes (\<^verbatim>\<open>file.c\<close>, \<^verbatim>\<open>pipe.c\<close>). A pointer into \<^verbatim>\<open>ftable.file\<close> is an index; a pipe is
  named by the address of the page it lives in. As in the theory of directories, bytes copied to
  memory are part of the result, and a source is the function that reads it.
\<close>

section \<open>State\<close>

abbreviation "PIPESIZE \<equiv> (512::uint)"

datatype fdtype = FD_NONE | FD_PIPE | FD_INODE

record kfile =
  f_type :: fdtype
  f_ref :: int
  f_readable :: bool
  f_writable :: bool
  f_pipe :: uint
  f_ip :: nat
  f_off :: uint

record pipe =
  pi_data :: "nat \<Rightarrow> uchar"
  pi_nread :: uint
  pi_nwrite :: uint
  pi_readopen :: bool
  pi_writeopen :: bool

record file_state = con_state +
  ftable :: "nat \<Rightarrow> kfile"
  pipes :: "uint \<Rightarrow> pipe"

definition upd_file :: "nat \<Rightarrow> (kfile \<Rightarrow> kfile) \<Rightarrow> 'a file_state_scheme \<Rightarrow> 'a file_state_scheme" where
  "upd_file f g s = s\<lparr>ftable := (ftable s)(f := g (ftable s f))\<rparr>"

definition upd_pipe :: "uint \<Rightarrow> (pipe \<Rightarrow> pipe) \<Rightarrow> 'a file_state_scheme \<Rightarrow> 'a file_state_scheme" where
  "upd_pipe p g s = s\<lparr>pipes := (pipes s)(p := g (pipes s p))\<rparr>"

section \<open>Pipes (pipe.c)\<close>

definition pipeclose :: "uint \<Rightarrow> bool \<Rightarrow> 'a file_state_scheme \<Rightarrow> ('a file_state_scheme, unit) outcome" where
  "pipeclose p writable s =
     andthen (acquire (LkPipe p) s) (\<lambda>_ s.
     andthen (if writable then wakeup (ChPipeRead p) (upd_pipe p (\<lambda>k. k\<lparr>pi_writeopen := False\<rparr>) s)
              else wakeup (ChPipeWrite p) (upd_pipe p (\<lambda>k. k\<lparr>pi_readopen := False\<rparr>) s)) (\<lambda>_ s.
     if \<not> pi_readopen (pipes s p) \<and> \<not> pi_writeopen (pipes s p)
     then andthen (release (LkPipe p) s) (\<lambda>_ s. kfree p s)
     else release (LkPipe p) s))"

definition proc_killed :: "'a kstate_scheme \<Rightarrow> bool" where
  "proc_killed s = (case curproc s of None \<Rightarrow> False | Some p \<Rightarrow> p_killed (ptable s p))"

text \<open>
  The loop of \<^verbatim>\<open>pipewrite\<close> over the bytes still to be written; its result says whether they all went
  into the pipe. A writer that finds the pipe full sleeps, and starts over with the bytes it has left.
\<close>

primrec pipewrite_loop :: "nat \<Rightarrow> uint \<Rightarrow> (nat \<Rightarrow> uchar) \<Rightarrow> 'a file_state_scheme \<Rightarrow> ('a file_state_scheme, bool) outcome" where
  "pipewrite_loop 0 p addr s = Ret True s"
| "pipewrite_loop (Suc n) p addr s =
     (if pi_nwrite (pipes s p) = pi_nread (pipes s p) + PIPESIZE then
        if \<not> pi_readopen (pipes s p) \<or> proc_killed s then Ret False s
        else
          andthen (wakeup (ChPipeRead p) s) (\<lambda>_ s.
          andthen (sleep (ChPipeWrite p) (LkPipe p) s) (\<lambda>_ _. Undef ''pipewrite: sleep''))
      else
        pipewrite_loop n p (\<lambda>i. addr (Suc i))
          (upd_pipe p (\<lambda>k. k\<lparr>pi_data := (pi_data k)(unat (pi_nwrite k mod PIPESIZE) := addr 0), pi_nwrite := pi_nwrite k + 1\<rparr>) s))"

definition pipewrite_end :: "uint \<Rightarrow> int \<Rightarrow> bool \<Rightarrow> 'a file_state_scheme \<Rightarrow> ('a file_state_scheme, int) outcome" where
  "pipewrite_end p n ok s =
     (if ok then andthen (wakeup (ChPipeRead p) s) (\<lambda>_ s. andthen (release (LkPipe p) s) (\<lambda>_ s. Ret n s))
      else andthen (release (LkPipe p) s) (\<lambda>_ s. Ret (- 1) s))"

definition pipewrite :: "uint \<Rightarrow> (nat \<Rightarrow> uchar) \<Rightarrow> int \<Rightarrow> 'a file_state_scheme \<Rightarrow> ('a file_state_scheme, int) outcome" where
  "pipewrite p addr n s =
     andthen (acquire (LkPipe p) s) (\<lambda>_ s.
     andthen (pipewrite_loop (nat n) p addr s) (\<lambda>ok s. pipewrite_end p n ok s))"

text \<open>The rest of a \<^verbatim>\<open>pipewrite\<close> of \<open>n\<close> bytes that slept with \<open>k\<close> bytes left, the first of them at \<open>addr\<close>.\<close>

definition pipewrite_resume :: "uint \<Rightarrow> (nat \<Rightarrow> uchar) \<Rightarrow> nat \<Rightarrow> int \<Rightarrow> 'a file_state_scheme \<Rightarrow> ('a file_state_scheme, int) outcome" where
  "pipewrite_resume p addr k n s =
     andthen (sleep_resume (LkPipe p) s) (\<lambda>_ s.
     andthen (pipewrite_loop k p addr s) (\<lambda>ok s. pipewrite_end p n ok s))"

primrec piperead_loop :: "nat \<Rightarrow> uint \<Rightarrow> uchar list \<Rightarrow> 'a file_state_scheme \<Rightarrow> 'a file_state_scheme \<times> uchar list" where
  "piperead_loop 0 p addr s = (s, addr)"
| "piperead_loop (Suc n) p addr s =
     (if pi_nread (pipes s p) = pi_nwrite (pipes s p) then (s, addr)
      else
        piperead_loop n p (addr @ [pi_data (pipes s p) (unat (pi_nread (pipes s p) mod PIPESIZE))])
          (upd_pipe p (\<lambda>k. k\<lparr>pi_nread := pi_nread k + 1\<rparr>) s))"

text \<open>\<^verbatim>\<open>piperead\<close> from its loop on: a reader of an empty pipe that still has a writer sleeps.\<close>

definition piperead_body :: "uint \<Rightarrow> int \<Rightarrow> 'a file_state_scheme \<Rightarrow> ('a file_state_scheme, int \<times> uchar list) outcome" where
  "piperead_body p n s =
     (if pi_nread (pipes s p) = pi_nwrite (pipes s p) \<and> pi_writeopen (pipes s p) then
        if proc_killed s then andthen (release (LkPipe p) s) (\<lambda>_ s. Ret (- 1, []) s)
        else andthen (sleep (ChPipeRead p) (LkPipe p) s) (\<lambda>_ _. Undef ''piperead: sleep'')
      else
        let (s, addr) = piperead_loop (nat n) p [] s in
        andthen (wakeup (ChPipeWrite p) s) (\<lambda>_ s.
        andthen (release (LkPipe p) s) (\<lambda>_ s. Ret (int (length addr), addr) s)))"

definition piperead :: "uint \<Rightarrow> int \<Rightarrow> 'a file_state_scheme \<Rightarrow> ('a file_state_scheme, int \<times> uchar list) outcome" where
  "piperead p n s = andthen (acquire (LkPipe p) s) (\<lambda>_ s. piperead_body p n s)"

definition piperead_resume :: "uint \<Rightarrow> int \<Rightarrow> 'a file_state_scheme \<Rightarrow> ('a file_state_scheme, int \<times> uchar list) outcome" where
  "piperead_resume p n s = andthen (sleep_resume (LkPipe p) s) (\<lambda>_ s. piperead_body p n s)"

section \<open>Files (file.c)\<close>

definition filealloc :: "'a file_state_scheme \<Rightarrow> ('a file_state_scheme, nat option) outcome" where
  "filealloc s =
     andthen (acquire LkFtable s) (\<lambda>_ s.
     case find (\<lambda>f. f_ref (ftable s f) = 0) [0..<NFILE] of
       Some f \<Rightarrow> andthen (release LkFtable (upd_file f (\<lambda>k. k\<lparr>f_ref := 1\<rparr>) s)) (\<lambda>_ s. Ret (Some f) s)
     | None \<Rightarrow> andthen (release LkFtable s) (\<lambda>_ s. Ret None s))"

definition filedup :: "nat \<Rightarrow> 'a file_state_scheme \<Rightarrow> ('a file_state_scheme, nat) outcome" where
  "filedup f s =
     andthen (acquire LkFtable s) (\<lambda>_ s.
     if f_ref (ftable s f) < 1 then Panic ''filedup''
     else andthen (release LkFtable (upd_file f (\<lambda>k. k\<lparr>f_ref := f_ref k + 1\<rparr>) s)) (\<lambda>_ s. Ret f s))"

definition fileclose :: "nat \<Rightarrow> 'a file_state_scheme \<Rightarrow> ('a file_state_scheme, unit) outcome" where
  "fileclose f s =
     andthen (acquire LkFtable s) (\<lambda>_ s.
     if f_ref (ftable s f) < 1 then Panic ''fileclose''
     else
       let s = upd_file f (\<lambda>k. k\<lparr>f_ref := f_ref k - 1\<rparr>) s in
       if f_ref (ftable s f) > 0 then release LkFtable s
       else
         let ff = ftable s f in
         andthen (release LkFtable (upd_file f (\<lambda>k. k\<lparr>f_ref := 0, f_type := FD_NONE\<rparr>) s)) (\<lambda>_ s.
         if f_type ff = FD_PIPE then pipeclose (f_pipe ff) (f_writable ff) s
         else if f_type ff = FD_INODE then
           andthen (begin_op s) (\<lambda>_ s. andthen (iput (f_ip ff) s) (\<lambda>_ s. end_op s))
         else Ret () s))"

definition filestat :: "nat \<Rightarrow> 'a file_state_scheme \<Rightarrow> ('a file_state_scheme, stat option) outcome" where
  "filestat f s =
     (if f_type (ftable s f) = FD_INODE then
        let ip = f_ip (ftable s f) in
        andthen (ilock ip s) (\<lambda>_ s.
        let st = stati ip s in
        andthen (iunlock ip s) (\<lambda>_ s. Ret (Some st) s))
      else Ret None s)"

definition fileread :: "nat \<Rightarrow> int \<Rightarrow> 'a file_state_scheme \<Rightarrow> ('a file_state_scheme, int \<times> uchar list) outcome" where
  "fileread f n s =
     (let k = ftable s f in
      if \<not> f_readable k then Ret (- 1, []) s
      else if f_type k = FD_PIPE then piperead (f_pipe k) n s
      else if f_type k = FD_INODE then
        andthen (ilock (f_ip k) s) (\<lambda>_ s.
        andthen (readi (f_ip k) (f_off (ftable s f)) (of_int n) s) (\<lambda>(r, addr) s.
        let s = (if r > 0 then upd_file f (\<lambda>k. k\<lparr>f_off := f_off k + of_int r\<rparr>) s else s) in
        andthen (iunlock (f_ip k) s) (\<lambda>_ s. Ret (r, addr) s)))
      else Panic ''fileread'')"

text \<open>One round of the loop of \<^verbatim>\<open>filewrite\<close>: a transaction for at most \<open>max\<close> bytes.\<close>

definition filewrite_max :: nat where
  "filewrite_max = (LOGSIZE - 1 - 1 - 2) div 2 * 512"

definition filewrite_chunk :: "nat \<Rightarrow> (nat \<Rightarrow> uchar) \<Rightarrow> nat \<Rightarrow> 'a file_state_scheme \<Rightarrow> ('a file_state_scheme, int) outcome" where
  "filewrite_chunk f addr n1 s =
     andthen (begin_op s) (\<lambda>_ s.
     andthen (ilock (f_ip (ftable s f)) s) (\<lambda>_ s.
     andthen (writei (f_ip (ftable s f)) addr (f_off (ftable s f)) (of_nat n1) s) (\<lambda>r s.
     let s = (if r > 0 then upd_file f (\<lambda>k. k\<lparr>f_off := f_off k + of_int r\<rparr>) s else s) in
     andthen (iunlock (f_ip (ftable s f)) s) (\<lambda>_ s.
     andthen (end_op s) (\<lambda>_ s. Ret r s)))))"

function filewrite_loop :: "nat \<Rightarrow> (nat \<Rightarrow> uchar) \<Rightarrow> nat \<Rightarrow> 'a file_state_scheme \<Rightarrow> ('a file_state_scheme, bool) outcome" where
  "filewrite_loop f addr n s =
     (if n = 0 then Ret True s
      else
        let n1 = min n filewrite_max in
        andthen (filewrite_chunk f addr n1 s) (\<lambda>r s.
        if r < 0 then Ret False s
        else if r \<noteq> int n1 then Panic ''short filewrite''
        else filewrite_loop f (\<lambda>i. addr (n1 + i)) (n - n1) s))"
  by pat_completeness auto
termination by (relation "measure (\<lambda>(f, addr, n, s). n)") (auto simp: filewrite_max_def)

declare filewrite_loop.simps [simp del]

definition filewrite :: "nat \<Rightarrow> (nat \<Rightarrow> uchar) \<Rightarrow> int \<Rightarrow> 'a file_state_scheme \<Rightarrow> ('a file_state_scheme, int) outcome" where
  "filewrite f addr n s =
     (let k = ftable s f in
      if \<not> f_writable k then Ret (- 1) s
      else if f_type k = FD_PIPE then pipewrite (f_pipe k) addr n s
      else if f_type k = FD_INODE then
        andthen (filewrite_loop f addr (nat n) s) (\<lambda>ok s. Ret (if ok \<and> 0 \<le> n then n else - 1) s)
      else Panic ''filewrite'')"

text \<open>\<^verbatim>\<open>pipealloc\<close>: both ends, or nothing. The label \<^verbatim>\<open>bad\<close> releases what was obtained.\<close>

definition close_opt :: "nat option \<Rightarrow> 'a file_state_scheme \<Rightarrow> ('a file_state_scheme, unit) outcome" where
  "close_opt f s = (case f of None \<Rightarrow> Ret () s | Some f \<Rightarrow> fileclose f s)"

definition pipealloc_bad :: "nat option \<Rightarrow> nat option \<Rightarrow> 'a file_state_scheme \<Rightarrow> ('a file_state_scheme, (nat \<times> nat) option) outcome" where
  "pipealloc_bad f0 f1 s = andthen (close_opt f0 s) (\<lambda>_ s. andthen (close_opt f1 s) (\<lambda>_ s. Ret None s))"

definition pipealloc :: "'a file_state_scheme \<Rightarrow> ('a file_state_scheme, (nat \<times> nat) option) outcome" where
  "pipealloc s =
     andthen (filealloc s) (\<lambda>f0 s.
     case f0 of None \<Rightarrow> pipealloc_bad None None s
     | Some f0 \<Rightarrow>
         andthen (filealloc s) (\<lambda>f1 s.
         case f1 of None \<Rightarrow> pipealloc_bad (Some f0) None s
         | Some f1 \<Rightarrow>
             andthen (kalloc s) (\<lambda>p s.
             if p = 0 then pipealloc_bad (Some f0) (Some f1) s
             else
               let s = upd_pipe p (\<lambda>k. k\<lparr>pi_readopen := True, pi_writeopen := True, pi_nwrite := 0, pi_nread := 0\<rparr>) s;
                   s = upd_file f0 (\<lambda>k. k\<lparr>f_type := FD_PIPE, f_readable := True, f_writable := False, f_pipe := p\<rparr>) s;
                   s = upd_file f1 (\<lambda>k. k\<lparr>f_type := FD_PIPE, f_readable := False, f_writable := True, f_pipe := p\<rparr>) s in
               Ret (Some (f0, f1)) s)))"

end
