(* ===== verification/Xv6_Pipe.thy ===== *)
theory Xv6_Pipe
  imports Xv6_File
begin

text \<open>
  Correctness of pipes and of the file table. A pipe is a first-in first-out queue of at most
  \<^verbatim>\<open>PIPESIZE\<close> bytes under every interleaving of readers and writers, including those that sleep in the
  middle of a transfer; making a pipe allocates both ends or nothing.
\<close>

section \<open>Contents of a pipe\<close>

definition pipe_len :: "pipe \<Rightarrow> nat" where
  "pipe_len p = unat (pi_nwrite p - pi_nread p)"

definition pipe_byte :: "pipe \<Rightarrow> nat \<Rightarrow> uchar" where
  "pipe_byte p i = pi_data p (unat ((pi_nread p + of_nat i) mod PIPESIZE))"

definition pipe_content :: "pipe \<Rightarrow> uchar list" where
  "pipe_content p = map (pipe_byte p) [0..<pipe_len p]"

lemma unat_mod_512: "unat ((r + of_nat i) mod PIPESIZE) = (unat r + i) mod 512" for r :: uint
proof -
  have "unat (of_nat i :: uint) mod 512 = i mod 512" by (simp add: unat_of_nat mod_mod_cancel)
  then have "(unat r + unat (of_nat i :: uint)) mod 512 = (unat r + i) mod 512" by (metis mod_add_right_eq)
  then show ?thesis by (simp add: unat_mod unat_word_ariths mod_mod_cancel)
qed

text \<open>Storing a byte in a pipe that is not full, and taking one from a pipe that is not empty.\<close>

definition pipe_put :: "uchar \<Rightarrow> pipe \<Rightarrow> pipe" where
  "pipe_put c k = k\<lparr>pi_data := (pi_data k)(unat (pi_nwrite k mod PIPESIZE) := c), pi_nwrite := pi_nwrite k + 1\<rparr>"

definition pipe_take :: "pipe \<Rightarrow> pipe" where
  "pipe_take k = k\<lparr>pi_nread := pi_nread k + 1\<rparr>"

lemma pipe_put_content:
  assumes "pipe_len p \<le> 512" "pi_nwrite p \<noteq> pi_nread p + PIPESIZE"
  shows "pipe_len (pipe_put c p) = Suc (pipe_len p)" "pipe_len p < 512" "pipe_content (pipe_put c p) = pipe_content p @ [c]"
proof -
  have "pi_nwrite p - pi_nread p \<noteq> 512" using assms(2) by (metis add.commute diff_add_cancel)
  then have "pipe_len p \<noteq> 512" by (simp add: pipe_len_def word_unat_eq_iff)
  then show l: "pipe_len p < 512" using assms(1) by simp
  have w: "pi_nwrite p = pi_nread p + of_nat (pipe_len p)" by (simp add: pipe_len_def)
  have "unat (pi_nwrite p - pi_nread p + 1) = Suc (pipe_len p)" using l by (simp add: pipe_len_def unat_word_ariths)
  then show s: "pipe_len (pipe_put c p) = Suc (pipe_len p)" by (simp add: pipe_len_def pipe_put_def algebra_simps)
  have at: "unat (pi_nwrite p mod PIPESIZE) = (unat (pi_nread p) + pipe_len p) mod 512" unfolding w by (rule unat_mod_512)
  have "pipe_byte (pipe_put c p) i = pipe_byte p i" if "i < pipe_len p" for i
  proof -
    have "(unat (pi_nread p) + i) mod 512 \<noteq> (unat (pi_nread p) + pipe_len p) mod 512"
      using that l mod_eq_dvd_iff_nat [of "unat (pi_nread p) + i" "unat (pi_nread p) + pipe_len p" 512]
        dvd_imp_le [of 512 "pipe_len p - i"] by auto
    then show ?thesis by (simp add: pipe_byte_def pipe_put_def unat_mod_512 at)
  qed
  moreover have "pipe_byte (pipe_put c p) (pipe_len p) = c" by (simp add: pipe_byte_def pipe_put_def unat_mod_512 at)
  ultimately show "pipe_content (pipe_put c p) = pipe_content p @ [c]" by (simp add: pipe_content_def s)
qed

lemma pipe_take_content:
  assumes "pi_nread p \<noteq> pi_nwrite p"
  shows "pipe_len p = Suc (pipe_len (pipe_take p))"
    "pipe_content p = pi_data p (unat (pi_nread p mod PIPESIZE)) # pipe_content (pipe_take p)"
proof -
  show l: "pipe_len p = Suc (pipe_len (pipe_take p))"
    using assms unat_diff_Suc [of "pi_nwrite p" "pi_nread p"] unat_diff_pos [of "pi_nwrite p" "pi_nread p"]
    by (simp add: pipe_len_def pipe_take_def)
  have b: "pipe_byte (pipe_take p) = pipe_byte p \<circ> Suc"
    by (simp add: pipe_byte_def pipe_take_def fun_eq_iff algebra_simps)
  have "pipe_byte p 0 = pi_data p (unat (pi_nread p mod PIPESIZE))" by (simp add: pipe_byte_def)
  then show "pipe_content p = pi_data p (unat (pi_nread p mod PIPESIZE)) # pipe_content (pipe_take p)"
    unfolding pipe_content_def l b by (simp add: map_upt_Suc del: upt_Suc)
qed

section \<open>What the transfers do to the contents\<close>

text \<open>The states in which a routine gives up the processor: when it returns and when it sleeps.\<close>

definition hands :: "('s, 'a) outcome \<Rightarrow> 's \<Rightarrow> bool" where
  "hands m t \<longleftrightarrow> (\<exists>a. m = Ret a t) \<or> m = Switch t"

lemma hands_simps [simp]:
  "hands (Ret a s) t = (t = s)" "hands (Switch s) t = (t = s)" "\<not> hands (Panic e) t" "\<not> hands (Undef e) t"
  by (auto simp: hands_def)

lemma hands_andthen:
  "hands (andthen m f) t \<Longrightarrow> (\<exists>a s. m = Ret a s \<and> hands (f a s) t) \<or> m = Switch t"
  by (cases m) auto

text \<open>The primitives of the scheduler and the locks do not touch pipes.\<close>

lemma pipes_kernel:
  "hands (acquire l s) t \<Longrightarrow> pipes t = pipes s" "hands (release l s) t \<Longrightarrow> pipes t = pipes s"
  "hands (wakeup c s) t \<Longrightarrow> pipes t = pipes s" "hands (sleep c l s) t \<Longrightarrow> pipes t = pipes s"
  "hands (sleep_resume l s) t \<Longrightarrow> pipes t = pipes s"
  by (auto simp: acquire_def release_def wakeup_def wakeup1_def sleep_def sched_def sleep_resume_def upd_proc_def Let_def andthen_def
      split: if_splits option.splits outcome.splits)

lemma no_switch [simp]:
  "acquire l s \<noteq> Switch t" "sleep_resume l s \<noteq> Switch t" "release l s \<noteq> Switch t" "wakeup c s \<noteq> Switch t"
  by (auto simp: acquire_def sleep_resume_def release_def wakeup_def Let_def andthen_def split: if_splits option.splits outcome.splits)

lemmas pipes_Ret = pipes_kernel [unfolded hands_def, OF disjI1, OF exI]

lemma pipewrite_loop_content:
  "pipe_len (pipes s p) \<le> 512 \<Longrightarrow> hands (pipewrite_loop n p addr s) t \<Longrightarrow>
   pipe_len (pipes t p) \<le> 512 \<and> (\<exists>k\<le>n. pipe_content (pipes t p) = pipe_content (pipes s p) @ map addr [0..<k]
     \<and> pi_nwrite (pipes t p) = pi_nwrite (pipes s p) + of_nat k \<and> (pipewrite_loop n p addr s = Ret True t \<longrightarrow> k = n))"
proof (induction n arbitrary: addr s)
  case (Suc n)
  show ?case
  proof (cases "pi_nwrite (pipes s p) = pi_nread (pipes s p) + PIPESIZE")
    case True
    have "pipes t = pipes s"
      using Suc.prems(2) True
      by (auto simp: wakeup_def wakeup1_def sleep_def sched_def acquire_def release_def andthen_def upd_proc_def
          split: if_splits option.splits outcome.splits)
    moreover have "pipewrite_loop (Suc n) p addr s \<noteq> Ret True t"
      using True by (auto simp: sleep_def sched_def andthen_eq_Ret split: option.splits if_splits)
    ultimately show ?thesis using Suc.prems(1) by (intro conjI exI [of _ 0]) auto
  next
    case False
    let ?s = "upd_pipe p (pipe_put (addr 0)) s"
    have e: "pipewrite_loop (Suc n) p addr s = pipewrite_loop n p (\<lambda>i. addr (Suc i)) ?s"
      using False by (simp add: pipe_put_def [abs_def])
    have q: "pipes ?s p = pipe_put (addr 0) (pipes s p)" by (simp add: upd_pipe_def)
    note c = pipe_put_content(1) [OF Suc.prems(1) False, of "addr 0"] pipe_put_content(2) [OF Suc.prems(1) False]
      pipe_put_content(3) [OF Suc.prems(1) False, of "addr 0"]
    have "pipe_len (pipes ?s p) \<le> 512" using c(1,2) q by simp
    from Suc.IH [OF this] Suc.prems(2) obtain k where k: "k \<le> n" "pipe_len (pipes t p) \<le> 512"
      "pipe_content (pipes t p) = pipe_content (pipes ?s p) @ map (\<lambda>i. addr (Suc i)) [0..<k]"
      "pi_nwrite (pipes t p) = pi_nwrite (pipes ?s p) + of_nat k"
      "pipewrite_loop n p (\<lambda>i. addr (Suc i)) ?s = Ret True t \<longrightarrow> k = n" unfolding e by blast
    have "map addr [0..<Suc k] = addr 0 # map (\<lambda>i. addr (Suc i)) [0..<k]" by (simp add: map_upt_Suc del: upt_Suc)
    moreover have "pi_nwrite (pipe_put (addr 0) (pipes s p)) = pi_nwrite (pipes s p) + 1" by (simp add: pipe_put_def)
    ultimately show ?thesis using k c(3) q unfolding e by (intro conjI exI [of _ "Suc k"]) (auto simp: algebra_simps)
  qed
qed auto

lemma piperead_loop_content:
  "piperead_loop n p addr s = (t, out) \<Longrightarrow> pipe_len (pipes t p) \<le> pipe_len (pipes s p) \<and> pi_nwrite (pipes t p) = pi_nwrite (pipes s p)
   \<and> (\<exists>new. out = addr @ new \<and> length new \<le> n \<and> pipe_content (pipes s p) = new @ pipe_content (pipes t p))"
proof (induction n arbitrary: addr s)
  case (Suc n)
  show ?case
  proof (cases "pi_nread (pipes s p) = pi_nwrite (pipes s p)")
    case False
    let ?s = "upd_pipe p pipe_take s" and ?c = "pi_data (pipes s p) (unat (pi_nread (pipes s p) mod PIPESIZE))"
    have "piperead_loop n p (addr @ [?c]) ?s = (t, out)" using Suc.prems False by (simp add: pipe_take_def [abs_def])
    from Suc.IH [OF this] obtain new where n: "out = (addr @ [?c]) @ new" "length new \<le> n"
      "pipe_content (pipes ?s p) = new @ pipe_content (pipes t p)"
      "pipe_len (pipes t p) \<le> pipe_len (pipes ?s p)" "pi_nwrite (pipes t p) = pi_nwrite (pipes ?s p)" by blast
    have q: "pipes ?s p = pipe_take (pipes s p)" by (simp add: upd_pipe_def)
    then show ?thesis using n pipe_take_content [OF False]
      by (intro conjI exI [of _ "?c # new"]) (auto simp: pipe_take_def [of "pipes s p"])
  qed (use Suc.prems in auto)
qed auto

section \<open>All interleavings\<close>

text \<open>
  The history of a pipe: each step is one uninterrupted run of a writer or a reader, from its call
  or from the point where it was woken up, until it returns or sleeps; or anything else the kernel
  does that leaves this pipe alone. \<open>w\<close> and \<open>r\<close> are the bytes that writers have put in and readers
  have taken out, in order. How many bytes a writer's step transferred is read off \<^verbatim>\<open>nwrite\<close>.
\<close>

definition written :: "uint \<Rightarrow> (nat \<Rightarrow> uchar) \<Rightarrow> 'a file_state_scheme \<Rightarrow> 'a file_state_scheme \<Rightarrow> uchar list" where
  "written p addr s t = map addr [0..<unat (pi_nwrite (pipes t p) - pi_nwrite (pipes s p))]"

inductive pipe_history :: "uint \<Rightarrow> 'a file_state_scheme \<Rightarrow> uchar list \<Rightarrow> uchar list \<Rightarrow> bool" for p where
  start: "pi_nread (pipes s p) = 0 \<Longrightarrow> pi_nwrite (pipes s p) = 0 \<Longrightarrow> pipe_history p s [] []"
| call_write: "pipe_history p s w r \<Longrightarrow> hands (pipewrite p addr n s) t \<Longrightarrow> n < 2 ^ 31 \<Longrightarrow> pipe_history p t (w @ written p addr s t) r"
| resume_write: "pipe_history p s w r \<Longrightarrow> hands (pipewrite_resume p addr k n s) t \<Longrightarrow> k < 2 ^ 31 \<Longrightarrow> pipe_history p t (w @ written p addr s t) r"
| call_read: "pipe_history p s w r \<Longrightarrow> piperead p n s = Ret (m, bs) t \<Longrightarrow> pipe_history p t w (r @ bs)"
| resume_read: "pipe_history p s w r \<Longrightarrow> piperead_resume p n s = Ret (m, bs) t \<Longrightarrow> pipe_history p t w (r @ bs)"
| sleep_read: "pipe_history p s w r \<Longrightarrow> piperead p n s = Switch t \<or> piperead_resume p n s = Switch t \<Longrightarrow> pipe_history p t w r"
| other: "pipe_history p s w r \<Longrightarrow> pipes t p = pipes s p \<Longrightarrow> pipe_history p t w r"

lemma pipewrite_end_pipes: "hands (pipewrite_end p n ok s) t \<Longrightarrow> pipes t = pipes s"
  by (auto simp: pipewrite_end_def dest!: hands_andthen pipes_kernel pipes_Ret split: if_splits)

lemma pipewrite_step:
  assumes l: "pipe_len (pipes s p) \<le> 512" and k: "k < 2 ^ 31" and s: "pipes s = pipes s0"
    and h: "hands (andthen (pipewrite_loop k p addr s) (\<lambda>ok s. pipewrite_end p n ok s)) t"
  shows "pipe_len (pipes t p) \<le> 512 \<and> pipe_content (pipes t p) = pipe_content (pipes s0 p) @ written p addr s0 t"
proof -
  consider a u where "pipewrite_loop k p addr s = Ret a u" "hands (pipewrite_end p n a u) t" | "pipewrite_loop k p addr s = Switch t"
    using hands_andthen [OF h] by blast
  then obtain u where u: "hands (pipewrite_loop k p addr s) u" "pipes t = pipes u"
    by cases (auto dest: pipewrite_end_pipes)
  from pipewrite_loop_content [OF l u(1)] obtain j where j: "j \<le> k" "pipe_len (pipes u p) \<le> 512"
    "pipe_content (pipes u p) = pipe_content (pipes s p) @ map addr [0..<j]" "pi_nwrite (pipes u p) = pi_nwrite (pipes s p) + of_nat j" by blast
  have "unat (of_nat j :: uint) = j" using j(1) k by (simp add: unat_of_nat)
  then show ?thesis using j u(2) s by (simp add: written_def)
qed

lemma piperead_body_step:
  assumes "piperead_body p n s = Ret (m, bs) t"
  shows "pipe_len (pipes t p) \<le> pipe_len (pipes s p) \<and> pipe_content (pipes s p) = bs @ pipe_content (pipes t p)"
proof (cases "pi_nread (pipes s p) = pi_nwrite (pipes s p) \<and> pi_writeopen (pipes s p)")
  case True
  then show ?thesis using assms by (auto simp: piperead_body_def andthen_eq_Ret dest: pipes_Ret split: if_splits)
next
  case False
  obtain u out where u: "piperead_loop (nat n) p [] s = (u, out)" by (cases "piperead_loop (nat n) p [] s")
  have "out = bs" "pipes t = pipes u" using assms False u by (auto simp: piperead_body_def andthen_eq_Ret dest!: pipes_Ret)
  then show ?thesis using piperead_loop_content [OF u] by auto
qed

lemma piperead_body_sleep: "piperead_body p n s = Switch t \<Longrightarrow> pipes t = pipes s"
  using pipes_kernel(2,4)
  by (fastforce simp: piperead_body_def andthen_def hands_def acquire_def release_def wakeup_def split: if_splits outcome.splits prod.splits)

lemma pipe_history_queue: "pipe_history p s w r \<Longrightarrow> pipe_len (pipes s p) \<le> 512 \<and> w = r @ pipe_content (pipes s p)"
proof (induction rule: pipe_history.induct)
  case (start s)
  then show ?case by (simp add: pipe_len_def pipe_content_def)
next
  case (call_write s w r addr n t)
  then obtain u where u: "pipes u = pipes s" "hands (andthen (pipewrite_loop (nat n) p addr u) (\<lambda>ok s. pipewrite_end p n ok s)) t"
    unfolding pipewrite_def by (auto dest!: hands_andthen [of "acquire (LkPipe p) s"] dest: pipes_Ret)
  have "nat n < 2 ^ 31" using call_write.hyps by simp
  then show ?case using pipewrite_step [OF _ _ u(1) u(2)] call_write.IH u(1) by simp
next
  case (resume_write s w r addr k n t)
  then obtain u where u: "pipes u = pipes s" "hands (andthen (pipewrite_loop k p addr u) (\<lambda>ok s. pipewrite_end p n ok s)) t"
    unfolding pipewrite_resume_def by (auto dest!: hands_andthen [of "sleep_resume (LkPipe p) s"] dest: pipes_Ret)
  then show ?case using pipewrite_step [OF _ _ u(1) u(2)] resume_write by simp
next
  case (call_read s w r n m bs t)
  then obtain u where u: "pipes u = pipes s" "piperead_body p n u = Ret (m, bs) t"
    by (auto simp: piperead_def andthen_eq_Ret dest: pipes_Ret)
  then show ?case using piperead_body_step [OF u(2)] call_read.IH by auto
next
  case (resume_read s w r n m bs t)
  then obtain u where u: "pipes u = pipes s" "piperead_body p n u = Ret (m, bs) t"
    by (auto simp: piperead_resume_def andthen_eq_Ret dest: pipes_Ret)
  then show ?case using piperead_body_step [OF u(2)] resume_read.IH by auto
next
  case (sleep_read s w r n t)
  then obtain u where u: "pipes u = pipes s" "piperead_body p n u = Switch t"
    by (auto simp: piperead_def piperead_resume_def andthen_def dest: pipes_Ret split: outcome.splits)
  then show ?case using piperead_body_sleep [OF u(2)] sleep_read.IH by simp
qed simp

text \<open>
  \<^bold>\<open>C29.\<close> A pipe is a queue. In every history of a pipe, whatever the interleaving of writers and
  readers and wherever they slept, the bytes readers have received followed by the bytes still in
  the pipe are exactly the bytes writers have stored, in order; and the pipe never holds more
  than \<^verbatim>\<open>PIPESIZE\<close> bytes, although its counters wrap around.
\<close>
theorem pipe_is_fifo:
  assumes "pipe_history p s w r"
  shows "w = r @ pipe_content (pipes s p) \<and> length (pipe_content (pipes s p)) \<le> unat PIPESIZE"
  using pipe_history_queue [OF assms] by (simp add: pipe_content_def)

definition empty_pipe :: pipe where
  "empty_pipe = \<lparr>pi_data = (\<lambda>_. 0), pi_nread = 0, pi_nwrite = 0, pi_readopen = True, pi_writeopen = True\<rparr>"

definition quiet_kernel :: file_state where
  "quiet_kernel = undefined\<lparr>held := {}, use_lock := False, freelist := 0, ftable := (\<lambda>_. \<lparr>f_type = FD_NONE, f_ref = 0, f_readable = False,
     f_writable = False, f_pipe = 0, f_ip = 0, f_off = 0\<rparr>), pipes := (\<lambda>_. empty_pipe)\<rparr>"

definition abc_written :: file_state where
  "abc_written = wakeup1 (ChPipeRead 0) (upd_pipe 0 (pipe_put 99) (upd_pipe 0 (pipe_put 98) (upd_pipe 0 (pipe_put 97) quiet_kernel)))"

lemma write_abc: "pipewrite 0 (nth [97, 98, 99]) 3 quiet_kernel = Ret 3 abc_written"
  by (simp add: pipewrite_def pipewrite_end_def quiet_kernel_def abc_written_def empty_pipe_def upd_pipe_def pipe_put_def wakeup_eq
      numeral_3_eq_3 wakeup1_def cong: if_cong)

theorem pipe_is_fifo_witness:
  "pipe_history 0 abc_written [97, 98, 99] [] \<and> pipe_content (pipes abc_written 0) = [97, 98, 99]"
proof -
  have "pipe_history 0 quiet_kernel [] []" by (rule pipe_history.start) (simp_all add: quiet_kernel_def empty_pipe_def)
  then have "pipe_history 0 abc_written ([] @ written 0 (nth [97, 98, 99]) quiet_kernel abc_written) []"
    by (rule pipe_history.call_write [where n = 3]) (simp_all add: write_abc)
  moreover have "written 0 (nth [97, 98, 99]) quiet_kernel abc_written = [97, 98, 99]"
    by (simp add: written_def abc_written_def wakeup1_def upd_pipe_def pipe_put_def quiet_kernel_def empty_pipe_def upt_rec)
  ultimately have h: "pipe_history 0 abc_written [97, 98, 99] []" by simp
  then show ?thesis using pipe_is_fifo [OF h] by simp
qed

section \<open>Making a pipe\<close>

text \<open>An entry of the file table that is not in use has no type: \<^verbatim>\<open>fileclose\<close> clears it.\<close>

definition ftable_inv :: "'a file_state_scheme \<Rightarrow> bool" where
  "ftable_inv s \<longleftrightarrow> (\<forall>f. f_ref (ftable s f) = 0 \<longrightarrow> f_type (ftable s f) = FD_NONE)"

lemma filealloc_cases:
  assumes "LkFtable \<notin> held s"
  shows "(\<forall>f<NFILE. f_ref (ftable s f) \<noteq> 0) \<and> filealloc s = Ret None s
    \<or> (\<exists>f<NFILE. f_ref (ftable s f) = 0 \<and> filealloc s = Ret (Some f) (upd_file f (\<lambda>k. k\<lparr>f_ref := 1\<rparr>) s))"
proof (cases "find (\<lambda>f. f_ref (ftable s f) = 0) [0..<NFILE]")
  case None
  then have "filealloc s = Ret None s" using assms by (simp add: filealloc_def)
  then show ?thesis using None by (simp add: find_None_iff)
next
  case (Some f)
  then have "f < NFILE" "f_ref (ftable s f) = 0" by (auto simp: find_Some_iff)
  moreover have "filealloc s = Ret (Some f) (upd_file f (\<lambda>k. k\<lparr>f_ref := 1\<rparr>) s)"
    using assms Some by (simp add: filealloc_def upd_file_def)
  ultimately show ?thesis by blast
qed

lemma fileclose_fresh:
  assumes "LkFtable \<notin> held s" "f_ref (ftable s f) = 1" "f_type (ftable s f) = FD_NONE"
  shows "fileclose f s = Ret () (upd_file f (\<lambda>k. k\<lparr>f_ref := 0, f_type := FD_NONE\<rparr>) s)"
  using assms by (simp add: fileclose_def upd_file_def Let_def)

lemma upd_file_simps [simp]:
  "ftable (upd_file f g s) = (ftable s)(f := g (ftable s f))" "held (upd_file f g s) = held s"
  "free_pages (upd_file f g s) = free_pages s"
  by (simp_all add: upd_file_def free_pages_def page_ok_def fun_eq_iff)

definition pipe_ends :: "'a file_state_scheme \<Rightarrow> 'a file_state_scheme \<Rightarrow> nat \<Rightarrow> nat \<Rightarrow> uint \<Rightarrow> bool" where
  "pipe_ends s t f0 f1 p \<longleftrightarrow> f0 < NFILE \<and> f1 < NFILE \<and> f0 \<noteq> f1 \<and> f_ref (ftable s f0) = 0 \<and> f_ref (ftable s f1) = 0
     \<and> ftable t f0 = (ftable s f0)\<lparr>f_ref := 1, f_type := FD_PIPE, f_readable := True, f_writable := False, f_pipe := p\<rparr>
     \<and> ftable t f1 = (ftable s f1)\<lparr>f_ref := 1, f_type := FD_PIPE, f_readable := False, f_writable := True, f_pipe := p\<rparr>
     \<and> (\<forall>f. f \<noteq> f0 \<longrightarrow> f \<noteq> f1 \<longrightarrow> ftable t f = ftable s f)
     \<and> pi_readopen (pipes t p) \<and> pi_writeopen (pipes t p) \<and> pipe_content (pipes t p) = []"

text \<open>
  \<^bold>\<open>C30.\<close> \<^verbatim>\<open>pipealloc\<close> gives both ends of a new empty pipe or nothing. When the file table has two free
  entries and a page is free, it returns two different entries as the read and the write end of a
  pipe in that page; otherwise it returns -1 and has given back whatever it had taken.
\<close>
theorem pipealloc_all_or_nothing:
  assumes inv: "ftable_inv s" and fp: "free_pages s ps" and lk: "LkFtable \<notin> held s"
  shows "returns (pipealloc s) (\<lambda>r t. case r of
      Some (f0, f1) \<Rightarrow> (\<exists>p qs. ps = p # qs \<and> free_pages t qs \<and> pipe_ends s t f0 f1 p)
    | None \<Rightarrow> ftable t = ftable s \<and> free_pages t ps \<and> (ps = [] \<or> \<not> (\<exists>f<NFILE. \<exists>g<NFILE. f \<noteq> g \<and> f_ref (ftable s f) = 0 \<and> f_ref (ftable s g) = 0)))"
proof (cases "\<forall>f<NFILE. f_ref (ftable s f) \<noteq> 0")
  case True
  then have "filealloc s = Ret None s" using filealloc_cases [OF lk] by blast
  then have "pipealloc s = Ret None s" by (simp add: pipealloc_def pipealloc_bad_def close_opt_def)
  then show ?thesis using fp True by auto
next
  case False
  then obtain f0 where f0: "f0 < NFILE" "f_ref (ftable s f0) = 0"
    and e0: "filealloc s = Ret (Some f0) (upd_file f0 (\<lambda>k. k\<lparr>f_ref := 1\<rparr>) s)" using filealloc_cases [OF lk] by blast
  let ?s0 = "upd_file f0 (\<lambda>k. k\<lparr>f_ref := 1\<rparr>) s"
  have t0: "f_type (ftable s f0) = FD_NONE" using inv f0 by (simp add: ftable_inv_def)
  have id: "k\<lparr>f_ref := 0, f_type := FD_NONE\<rparr> = k" if "f_ref k = 0" "f_type k = FD_NONE" for k :: kfile using that by simp
  show ?thesis
  proof (cases "\<forall>f<NFILE. f_ref (ftable ?s0 f) \<noteq> 0")
    case True
    then have "filealloc ?s0 = Ret None ?s0" using filealloc_cases [of ?s0] lk by auto
    then have "pipealloc s = Ret None (upd_file f0 (\<lambda>k. k\<lparr>f_ref := 0, f_type := FD_NONE\<rparr>) ?s0)"
      using e0 t0 lk by (simp add: pipealloc_def pipealloc_bad_def close_opt_def fileclose_fresh)
    moreover have "\<not> (\<exists>f<NFILE. \<exists>g<NFILE. f \<noteq> g \<and> f_ref (ftable s f) = 0 \<and> f_ref (ftable s g) = 0)"
      using True by (auto split: if_splits)
    ultimately show ?thesis using fp f0 t0 by (auto simp: fun_eq_iff)
  next
    case False
    have h0: "LkFtable \<notin> held ?s0" using lk by simp
    from False filealloc_cases [OF h0] obtain f1 where f1: "f1 < NFILE" "f_ref (ftable ?s0 f1) = 0"
      and e1: "filealloc ?s0 = Ret (Some f1) (upd_file f1 (\<lambda>k. k\<lparr>f_ref := 1\<rparr>) ?s0)" by blast
    let ?s1 = "upd_file f1 (\<lambda>k. k\<lparr>f_ref := 1\<rparr>) ?s0"
    have n: "f1 \<noteq> f0" "f_ref (ftable s f1) = 0" using f1 by (auto split: if_splits)
    have t1: "f_type (ftable s f1) = FD_NONE" using inv n by (simp add: ftable_inv_def)
    have fp1: "free_pages ?s1 ps" using fp by simp
    show ?thesis
    proof (cases ps)
      case Nil
      then have "kalloc ?s1 = Ret 0 ?s1" using fp1 by (intro kalloc_empty) simp
      then have "pipealloc s = Ret None (upd_file f1 (\<lambda>k. k\<lparr>f_ref := 0, f_type := FD_NONE\<rparr>) (upd_file f0 (\<lambda>k. k\<lparr>f_ref := 0, f_type := FD_NONE\<rparr>) ?s1))"
        using e0 e1 t0 t1 n lk by (simp add: pipealloc_def pipealloc_bad_def close_opt_def fileclose_fresh)
      then show ?thesis using fp f0 t0 n t1 Nil by (auto simp: fun_eq_iff)
    next
      case (Cons p qs)
      let ?s2 = "?s1\<lparr>freelist := load32 (mem ?s1) p\<rparr>"
      have k: "kalloc ?s1 = Ret p ?s2" using fp1 Cons by (intro kalloc_pop) simp
      have p: "p \<noteq> 0" "free_pages ?s2 qs" using fp1 Cons free_pages_tail [of ?s1 p qs] by (auto simp: free_pages_def)
      have pf: "free_pages (upd_pipe p g u) = free_pages u" for g and u :: "'a file_state_scheme"
        by (simp add: upd_pipe_def free_pages_def page_ok_def fun_eq_iff)
      have ff: "ftable ?s2 = ftable ?s1" by simp
      show ?thesis using e0 e1 k p n f0 f1 Cons pf
        by (simp add: pipealloc_def Let_def pipe_ends_def) (simp add: upd_pipe_def upd_file_def pipe_content_def pipe_len_def)
    qed
  qed
qed

theorem pipealloc_all_or_nothing_witness:
  "ftable_inv quiet_kernel \<and> returns (pipealloc quiet_kernel) (\<lambda>r t. r = None \<and> ftable t = ftable quiet_kernel)"
proof -
  have i: "ftable_inv quiet_kernel" "free_pages quiet_kernel []" "LkFtable \<notin> held quiet_kernel"
    by (simp_all add: ftable_inv_def quiet_kernel_def free_pages_def)
  have "returns (pipealloc quiet_kernel) (\<lambda>r t. r = None \<and> ftable t = ftable quiet_kernel)"
    by (rule returns_mono [OF pipealloc_all_or_nothing [OF i]]) (simp split: option.split_asm prod.split_asm)
  then show ?thesis using i(1) by blast
qed

end
