(* ===== verification/Xv6_Falloc.thy ===== *)
theory Xv6_Falloc
  imports Xv6_Inode
begin

text \<open>
  Correctness of the block allocator and of inode update (\<^verbatim>\<open>fs.c\<close>), inside a transaction. A view with
  a budget counts each logged block once, as the log absorbs repeated writes of a block; the
  bitmap is read as the set of free blocks.
\<close>

section \<open>A view with a budget\<close>

text \<open>Up to \<open>C\<close> distinct blocks may be logged by the transaction.\<close>

definition fview :: "'a log_state_scheme \<Rightarrow> (uint \<Rightarrow> block) \<Rightarrow> (nat \<times> uint) list \<Rightarrow> nat \<Rightarrow> uint set \<Rightarrow> bool" where
  "fview s V H C L \<longleftrightarrow> tview s V H (C - card L) L \<and> card L \<le> C \<and> C \<le> 29 \<and> int C \<le> lg_size s - 1"

lemma tview_count: "tview s V H R L \<Longrightarrow> int (card L) = lh_n s"
  unfolding tview_def log_blocks_def by (auto simp: card_image)

lemma fviewI:
  assumes "tview s V H R L" "card L \<le> C" "C \<le> 29" "int C \<le> lg_size s - 1"
  shows "fview s V H C L"
  using assms tview_count [OF assms(1)] unfolding fview_def tview_def by auto

lemma fview_tview: "fview s V H C L \<Longrightarrow> tview s V H 0 L"
  using tview_weaken unfolding fview_def by blast

lemma fview_card: "fview s V H C L \<Longrightarrow> card L \<le> C"
  by (simp add: fview_def)

lemma tview_cong:
  assumes "bufs t = bufs s" "disk t = disk s" "held t = held s" "lh_n t = lh_n s" "lh_block t = lh_block s"
    "lg_size t = lg_size s" "lg_outstanding t = lg_outstanding s"
  shows "tview t V H R L = tview s V H R L"
  unfolding tview_def log_blocks_def using assms bview_cong [OF assms(1-3)] by simp

text \<open>
  The interface of transactions with a budget: a block that is logged already costs nothing, but
  no block can be logged once the budget is used up.
\<close>

locale block_budget =
  fixes rd :: "uint \<Rightarrow> 's \<Rightarrow> ('s, nat) outcome"
    and wr :: "nat \<Rightarrow> block \<Rightarrow> 's \<Rightarrow> ('s, unit) outcome"
    and rel :: "nat \<Rightarrow> 's \<Rightarrow> ('s, unit) outcome"
    and get :: "'s \<Rightarrow> nat \<Rightarrow> block"
    and on_disk :: "'s \<Rightarrow> uint \<Rightarrow> bool"
    and view :: "'s \<Rightarrow> (uint \<Rightarrow> block) \<Rightarrow> (nat \<times> uint) list \<Rightarrow> nat \<Rightarrow> uint set \<Rightarrow> bool"
    and same :: "'s \<Rightarrow> 's \<Rightarrow> bool"
  assumes read_law: "view s V H C L \<Longrightarrow> (\<And>c. (c, n) \<notin> set H) \<Longrightarrow> on_disk s n \<Longrightarrow> card L + length H \<le> C \<Longrightarrow>
      returns (rd n s) (\<lambda>b t. view t V ((b, n) # H) C L \<and> same s t)"
    and write_law: "view s V H C L \<Longrightarrow> (b, n) \<in> set H \<Longrightarrow> card L < C \<Longrightarrow>
      returns (wr b d s) (\<lambda>_ t. view t (V(n := d)) H C (insert n L) \<and> same s t)"
    and rel_law: "view s V ((b, n) # H) C L \<Longrightarrow> returns (rel b s) (\<lambda>_ t. view t V H C L \<and> same s t)"
    and get_law: "view s V H C L \<Longrightarrow> (b, n) \<in> set H \<Longrightarrow> get s b = V n"
    and same_trans: "same s t \<Longrightarrow> same t u \<Longrightarrow> same s u"
begin

lemma write_release:
  assumes v: "view s V ((b, n) # H) C L" and c: "card L < C"
  shows "returns (andthen (wr b (f (get s b)) s) (\<lambda>_ s. rel b s)) (\<lambda>_ t. view t (V(n := f (V n))) H C (insert n L) \<and> same s t)"
proof -
  have d: "get s b = V n" using get_law [OF v] by simp
  have "returns (wr b (f (V n)) s) (\<lambda>_ t. view t (V(n := f (V n))) ((b, n) # H) C (insert n L) \<and> same s t)"
    by (rule write_law [OF v _ c]) simp
  then show ?thesis unfolding d
    by (rule returns_andthenI) (auto dest!: rel_law elim!: returns_mono intro: same_trans)
qed

lemma read_block:
  assumes v: "view s V H C L" and n: "\<And>c. (c, n) \<notin> set H" "on_disk s n" "card L + length H \<le> C"
  shows "returns (andthen (rd n s) (\<lambda>b s. let x = f (get s b) in andthen (rel b s) (\<lambda>_ s. Ret x s)))
    (\<lambda>x t. x = f (V n) \<and> view t V H C L \<and> same s t)"
proof (rule returns_andthenI [OF read_law [OF v n]], elim conjE)
  fix b t
  assume t: "view t V ((b, n) # H) C L" "same s t"
  have "get t b = V n" using get_law [OF t(1)] by simp
  then show "returns (let x = f (get t b) in andthen (rel b t) (\<lambda>_ s. Ret x s)) (\<lambda>x t. x = f (V n) \<and> view t V H C L \<and> same s t)"
    using rel_law [OF t(1)] same_trans [OF t(2)] by (auto elim!: returns_mono)
qed

lemma update_block:
  assumes v: "view s V H C L" and n: "\<And>c. (c, n) \<notin> set H" "on_disk s n" "card L + length H \<le> C" "card L < C"
  shows "returns (andthen (rd n s) (\<lambda>b s. andthen (wr b (f (get s b)) s) (\<lambda>_ s. rel b s)))
    (\<lambda>_ t. view t (V(n := f (V n))) H C (insert n L) \<and> same s t)"
  by (rule returns_andthenI [OF read_law [OF v n(1-3)]], elim conjE, rule returns_mono [OF write_release])
    (use n(4) in \<open>auto intro: same_trans\<close>)

end

interpretation bx: block_budget "bread 1" tx_write brelse "\<lambda>s b. b_data (bufs s b)" "\<lambda>s n. n < disksize s" fview tx_same
proof
  fix s :: "'a log_state_scheme" and V H C L b n d and t u :: "'a log_state_scheme"
  have keep: "fview t V' H' C L'" if "fview s V H C L" "tview t V' H' R L'" "tx_same s t" "card L' \<le> C" for V' H' R L' V H t
    using that by (intro fviewI [of t V' H' R L' C]) (auto simp: fview_def tx_sameD)
  show "returns (bread 1 n s) (\<lambda>b t. fview t V ((b, n) # H) C L \<and> tx_same s t)"
    if v: "fview s V H C L" and n: "\<And>c. (c, n) \<notin> set H" "n < disksize s" "card L + length H \<le> C"
  proof -
    have "returns (bread 1 n s) (\<lambda>b t. tview t V ((b, n) # H) (C - card L) L \<and> tx_same s t)"
      by (rule tx.read_law) (use v n in \<open>auto simp: fview_def\<close>)
    then show ?thesis using keep [OF v] v by (auto elim!: returns_mono simp: fview_def)
  qed
  show "returns (tx_write b d s) (\<lambda>_ t. fview t (V(n := d)) H C (insert n L) \<and> tx_same s t)"
    if v: "fview s V H C L" and b: "(b, n) \<in> set H" and c: "card L < C"
  proof -
    have "tview s V H (Suc (C - card L - 1)) L" using v c by (simp add: fview_def Suc_diff_Suc)
    then have w: "returns (tx_write b d s) (\<lambda>_ t. tview t (V(n := d)) H (C - card L - 1) (insert n L) \<and> tx_same s t)"
      using b by (rule tx.write_law)
    have "card (insert n L) \<le> C" using c card_insert_le_m1 [of C L n] by simp
    then show ?thesis using w keep [OF v] by (blast intro: returns_mono)
  qed
  show "returns (brelse b s) (\<lambda>_ t. fview t V H C L \<and> tx_same s t)" if v: "fview s V ((b, n) # H) C L"
  proof -
    have "tview s V ((b, n) # H) (C - card L) L" using v by (simp add: fview_def)
    then have "returns (brelse b s) (\<lambda>_ t. tview t V H (C - card L) L \<and> tx_same s t)" by (rule tx.rel_last)
    then show ?thesis using keep [OF v] v by (auto elim!: returns_mono simp: fview_def)
  qed
  show "b_data (bufs s b) = V n" if "fview s V H C L" "(b, n) \<in> set H"
    using that unfolding fview_def by (auto intro: tview_data)
  show "tx_same s u" if "tx_same s t" "tx_same t u" using that by (rule tx_same_trans)
qed

section \<open>The free map\<close>

lemma bm_get_bit: "bm_get d i \<longleftrightarrow> bit (d (i div 8)) (i mod 8)"
  by (simp add: bm_get_def push_bit_eq_mult and_exp_eq_0_iff_not_bit)

lemma byte_index: "i div 8 = j div 8 \<Longrightarrow> (i mod 8 = j mod 8) = (i = (j::nat))"
  by (metis mult_div_mod_eq)

lemma bm_get_set [simp]: "bm_get (bm_set i d) j \<longleftrightarrow> j = i \<or> bm_get d j"
proof (cases "j div 8 = i div 8")
  case True
  then show ?thesis by (simp add: bm_get_bit bm_set_def bit_or_iff bit_exp_iff byte_index [OF True, symmetric]) (auto simp: bit_exp_iff)
next
  case False
  then have "j \<noteq> i" by auto
  then show ?thesis using False by (simp add: bm_get_bit bm_set_def)
qed

lemma bm_get_clear [simp]: "bm_get (bm_clear i d) j \<longleftrightarrow> j \<noteq> i \<and> bm_get d j"
proof (cases "j div 8 = i div 8")
  case True
  then show ?thesis by (simp add: bm_get_bit bm_clear_def bit_and_iff bit_not_iff bit_exp_iff byte_index [OF True, symmetric]) (auto simp: bit_exp_iff)
next
  case False
  then have "j \<noteq> i" by auto
  then show ?thesis using False by (simp add: bm_get_bit bm_clear_def)
qed

lemma bm_clear_set [simp]:
  assumes "\<not> bm_get d i"
  shows "bm_clear i (bm_set i d) = d"
proof -
  have "(w OR push_bit k 1) AND NOT (push_bit k 1) = w" if "\<not> bit w k" for w :: uchar and k
    by (rule bit_word_eqI) (use that in \<open>auto simp: bit_simps\<close>)
  then show ?thesis using assms by (simp add: bm_get_bit bm_clear_def bm_set_def)
qed

definition used :: "superblock \<Rightarrow> (uint \<Rightarrow> block) \<Rightarrow> uint \<Rightarrow> bool" where
  "used sb V b \<longleftrightarrow> bm_get (V (BBLOCK b sb)) (unat b mod BPB)"

definition free_blocks :: "superblock \<Rightarrow> (uint \<Rightarrow> block) \<Rightarrow> uint set" where
  "free_blocks sb V = {b. b < sb_size sb \<and> \<not> used sb V b}"

definition bitmap_blocks :: "superblock \<Rightarrow> uint set" where
  "bitmap_blocks sb = (\<lambda>b. BBLOCK b sb) ` {b. b < sb_size sb}"

definition inode_blocks :: "superblock \<Rightarrow> uint set" where
  "inode_blocks sb = (\<lambda>i. IBLOCK i sb) ` {i. i < sb_ninodes sb}"

definition log_area :: "superblock \<Rightarrow> uint set" where
  "log_area sb = {b. sb_logstart sb \<le> b \<and> b < sb_logstart sb + sb_nlog sb}"

text \<open>
  The layout of the file system: metadata blocks are on the disk and in use, so that free blocks
  are data blocks.
\<close>

definition fs_ok :: "uint \<Rightarrow> superblock \<Rightarrow> (uint \<Rightarrow> block) \<Rightarrow> bool" where
  "fs_ok dsz sb V \<longleftrightarrow> sb_size sb \<le> dsz \<and> (\<forall>b\<in>bitmap_blocks sb \<union> inode_blocks sb. b < dsz)
     \<and> free_blocks sb V \<inter> (bitmap_blocks sb \<union> inode_blocks sb \<union> log_area sb \<union> {0, 1}) = {}
     \<and> bitmap_blocks sb \<inter> inode_blocks sb = {}"

lemma BBLOCK_inj: "BBLOCK b sb = BBLOCK c sb \<Longrightarrow> unat b mod BPB = unat c mod BPB \<Longrightarrow> b = c"
proof -
  assume "BBLOCK b sb = BBLOCK c sb" and m: "unat b mod BPB = unat c mod BPB"
  then have "b div 4096 = c div 4096" by (simp add: BBLOCK_def)
  then have "unat (b div 4096) = unat (c div 4096)" by simp
  then have "unat b div 4096 = unat c div 4096" by (simp add: unat_div)
  then have "unat b = unat c" using m by (metis mult_div_mod_eq)
  then show ?thesis by (simp add: word_unat_eq_iff)
qed

lemma used_set:
  "used sb (V(BBLOCK b sb := bm_set (unat b mod BPB) (V (BBLOCK b sb)))) c \<longleftrightarrow> c = b \<or> used sb V c"
proof (cases "BBLOCK c sb = BBLOCK b sb")
  case True
  then have "unat c mod BPB = unat b mod BPB \<longleftrightarrow> c = b" using BBLOCK_inj by blast
  then show ?thesis using True by (simp add: used_def)
next
  case False
  then have "c \<noteq> b" by auto
  then show ?thesis using False by (simp add: used_def)
qed

lemma used_clear:
  "used sb (V(BBLOCK b sb := bm_clear (unat b mod BPB) (V (BBLOCK b sb)))) c \<longleftrightarrow> c \<noteq> b \<and> used sb V c"
proof (cases "BBLOCK c sb = BBLOCK b sb")
  case True
  then have "unat c mod BPB = unat b mod BPB \<longleftrightarrow> c = b" using BBLOCK_inj by blast
  then show ?thesis using True by (simp add: used_def)
next
  case False
  then have "c \<noteq> b" by auto
  then show ?thesis using False by (simp add: used_def)
qed

lemma used_other: "n \<notin> bitmap_blocks sb \<Longrightarrow> c < sb_size sb \<Longrightarrow> used sb (V(n := d)) c = used sb V c"
  by (auto simp: used_def bitmap_blocks_def)

lemma free_blocks_other: "n \<notin> bitmap_blocks sb \<Longrightarrow> free_blocks sb (V(n := d)) = free_blocks sb V"
  by (auto simp: free_blocks_def used_other)

text \<open>What allocating and freeing a block do to the blocks of the disk.\<close>

definition zeroed :: "block \<Rightarrow> block" where
  "zeroed d = (\<lambda>i. if i < BSIZE then 0 else d i)"

definition alloc_view :: "superblock \<Rightarrow> uint \<Rightarrow> (uint \<Rightarrow> block) \<Rightarrow> uint \<Rightarrow> block" where
  "alloc_view sb b V = (V(BBLOCK b sb := bm_set (unat b mod BPB) (V (BBLOCK b sb))))(b := zeroed (V b))"

definition free_view :: "superblock \<Rightarrow> uint \<Rightarrow> (uint \<Rightarrow> block) \<Rightarrow> uint \<Rightarrow> block" where
  "free_view sb b V = V(BBLOCK b sb := bm_clear (unat b mod BPB) (V (BBLOCK b sb)))"

lemma free_alloc_view:
  assumes "fs_ok dsz sb V" "b \<in> free_blocks sb V"
  shows "free_blocks sb (alloc_view sb b V) = free_blocks sb V - {b}" "fs_ok dsz sb (alloc_view sb b V)"
proof -
  have b: "b \<notin> bitmap_blocks sb" using assms by (auto simp: fs_ok_def)
  have "free_blocks sb (V(BBLOCK b sb := bm_set (unat b mod BPB) (V (BBLOCK b sb)))) = free_blocks sb V - {b}"
    by (auto simp: free_blocks_def used_set)
  then show "free_blocks sb (alloc_view sb b V) = free_blocks sb V - {b}"
    unfolding alloc_view_def free_blocks_other [OF b] .
  then show "fs_ok dsz sb (alloc_view sb b V)" using assms(1) by (auto simp: fs_ok_def)
qed

lemma alloc_view_other: "n \<noteq> b \<Longrightarrow> n \<noteq> BBLOCK b sb \<Longrightarrow> alloc_view sb b V n = V n"
  by (simp add: alloc_view_def)

lemma alloc_view_zeroed: "b \<noteq> BBLOCK b sb \<Longrightarrow> alloc_view sb b V b = zeroed (V b)"
  by (simp add: alloc_view_def)

section \<open>balloc and bfree\<close>

lemma bzero_fview:
  assumes "fview s V H C L" "\<And>c. (c, n) \<notin> set H" "n < disksize s" "card L + length H \<le> C" "card L < C"
  shows "returns (bzero 1 n s) (\<lambda>_ t. fview t (V(n := zeroed (V n))) H C (insert n L) \<and> tx_same s t)"
proof -
  have e: "upd_buf b (\<lambda>k. k\<lparr>b_data := (\<lambda>i. if i < BSIZE then 0 else b_data k i)\<rparr>) s = upd_buf b (\<lambda>k. k\<lparr>b_data := zeroed (b_data (bufs s b))\<rparr>) s" for b and s :: "'a log_state_scheme"
    by (simp add: upd_buf_def zeroed_def)
  show ?thesis unfolding bzero_def e tx_write_def [symmetric]
    using bx.update_block [OF assms(1), of n zeroed] assms(2-5) by simp
qed

lemma tx_same_fs:
  assumes "tx_same s t"
  shows "fs_sb t = fs_sb s" "icache t = icache s"
  using assms by (auto simp: tx_same_def)

lemma group_bit:
  assumes "b mod BPB = 0" "bi < BPB" "b + bi < 2 ^ 32"
  shows "BBLOCK (of_nat (b + bi)) sb = BBLOCK (of_nat b) sb" "unat (of_nat (b + bi) :: uint) mod BPB = bi"
proof -
  have u: "unat (of_nat (b + bi) :: uint) = b + bi" "unat (of_nat b :: uint) = b" using assms(3) by (simp_all add: unat_of_nat take_bit_nat_eq_self del: of_nat_add)
  have "(b + bi) div 4096 = b div 4096" using assms(1,2) by (auto simp: mod_eq_0_iff_dvd elim!: dvdE)
  then have "unat (of_nat (b + bi) div 4096 :: uint) = unat (of_nat b div 4096 :: uint)" using u by (simp add: unat_div del: of_nat_add)
  then have "of_nat (b + bi) div 4096 = (of_nat b div 4096 :: uint)" by (simp add: word_unat_eq_iff del: of_nat_add)
  then show "BBLOCK (of_nat (b + bi)) sb = BBLOCK (of_nat b) sb" by (simp add: BBLOCK_def del: of_nat_add)
  show "unat (of_nat (b + bi) :: uint) mod BPB = bi" unfolding u using assms by (simp add: mod_add_left_eq [symmetric] del: mod_add_left_eq)
qed

text \<open>One block of the bitmap: either all its blocks are in use, or the first free one is taken.\<close>

definition ready_alloc :: "'a fs_state_scheme \<Rightarrow> (uint \<Rightarrow> block) \<Rightarrow> (nat \<times> uint) list \<Rightarrow> nat \<Rightarrow> uint set \<Rightarrow> bool" where
  "ready_alloc s V H C L \<longleftrightarrow> fview s V H C L \<and> fs_ok (disksize s) (fs_sb s) V
     \<and> (\<forall>c n. (c, n) \<in> set H \<longrightarrow> n \<notin> bitmap_blocks (fs_sb s) \<union> free_blocks (fs_sb s) V)
     \<and> card (L \<union> bitmap_blocks (fs_sb s)) + length H \<le> C \<and> card (L \<union> bitmap_blocks (fs_sb s)) < C"

lemma ready_alloc_same: "ready_alloc s V H C L \<Longrightarrow> tx_same s t \<Longrightarrow> fview t V H C L \<Longrightarrow> ready_alloc t V H C L"
  by (simp add: ready_alloc_def tx_same_fs tx_sameD)

lemma bitmap_group:
  assumes "b mod BPB = 0" "b < unat (sb_size sb)"
  shows "BBLOCK (of_nat b) sb \<in> bitmap_blocks sb"
proof -
  have "unat (of_nat b :: uint) = b" using assms unat_bound [of "sb_size sb"] by (simp add: unat_of_nat take_bit_nat_eq_self)
  then have "of_nat b < sb_size sb" using assms by (simp add: word_less_nat_alt)
  then show ?thesis by (auto simp: bitmap_blocks_def)
qed

lemma balloc_in_bits:
  assumes "b mod BPB = 0" "b < unat (sb_size sb)" "bi < min BPB (unat (sb_size sb) - b)"
  shows "\<not> bm_get (V (BBLOCK (of_nat b) sb)) bi \<longleftrightarrow> of_nat (b + bi) \<in> free_blocks sb V" "unat (of_nat (b + bi) :: uint) = b + bi"
    "BBLOCK (of_nat (b + bi)) sb = BBLOCK (of_nat b) sb" "unat (of_nat (b + bi) :: uint) mod BPB = bi"
proof -
  have l: "b + bi < unat (sb_size sb)" "bi < BPB" using assms by auto
  then have l2: "b + bi < 2 ^ 32" using unat_bound [of "sb_size sb"] by linarith
  show u: "unat (of_nat (b + bi) :: uint) = b + bi" using l2 by (simp add: unat_of_nat take_bit_nat_eq_self del: of_nat_add)
  show g: "BBLOCK (of_nat (b + bi)) sb = BBLOCK (of_nat b) sb" "unat (of_nat (b + bi) :: uint) mod BPB = bi"
    using group_bit [OF assms(1) l(2) l2] by blast+
  have "of_nat (b + bi) < sb_size sb" using u l(1) by (simp add: word_less_nat_alt del: of_nat_add)
  then show "\<not> bm_get (V (BBLOCK (of_nat b) sb)) bi \<longleftrightarrow> of_nat (b + bi) \<in> free_blocks sb V"
    using g by (simp add: free_blocks_def used_def del: of_nat_add)
qed

lemma balloc_in_full:
  assumes r: "ready_alloc s V H C L" and b: "b mod BPB = 0" "b < unat (sb_size (fs_sb s))"
    and full: "\<And>n. n \<in> free_blocks (fs_sb s) V \<Longrightarrow> b + BPB \<le> unat n"
  shows "returns (balloc_in 1 b s) (\<lambda>r t. r = None \<and> fview t V H C L \<and> tx_same s t)"
proof -
  let ?n = "BBLOCK (of_nat b) (fs_sb s)" and ?m = "min BPB (unat (sb_size (fs_sb s)) - b)"
  have n: "?n \<in> bitmap_blocks (fs_sb s)" by (rule bitmap_group [OF b])
  have v: "fview s V H C L" "\<And>c. (c, ?n) \<notin> set H" "?n < disksize s" "card L + length H \<le> C"
    using r n card_mono [of "L \<union> bitmap_blocks (fs_sb s)" L] by (auto simp: ready_alloc_def fs_ok_def)
  have f: "find (\<lambda>bi. \<not> bm_get (V ?n) bi) [0..<?m] = None"
    unfolding find_None_iff
  proof clarify
    fix bi assume "bi \<in> set [0..<?m]" "\<not> bm_get (V ?n) bi"
    then have "of_nat (b + bi) \<in> free_blocks (fs_sb s) V" "bi < BPB" "unat (of_nat (b + bi) :: uint) = b + bi"
      using balloc_in_bits(1) [OF b, of bi V] balloc_in_bits(2) [OF b, of bi] by (auto simp del: of_nat_add)
    then show False using full by fastforce
  qed
  show ?thesis unfolding balloc_in_def
  proof (rule returns_andthenI [OF bx.read_law [OF v]], elim conjE)
    fix bp t
    assume t: "fview t V ((bp, ?n) # H) C L" "tx_same s t"
    have "b_data (bufs t bp) = V ?n" using bx.get_law [OF t(1)] by simp
    then show "returns (case find (\<lambda>bi. \<not> bm_get (b_data (bufs t bp)) bi) [0..<min BPB (unat (sb_size (fs_sb t)) - b)] of
        None \<Rightarrow> andthen (brelse bp t) (\<lambda>_. Ret None)
      | Some bi \<Rightarrow> andthen (log_write bp (upd_buf bp (\<lambda>k. k\<lparr>b_data := bm_set bi (b_data k)\<rparr>) t)) (\<lambda>_ s.
          andthen (brelse bp s) (\<lambda>_ s. andthen (bzero 1 (of_nat (b + bi)) s) (\<lambda>_. Ret (Some (of_nat (b + bi)))))))
      (\<lambda>r t. r = None \<and> fview t V H C L \<and> tx_same s t)"
      using f t bx.rel_law [OF t(1)] tx_same_fs [OF t(2)] by (auto elim!: returns_mono intro: tx_same_trans)
  qed
qed

lemma balloc_in_finds:
  assumes r: "ready_alloc s V H C L" and b: "b mod BPB = 0" "b < unat (sb_size (fs_sb s))"
    and free: "n \<in> free_blocks (fs_sb s) V" "b \<le> unat n" "unat n < b + BPB" and low: "\<And>m. m \<in> free_blocks (fs_sb s) V \<Longrightarrow> n \<le> m"
  shows "returns (balloc_in 1 b s) (\<lambda>r t. r = Some n \<and> fview t (alloc_view (fs_sb s) n V) H C ({n, BBLOCK n (fs_sb s)} \<union> L) \<and> tx_same s t)"
proof -
  let ?n = "BBLOCK (of_nat b) (fs_sb s)" and ?m = "min BPB (unat (sb_size (fs_sb s)) - b)" and ?i = "unat n - b"
  have i: "?i < ?m" using free by (auto simp: free_blocks_def word_less_nat_alt)
  have ni: "of_nat (b + ?i) = n" using free(2) by simp
  note bits = balloc_in_bits [OF b]
  have g: "BBLOCK n (fs_sb s) = ?n" "unat n mod BPB = ?i" using bits(3,4) [OF i] unfolding ni by auto
  have nb: "?n \<in> bitmap_blocks (fs_sb s)" by (rule bitmap_group [OF b])
  have nn: "n \<notin> bitmap_blocks (fs_sb s)" "n < disksize s" using r free(1) by (auto simp: ready_alloc_def fs_ok_def free_blocks_def)
  have v: "fview s V H C L" "\<And>c. (c, ?n) \<notin> set H" "?n < disksize s" "card L + length H \<le> C"
    and h: "\<And>c. (c, n) \<notin> set H" and c: "card L < C" "card (insert ?n L) + length H \<le> C" "card (insert ?n L) < C"
    using r nb free(1) card_mono [of "L \<union> bitmap_blocks (fs_sb s)" L] card_mono [of "L \<union> bitmap_blocks (fs_sb s)" "insert ?n L"]
    by (auto simp: ready_alloc_def fs_ok_def)
  have f: "find (\<lambda>bi. \<not> bm_get (V ?n) bi) [0..<?m] = Some ?i"
    unfolding find_Some_iff
  proof (intro exI conjI allI impI)
    show "?i < length [0..<?m]" using i by simp
    show "\<not> bm_get (V ?n) ([0..<?m] ! ?i)" using i bits(1) [OF i, of V] free(1) ni by simp
    show "?i = [0..<?m] ! ?i" using i by simp
    fix j assume "j < ?i"
    then have j: "j < ?m" using i by simp
    have "of_nat (b + j) < n" using bits(2) [OF j] \<open>j < ?i\<close> by (simp add: word_less_nat_alt del: of_nat_add)
    then have "of_nat (b + j) \<notin> free_blocks (fs_sb s) V" using low by fastforce
    then show "\<not> \<not> bm_get (V ?n) ([0..<?m] ! j)" using bits(1) [OF j, of V] j by simp
  qed
  have e: "upd_buf bp (\<lambda>k. k\<lparr>b_data := bm_set ?i (b_data k)\<rparr>) t = upd_buf bp (\<lambda>k. k\<lparr>b_data := bm_set ?i (b_data (bufs t bp))\<rparr>) t" for bp and t :: "'a fs_state_scheme"
    by (simp add: upd_buf_def)
  let ?V = "V(?n := bm_set ?i (V ?n))"
  have fin: "?V(n := zeroed (?V n)) = alloc_view (fs_sb s) n V" using nn(1) nb g by (auto simp: alloc_view_def)
  show ?thesis unfolding balloc_in_def
  proof (rule returns_andthenI [OF bx.read_law [OF v]], elim conjE)
    fix bp t
    assume t: "fview t V ((bp, ?n) # H) C L" "tx_same s t"
    have d: "b_data (bufs t bp) = V ?n" using bx.get_law [OF t(1)] by simp
    have w: "returns (andthen (log_write bp (upd_buf bp (\<lambda>k. k\<lparr>b_data := bm_set ?i (b_data k)\<rparr>) t)) (\<lambda>_ s. brelse bp s))
       (\<lambda>_ u. fview u ?V H C (insert ?n L) \<and> tx_same t u)"
      using bx.write_release [OF t(1) c(1), of "bm_set ?i"] unfolding tx_write_def e by simp
    have z: "returns (bzero 1 n u) (\<lambda>_ x. fview x (alloc_view (fs_sb s) n V) H C ({n, BBLOCK n (fs_sb s)} \<union> L) \<and> tx_same u x)"
      if "fview u ?V H C (insert ?n L)" "tx_same t u" for u
      using bzero_fview [OF that(1) h _ c(2,3)] nn(2) tx_sameD(4) [OF that(2)] tx_sameD(4) [OF t(2)] unfolding fin g by simp
    have "returns (andthen (andthen (log_write bp (upd_buf bp (\<lambda>k. k\<lparr>b_data := bm_set ?i (b_data k)\<rparr>) t)) (\<lambda>_ s. brelse bp s))
       (\<lambda>_ s. andthen (bzero 1 n s) (\<lambda>_. Ret (Some n))))
      (\<lambda>r t. r = Some n \<and> fview t (alloc_view (fs_sb s) n V) H C ({n, BBLOCK n (fs_sb s)} \<union> L) \<and> tx_same s t)"
      by (rule returns_andthenI [OF w], elim conjE, rule returns_andthenI [OF z]) (use t(2) in \<open>auto intro: tx_same_trans\<close>)
    then show "returns (case find (\<lambda>bi. \<not> bm_get (b_data (bufs t bp)) bi) [0..<min BPB (unat (sb_size (fs_sb t)) - b)] of
        None \<Rightarrow> andthen (brelse bp t) (\<lambda>_. Ret None)
      | Some bi \<Rightarrow> andthen (log_write bp (upd_buf bp (\<lambda>k. k\<lparr>b_data := bm_set bi (b_data k)\<rparr>) t)) (\<lambda>_ s.
          andthen (brelse bp s) (\<lambda>_ s. andthen (bzero 1 (of_nat (b + bi)) s) (\<lambda>_. Ret (Some (of_nat (b + bi)))))))
      (\<lambda>r t. r = Some n \<and> fview t (alloc_view (fs_sb s) n V) H C ({n, BBLOCK n (fs_sb s)} \<union> L) \<and> tx_same s t)"
      unfolding tx_same_fs [OF t(2)] d f option.case ni andthen_assoc by simp
  qed
qed

lemma upt_split_at: "k < m \<Longrightarrow> [0..<m] = [0..<k] @ k # [Suc k..<m]"
  using upt_add_eq_append [of 0 k "m - k"] by (simp add: upt_conv_Cons)

lemma groups_split:
  assumes "n < sb_size sb"
  shows "map (\<lambda>k. k * BPB) [0..<(unat (sb_size sb) + BPB - 1) div BPB]
    = map (\<lambda>k. k * BPB) [0..<unat n div BPB] @ unat n div BPB * BPB # map (\<lambda>k. k * BPB) [Suc (unat n div BPB)..<(unat (sb_size sb) + BPB - 1) div BPB]"
proof -
  have "unat n div BPB < (unat (sb_size sb) + BPB - 1) div BPB" using assms by (simp add: word_less_nat_alt)
  from upt_split_at [OF this] show ?thesis by simp
qed

lemma balloc_fview:
  assumes r: "ready_alloc s V H C L" and n: "n \<in> free_blocks (fs_sb s) V" and low: "\<And>m. m \<in> free_blocks (fs_sb s) V \<Longrightarrow> n \<le> m"
  shows "returns (balloc 1 s) (\<lambda>r t. r = n \<and> fview t (alloc_view (fs_sb s) n V) H C ({n, BBLOCK n (fs_sb s)} \<union> L) \<and> tx_same s t)"
proof -
  let ?P = "\<lambda>t. ready_alloc t V H C L \<and> tx_same s t"
  have ns: "n < sb_size (fs_sb s)" using n by (simp add: free_blocks_def)
  have "returns (for_until (map (\<lambda>k. k * BPB) [0..<(unat (sb_size (fs_sb s)) + BPB - 1) div BPB]) (balloc_in 1) s)
    (\<lambda>r t. r = Some n \<and> fview t (alloc_view (fs_sb s) n V) H C ({n, BBLOCK n (fs_sb s)} \<union> L) \<and> tx_same s t)"
    unfolding groups_split [OF ns]
  proof (rule returns_for_until [where P = ?P])
    show "?P s" using r by simp
    fix b t
    assume b: "b \<in> set (map (\<lambda>k. k * BPB) [0..<unat n div BPB])" and t: "?P t"
    then obtain k where k: "b = k * BPB" "k < unat n div BPB" by auto
    then have "b + BPB \<le> unat n" by (simp add: less_eq_div_iff_mult_less_eq Suc_le_eq [symmetric])
    then have "returns (balloc_in 1 b t) (\<lambda>r u. r = None \<and> fview u V H C L \<and> tx_same t u)"
      using t k ns low tx_same_fs [of s t] by (intro balloc_in_full) (auto simp: word_less_nat_alt word_le_nat_alt intro: order_trans)
    then show "returns (balloc_in 1 b t) (\<lambda>r u. r = None \<and> ?P u)"
      by (rule returns_mono) (use t in \<open>auto intro: tx_same_trans ready_alloc_same\<close>)
  next
    fix t
    assume t: "?P t"
    then have sb: "fs_sb t = fs_sb s" using tx_same_fs by blast
    have "unat n div BPB * BPB \<le> unat n" by simp
    also have "unat n < unat (sb_size (fs_sb s))" using ns by (simp add: word_less_nat_alt)
    finally have "returns (balloc_in 1 (unat n div BPB * BPB) t)
      (\<lambda>r u. r = Some n \<and> fview u (alloc_view (fs_sb t) n V) H C ({n, BBLOCK n (fs_sb t)} \<union> L) \<and> tx_same t u)"
      using t n low by (intro balloc_in_finds) (auto simp: sb dividend_less_div_times)
    then show "returns (balloc_in 1 (unat n div BPB * BPB) t) (\<lambda>r u. r \<noteq> None
      \<and> r = Some n \<and> fview u (alloc_view (fs_sb s) n V) H C ({n, BBLOCK n (fs_sb s)} \<union> L) \<and> tx_same s u)"
      by (rule returns_mono) (use t in \<open>auto simp: sb intro: tx_same_trans\<close>)
  qed
  then show ?thesis unfolding balloc_def by (rule returns_andthenI) auto
qed

text \<open>Without a free block the loop runs through the whole map.\<close>

lemma balloc_exhausted:
  assumes r: "ready_alloc s V H C L" and n: "free_blocks (fs_sb s) V = {}"
  shows "balloc 1 s = Panic ''balloc: out of blocks''"
proof -
  have "returns (for_until (map (\<lambda>k. k * BPB) [0..<(unat (sb_size (fs_sb s)) + BPB - 1) div BPB]) (balloc_in 1) s)
    (\<lambda>r t. r = None \<and> ready_alloc t V H C L \<and> tx_same s t)"
  proof (rule returns_for_until_none)
    fix b and t :: "'a fs_state_scheme"
    assume b: "b \<in> set (map (\<lambda>k. k * BPB) [0..<(unat (sb_size (fs_sb s)) + BPB - 1) div BPB])" and t: "ready_alloc t V H C L \<and> tx_same s t"
    then have sb: "fs_sb t = fs_sb s" using tx_same_fs by blast
    obtain k where k: "b = k * BPB" "k < (unat (sb_size (fs_sb s)) + BPB - 1) div BPB" using b by auto
    then have "b < unat (sb_size (fs_sb s))"
      using div_times_less_eq_dividend [of "unat (sb_size (fs_sb s)) + BPB - 1" BPB] by simp
    then have "returns (balloc_in 1 b t) (\<lambda>r u. r = None \<and> fview u V H C L \<and> tx_same t u)"
      using t n k by (intro balloc_in_full) (auto simp: sb)
    then show "returns (balloc_in 1 b t) (\<lambda>r u. r = None \<and> ready_alloc u V H C L \<and> tx_same s u)"
      by (rule returns_mono) (use t in \<open>auto intro: tx_same_trans ready_alloc_same\<close>)
  qed (use r in simp)
  then show ?thesis by (auto simp: balloc_def returns_def)
qed

lemma readsb_fview:
  assumes "fview s V H C L" "\<And>c. (c, 1) \<notin> set H" "1 < disksize s" "card L + length H \<le> C"
  shows "returns (readsb 1 s) (\<lambda>sb t. sb = decode_sb (V 1) \<and> fview t V H C L \<and> tx_same s t)"
  unfolding readsb_def using bx.read_block [OF assms(1), of 1 decode_sb] assms(2-4) by simp

text \<open>\<^verbatim>\<open>bfree\<close> reads the superblock again; when it is the one in memory this changes nothing.\<close>

lemma bfree_fview:
  assumes v: "fview s V H C L" and b: "b < sb_size (fs_sb s)" and ok: "fs_ok (disksize s) (fs_sb s) V" and sb: "decode_sb (V 1) = fs_sb s"
    and h: "\<And>c n. (c, n) \<in> set H \<Longrightarrow> n \<notin> insert 1 (bitmap_blocks (fs_sb s))" and c: "card L + length H \<le> C" "card L < C" "1 < disksize s"
  shows "if used (fs_sb s) V b
    then returns (bfree 1 b s) (\<lambda>_ t. fview t (free_view (fs_sb s) b V) H C (insert (BBLOCK b (fs_sb s)) L) \<and> tx_same s t)
    else bfree 1 b s = Panic ''freeing free block''"
proof -
  let ?n = "BBLOCK b (fs_sb s)" and ?i = "unat b mod BPB"
  have n: "?n \<in> bitmap_blocks (fs_sb s)" using b by (auto simp: bitmap_blocks_def)
  have "returns (readsb 1 s) (\<lambda>sb t. sb = fs_sb s \<and> fview t V H C L \<and> tx_same s t)"
    using readsb_fview [OF v] h c unfolding sb by auto
  then obtain t where t: "readsb 1 s = Ret (fs_sb s) t" "fview t V H C L" "tx_same s t" by (auto simp: returns_def)
  have id: "t\<lparr>fs_sb := fs_sb s\<rparr> = t" using tx_same_fs(1) [OF t(3)] by simp
  have "returns (bread 1 ?n t) (\<lambda>bp u. fview u V ((bp, ?n) # H) C L \<and> tx_same t u)"
    using n h ok c tx_sameD(4) [OF t(3)] by (intro bx.read_law [OF t(2)]) (auto simp: fs_ok_def)
  then obtain bp u where u: "bread 1 ?n t = Ret bp u" "fview u V ((bp, ?n) # H) C L" "tx_same t u" by (auto simp: returns_def)
  have d: "b_data (bufs u bp) = V ?n" using bx.get_law [OF u(2)] by simp
  have e: "upd_buf bp (\<lambda>k. k\<lparr>b_data := bm_clear ?i (b_data k)\<rparr>) u = upd_buf bp (\<lambda>k. k\<lparr>b_data := bm_clear ?i (b_data (bufs u bp))\<rparr>) u"
    by (simp add: upd_buf_def)
  have "bfree 1 b s = (if \<not> used (fs_sb s) V b then Panic ''freeing free block''
    else andthen (tx_write bp (bm_clear ?i (b_data (bufs u bp))) u) (\<lambda>_ s. brelse bp s))"
    by (simp add: bfree_def t(1) Let_def id tx_same_fs(1) [OF t(3)] u(1) d used_def) (simp add: e d tx_write_def)
  moreover have "returns (andthen (tx_write bp (bm_clear ?i (b_data (bufs u bp))) u) (\<lambda>_ s. brelse bp s))
    (\<lambda>_ x. fview x (free_view (fs_sb s) b V) H C (insert ?n L) \<and> tx_same s x)"
    using bx.write_release [OF u(2) c(2), of "bm_clear ?i"] unfolding free_view_def
    by (rule returns_mono) (use t(3) u(3) in \<open>auto intro: tx_same_trans\<close>)
  ultimately show ?thesis by simp
qed

section \<open>Inodes on disk\<close>

lemma load_put_addrs:
  assumes "n \<le> 13" "i < 13"
  shows "load32 (put_addrs k a n d) (64 * k + 12 + 4 * i) = (if i < n then a i else load32 d (64 * k + 12 + 4 * i))"
  using assms(1)
proof (induction n)
  case (Suc n)
  have "put_addrs k a (Suc n) d = store32 (64 * k + 12 + 4 * n) (a n) (put_addrs k a n d)" by (simp add: put_addrs_def)
  then show ?case using Suc by (cases "i = n") auto
qed (simp add: put_addrs_def)

lemma put_addrs_outside:
  assumes "n \<le> 13" "j < 64 * k + 12 \<or> 64 * k + 64 \<le> j"
  shows "put_addrs k a n d j = d j"
  using assms(1)
proof (induction n)
  case (Suc n)
  have "put_addrs k a (Suc n) d = store32 (64 * k + 12 + 4 * n) (a n) (put_addrs k a n d)" by (simp add: put_addrs_def)
  then show ?case using Suc assms(2) by (auto simp: store32_def)
qed (simp add: put_addrs_def)

lemma put_dinode_outside: "j < 64 * k \<or> 64 * k + 64 \<le> j \<Longrightarrow> put_dinode k i d j = d j"
  unfolding put_dinode_def by (subst put_addrs_outside) (auto simp: store32_def store16_def)

lemma load_outside_addrs:
  assumes "n \<le> 13"
  shows "j + 2 \<le> 64 * k + 12 \<Longrightarrow> load16 (put_addrs k a n d) j = load16 d j" "j + 4 \<le> 64 * k + 12 \<Longrightarrow> load32 (put_addrs k a n d) j = load32 d j"
  using assms by (simp_all add: load16_def load32_def put_addrs_outside)

lemma get_put_dinode: "d_type (get_dinode (put_dinode k i d) k) = d_type i" "d_major (get_dinode (put_dinode k i d) k) = d_major i"
    "d_minor (get_dinode (put_dinode k i d) k) = d_minor i" "d_nlink (get_dinode (put_dinode k i d) k) = d_nlink i"
    "d_size (get_dinode (put_dinode k i d) k) = d_size i" "j < 13 \<Longrightarrow> d_addrs (get_dinode (put_dinode k i d) k) j = d_addrs i j"
  by (simp_all add: get_dinode_def put_dinode_def load_outside_addrs load_put_addrs)

lemma get_put_dinode_other: "k \<noteq> m \<Longrightarrow> j < 13 \<Longrightarrow> d_addrs (get_dinode (put_dinode k i d) m) j = d_addrs (get_dinode d m) j"
  "k \<noteq> m \<Longrightarrow> (get_dinode (put_dinode k i d) m)\<lparr>d_addrs := a\<rparr> = (get_dinode d m)\<lparr>d_addrs := a\<rparr>"
proof -
  assume k: "k \<noteq> m"
  have o: "put_dinode k i d x = d x" if "64 * m \<le> x" "x < 64 * m + 64" for x
    using that k by (intro put_dinode_outside) (cases k m rule: linorder_cases; simp)
  then show "(get_dinode (put_dinode k i d) m)\<lparr>d_addrs := a\<rparr> = (get_dinode d m)\<lparr>d_addrs := a\<rparr>"
    by (simp add: get_dinode_def load16_def load32_def)
  show "j < 13 \<Longrightarrow> d_addrs (get_dinode (put_dinode k i d) m) j = d_addrs (get_dinode d m) j"
    using o by (simp add: get_dinode_def load32_def)
qed

lemma iupdate_fview:
  assumes v: "fview s V H C L" and i: "i_dev (icache s ip) = 1" "i_inum (icache s ip) < sb_ninodes (fs_sb s)" and ok: "fs_ok (disksize s) (fs_sb s) V"
    and h: "\<And>c n. (c, n) \<in> set H \<Longrightarrow> n \<notin> inode_blocks (fs_sb s)" and c: "card L + length H \<le> C" "card L < C"
  defines "n \<equiv> IBLOCK (i_inum (icache s ip)) (fs_sb s)"
  shows "returns (iupdate ip s) (\<lambda>_ t. fview t (V(n := put_dinode (unat (i_inum (icache s ip) mod IPB)) (to_dinode (icache s ip)) (V n))) H C (insert n L)
    \<and> tx_same s t)"
proof -
  let ?f = "put_dinode (unat (i_inum (icache s ip) mod IPB)) (to_dinode (icache s ip))"
  have n: "n \<in> inode_blocks (fs_sb s)" using i by (auto simp: inode_blocks_def n_def)
  have u: "\<And>c. (c, n) \<notin> set H" "n < disksize s" using n h ok by (auto simp: fs_ok_def)
  show ?thesis unfolding iupdate_def i(1) n_def [symmetric]
  proof (rule returns_andthenI [OF bx.read_law [OF v u c(1)]], elim conjE)
    fix bp t
    assume t: "fview t V ((bp, n) # H) C L" "tx_same s t"
    have e: "upd_buf bp (\<lambda>b. b\<lparr>b_data := ?f (b_data b)\<rparr>) t = upd_buf bp (\<lambda>b. b\<lparr>b_data := ?f (b_data (bufs t bp))\<rparr>) t"
      by (simp add: upd_buf_def)
    from bx.write_release [OF t(1) c(2), of ?f]
    show "returns (let i = icache t ip in andthen (log_write bp (upd_buf bp
        (\<lambda>b. b\<lparr>b_data := put_dinode (unat (i_inum i mod IPB)) (to_dinode i) (b_data b)\<rparr>) t)) (\<lambda>_. brelse bp))
      (\<lambda>_ t. fview t (V(n := ?f (V n))) H C (insert n L) \<and> tx_same s t)"
      unfolding tx_same_fs(2) [OF t(2)] Let_def e tx_write_def
      by (rule returns_mono) (use t(2) in \<open>auto intro: tx_same_trans\<close>)
  qed
qed

end
