(* ===== verification/Xv6_Fdata.thy ===== *)
theory Xv6_Fdata
  imports Xv6_Falloc Xv6_Dir
begin

text \<open>
  Correctness of file content (\<^verbatim>\<open>bmap\<close>, \<^verbatim>\<open>readi\<close>, \<^verbatim>\<open>writei\<close>): a file is the sequence of bytes that its
  block pointers select; reading delivers them, and writing changes exactly the bytes written,
  allocating blocks as needed, and no block of another file.
\<close>

section \<open>The blocks of a file\<close>

text \<open>
  The pointers of an inode: \<open>0..11\<close> direct, \<open>12..139\<close> through the indirect block, and \<open>140\<close> the
  pointer to the indirect block itself. The value 0 means that no block is allocated.
\<close>

definition ptr :: "(uint \<Rightarrow> block) \<Rightarrow> inode \<Rightarrow> nat \<Rightarrow> uint" where
  "ptr V i k = (if k < NDIRECT then i_addrs i k else if k = MAXFILE \<or> i_addrs i NDIRECT = 0 then i_addrs i NDIRECT
     else load32 (V (i_addrs i NDIRECT)) (4 * (k - NDIRECT)))"

lemma ptr_indirect: "ptr V i MAXFILE = i_addrs i NDIRECT"
  by (simp add: ptr_def)

definition data_block :: "superblock \<Rightarrow> uint \<Rightarrow> bool" where
  "data_block sb b \<longleftrightarrow> b < sb_size sb \<and> b \<notin> bitmap_blocks sb \<union> inode_blocks sb \<union> log_area sb \<union> {0, 1}"

definition file_wf :: "superblock \<Rightarrow> (uint \<Rightarrow> block) \<Rightarrow> inode \<Rightarrow> bool" where
  "file_wf sb V i \<longleftrightarrow> i_dev i = 1 \<and> i_inum i < sb_ninodes sb
     \<and> (\<forall>k\<le>MAXFILE. ptr V i k \<noteq> 0 \<longrightarrow> data_block sb (ptr V i k) \<and> used sb V (ptr V i k))
     \<and> (\<forall>k\<le>MAXFILE. \<forall>j\<le>MAXFILE. ptr V i k \<noteq> 0 \<longrightarrow> ptr V i k = ptr V i j \<longrightarrow> k = j)"

lemma free_data_block: "fs_ok dsz sb V \<Longrightarrow> n \<in> free_blocks sb V \<Longrightarrow> data_block sb n"
  by (auto simp: fs_ok_def data_block_def free_blocks_def)

lemma file_wf_ptr:
  assumes "file_wf sb V i" "k \<le> MAXFILE" "ptr V i k \<noteq> 0"
  shows "data_block sb (ptr V i k)" "ptr V i k \<notin> free_blocks sb V" "ptr V i k \<notin> bitmap_blocks sb"
  using assms by (auto simp: file_wf_def data_block_def free_blocks_def)

text \<open>A file grows by one block, which was free.\<close>

lemma file_wf_grow:
  assumes w: "file_wf sb V i" and n: "n \<in> free_blocks sb V" "data_block sb n" and k: "k \<le> MAXFILE"
    and p: "\<And>j. j \<le> MAXFILE \<Longrightarrow> ptr V' i' j = (if j = k then n else ptr V i j)"
    and d: "i_dev i' = i_dev i" "i_inum i' = i_inum i" and u: "\<And>c. c < sb_size sb \<Longrightarrow> used sb V' c \<longleftrightarrow> c = n \<or> used sb V c"
  shows "file_wf sb V' i'"
proof -
  have old: "ptr V i j \<noteq> n" if "j \<le> MAXFILE" for j
    using file_wf_ptr(2) [OF w that] n by (auto simp: data_block_def)
  have "data_block sb (ptr V' i' j) \<and> used sb V' (ptr V' i' j)" if "j \<le> MAXFILE" "ptr V' i' j \<noteq> 0" for j
    using that p n u w by (auto simp: file_wf_def data_block_def)
  moreover have "j = l" if "j \<le> MAXFILE" "l \<le> MAXFILE" "ptr V' i' j \<noteq> 0" "ptr V' i' j = ptr V' i' l" for j l
  proof -
    have "ptr V i j \<noteq> 0 \<and> ptr V i j = ptr V i l" if "j \<noteq> k" "l \<noteq> k"
      using that p [OF \<open>j \<le> MAXFILE\<close>] p [OF \<open>l \<le> MAXFILE\<close>] \<open>ptr V' i' j \<noteq> 0\<close> \<open>ptr V' i' j = ptr V' i' l\<close> by simp
    moreover have "j = l" if "j = k \<or> l = k"
      using that p [OF \<open>j \<le> MAXFILE\<close>] p [OF \<open>l \<le> MAXFILE\<close>] old [OF \<open>j \<le> MAXFILE\<close>] old [OF \<open>l \<le> MAXFILE\<close>]
        \<open>ptr V' i' j = ptr V' i' l\<close> by (auto split: if_splits)
    ultimately show "j = l" using w that(1,2) by (metis file_wf_def)
  qed
  ultimately show ?thesis using w d unfolding file_wf_def by simp
qed

lemma used_alloc_view:
  assumes "fs_ok dsz sb V" "n \<in> free_blocks sb V" "c < sb_size sb"
  shows "used sb (alloc_view sb n V) c \<longleftrightarrow> c = n \<or> used sb V c"
proof -
  have "n \<notin> bitmap_blocks sb" using assms by (auto simp: fs_ok_def)
  then show ?thesis unfolding alloc_view_def using used_other [OF _ assms(3)] used_set by metis
qed

lemma alloc_view_frame:
  assumes "n \<in> free_blocks sb V" "m \<notin> bitmap_blocks sb" "m \<notin> free_blocks sb V"
  shows "alloc_view sb n V m = V m"
proof (rule alloc_view_other)
  show "m \<noteq> n" using assms by blast
  have "BBLOCK n sb \<in> bitmap_blocks sb" using assms(1) by (auto simp: free_blocks_def bitmap_blocks_def)
  then show "m \<noteq> BBLOCK n sb" using assms(2) by blast
qed

text \<open>The three places a new block can go.\<close>

definition set_addr :: "nat \<Rightarrow> uint \<Rightarrow> inode \<Rightarrow> inode" where
  "set_addr k n i = i\<lparr>i_addrs := (i_addrs i)(k := n)\<rparr>"

lemma alloc_view_ptr:
  assumes w: "file_wf sb V i" and f: "fs_ok dsz sb V" "n \<in> free_blocks sb V" and j: "i_addrs i NDIRECT \<noteq> 0"
  shows "alloc_view sb n V (i_addrs i NDIRECT) = V (i_addrs i NDIRECT)"
  by (rule alloc_view_frame [OF f(2)]) (use file_wf_ptr [OF w, of MAXFILE] j in \<open>auto simp: ptr_indirect\<close>)

lemma grow_direct:
  assumes w: "file_wf sb V i" and f: "fs_ok dsz sb V" "n \<in> free_blocks sb V" and k: "k < NDIRECT"
  shows "j \<le> MAXFILE \<Longrightarrow> ptr (alloc_view sb n V) (set_addr k n i) j = (if j = k then n else ptr V i j)"
    "file_wf sb (alloc_view sb n V) (set_addr k n i)"
proof -
  show p: "j \<le> MAXFILE \<Longrightarrow> ptr (alloc_view sb n V) (set_addr k n i) j = (if j = k then n else ptr V i j)" for j
    using k alloc_view_ptr [OF w f] by (auto simp: ptr_def set_addr_def)
  show "file_wf sb (alloc_view sb n V) (set_addr k n i)"
    by (rule file_wf_grow [OF w f(2) free_data_block [OF f], of k]) (use k p used_alloc_view [OF f] in \<open>auto simp: set_addr_def\<close>)
qed

lemma load_zeroed: "j + 4 \<le> BSIZE \<Longrightarrow> load32 (zeroed d) j = 0"
  by (simp add: load32_def zeroed_def)

lemma grow_indirect:
  assumes w: "file_wf sb V i" and f: "fs_ok dsz sb V" "n \<in> free_blocks sb V" and z: "i_addrs i NDIRECT = 0"
  shows "j \<le> MAXFILE \<Longrightarrow> ptr (alloc_view sb n V) (set_addr NDIRECT n i) j = (if j = MAXFILE then n else ptr V i j)"
    "file_wf sb (alloc_view sb n V) (set_addr NDIRECT n i)"
proof -
  have "n \<noteq> BBLOCK n sb" using free_data_block [OF f] by (auto simp: data_block_def bitmap_blocks_def)
  then have "alloc_view sb n V n = zeroed (V n)" by (rule alloc_view_zeroed)
  then show p: "j \<le> MAXFILE \<Longrightarrow> ptr (alloc_view sb n V) (set_addr NDIRECT n i) j = (if j = MAXFILE then n else ptr V i j)" for j
    using z load_zeroed [of "4 * (j - NDIRECT)" "V n"] by (auto simp: ptr_def set_addr_def)
  show "file_wf sb (alloc_view sb n V) (set_addr NDIRECT n i)"
    by (rule file_wf_grow [OF w f(2) free_data_block [OF f], of MAXFILE]) (use p used_alloc_view [OF f] in \<open>auto simp: set_addr_def\<close>)
qed

definition via_view :: "superblock \<Rightarrow> uint \<Rightarrow> nat \<Rightarrow> uint \<Rightarrow> (uint \<Rightarrow> block) \<Rightarrow> uint \<Rightarrow> block" where
  "via_view sb n k d V = (alloc_view sb n V)(d := store32 (4 * k) n (V d))"

lemma grow_via:
  assumes w: "file_wf sb V i" and f: "fs_ok dsz sb V" "n \<in> free_blocks sb V" and k: "k < NINDIRECT" and d: "d = i_addrs i NDIRECT" "d \<noteq> 0"
  shows "j \<le> MAXFILE \<Longrightarrow> ptr (via_view sb n k d V) i j = (if j = NDIRECT + k then n else ptr V i j)"
    "file_wf sb (via_view sb n k d V) i" "fs_ok dsz sb (via_view sb n k d V)" "free_blocks sb (via_view sb n k d V) = free_blocks sb V - {n}"
proof -
  have db: "d \<notin> bitmap_blocks sb" using file_wf_ptr(3) [OF w, of MAXFILE] d unfolding ptr_indirect by auto
  show p: "j \<le> MAXFILE \<Longrightarrow> ptr (via_view sb n k d V) i j = (if j = NDIRECT + k then n else ptr V i j)" for j
  proof -
    have "4 * k + 4 \<le> 4 * (j - NDIRECT) \<or> 4 * (j - NDIRECT) + 4 \<le> 4 * k" if "\<not> j < NDIRECT" "j \<noteq> NDIRECT + k"
      using that by arith
    then show "j \<le> MAXFILE \<Longrightarrow> ?thesis" using k d by (auto simp: ptr_def via_view_def)
  qed
  have u: "used sb (via_view sb n k d V) c \<longleftrightarrow> c = n \<or> used sb V c" if "c < sb_size sb" for c
    unfolding via_view_def using used_other [OF db that] used_alloc_view [OF f that] by simp
  show "file_wf sb (via_view sb n k d V) i"
    by (rule file_wf_grow [OF w f(2) free_data_block [OF f], of "NDIRECT + k"]) (use k p u in auto)
  show "free_blocks sb (via_view sb n k d V) = free_blocks sb V - {n}"
    unfolding via_view_def free_blocks_other [OF db] by (rule free_alloc_view(1) [OF f])
  then show "fs_ok dsz sb (via_view sb n k d V)" using f(1) by (auto simp: fs_ok_def)
qed

section \<open>States\<close>

definition fstate :: "'a fs_state_scheme \<Rightarrow> (uint \<Rightarrow> block) \<Rightarrow> nat \<Rightarrow> uint set \<Rightarrow> nat \<Rightarrow> bool" where
  "fstate s V C L ip \<longleftrightarrow> fview s V [] C L \<and> fs_ok (disksize s) (fs_sb s) V \<and> file_wf (fs_sb s) V (icache s ip)"

text \<open>Only the cache, the log and the addresses in the inode change.\<close>

definition grown :: "nat \<Rightarrow> 'a fs_state_scheme \<Rightarrow> 'a fs_state_scheme \<Rightarrow> bool" where
  "grown ip s t \<longleftrightarrow> (\<exists>ad. tx_same (upd_inode ip (\<lambda>i. i\<lparr>i_addrs := ad\<rparr>) s) t)"

lemma fview_upd_inode [simp]: "fview (upd_inode ip f s) V H C L = fview s V H C L"
  unfolding fview_def upd_inode_def by (subst tview_cong [of _ s]) simp_all

lemma tx_same_upd_inode: "tx_same s t \<Longrightarrow> tx_same (upd_inode ip f s) (upd_inode ip f t)"
  unfolding tx_same_def
proof (elim exE conjE)
  fix B P n bl
  assume "t = s\<lparr>bufs := B, ptable := P, lh_n := n, lh_block := bl\<rparr>" "procs_same (ptable s) P"
  then show "\<exists>B P n bl. upd_inode ip f t = upd_inode ip f s\<lparr>bufs := B, ptable := P, lh_n := n, lh_block := bl\<rparr> \<and> procs_same (ptable (upd_inode ip f s)) P"
    by (intro exI [of _ B] exI [of _ P] exI [of _ n] exI [of _ bl]) (simp add: upd_inode_def)
qed

lemma upd_inode_simps [simp]:
  "fs_sb (upd_inode ip f s) = fs_sb s" "disksize (upd_inode ip f s) = disksize s" "icache (upd_inode ip f s) ip = f (icache s ip)"
  "upd_inode ip g (upd_inode ip f s) = upd_inode ip (\<lambda>i. g (f i)) s" "bufs (upd_inode ip f s) = bufs s" "held (upd_inode ip f s) = held s"
  by (simp_all add: upd_inode_def)

lemma grown_tx: "tx_same s t \<Longrightarrow> grown ip s t"
  unfolding grown_def by (rule exI [of _ "i_addrs (icache s ip)"]) (simp add: upd_inode_def)

lemma grown_addr: "tx_same s t \<Longrightarrow> grown ip s (upd_inode ip (set_addr k n) t)"
  unfolding grown_def
  by (rule exI [of _ "(i_addrs (icache s ip))(k := n)"])
    (drule tx_same_upd_inode [of s t ip "set_addr k n"], simp add: upd_inode_def set_addr_def)

lemma grown_trans: "grown ip s t \<Longrightarrow> grown ip t u \<Longrightarrow> grown ip s u"
  unfolding grown_def
proof (elim exE)
  fix ad ad'
  assume "tx_same (upd_inode ip (\<lambda>i. i\<lparr>i_addrs := ad\<rparr>) s) t" and u: "tx_same (upd_inode ip (\<lambda>i. i\<lparr>i_addrs := ad'\<rparr>) t) u"
  from tx_same_upd_inode [OF this(1), of ip "\<lambda>i. i\<lparr>i_addrs := ad'\<rparr>"]
  have "tx_same (upd_inode ip (\<lambda>i. i\<lparr>i_addrs := ad'\<rparr>) s) (upd_inode ip (\<lambda>i. i\<lparr>i_addrs := ad'\<rparr>) t)" by simp
  then show "\<exists>ad. tx_same (upd_inode ip (\<lambda>i. i\<lparr>i_addrs := ad\<rparr>) s) u" using u tx_same_trans by blast
qed

lemma grownD:
  assumes "grown ip s t"
  shows "fs_sb t = fs_sb s" "disksize t = disksize s" "i_dev (icache t ip) = i_dev (icache s ip)" "i_inum (icache t ip) = i_inum (icache s ip)"
    "i_size (icache t ip) = i_size (icache s ip)" "i_type (icache t ip) = i_type (icache s ip)" "j \<noteq> ip \<Longrightarrow> icache t j = icache s j"
  using assms by (auto simp: grown_def tx_same_def upd_inode_def)

lemma alloc_step:
  assumes v: "fview s V H C L" "fs_ok (disksize s) (fs_sb s) V" and f: "free_blocks (fs_sb s) V \<noteq> {}"
    and h: "\<And>c n. (c, n) \<in> set H \<Longrightarrow> n \<notin> bitmap_blocks (fs_sb s) \<union> free_blocks (fs_sb s) V"
    and c: "card (L \<union> bitmap_blocks (fs_sb s)) + length H \<le> C" "card (L \<union> bitmap_blocks (fs_sb s)) < C"
  shows "returns (balloc 1 s) (\<lambda>n t. n \<in> free_blocks (fs_sb s) V
    \<and> fview t (alloc_view (fs_sb s) n V) H C ({n, BBLOCK n (fs_sb s)} \<union> L) \<and> tx_same s t)"
proof -
  let ?n = "Min (free_blocks (fs_sb s) V)"
  have "ready_alloc s V H C L" using v h c unfolding ready_alloc_def by blast
  then have "returns (balloc 1 s) (\<lambda>n t. n = ?n \<and> fview t (alloc_view (fs_sb s) ?n V) H C ({?n, BBLOCK ?n (fs_sb s)} \<union> L) \<and> tx_same s t)"
    using f by (intro balloc_fview) auto
  then show ?thesis by (rule returns_mono) (use f Min_in [of "free_blocks (fs_sb s) V"] in auto)
qed

section \<open>bmap\<close>

text \<open>
  How many blocks the transaction may still log: the blocks logged so far, the bitmap and the
  indirect block count once.
\<close>

definition pot :: "superblock \<Rightarrow> uint set \<Rightarrow> inode \<Rightarrow> nat" where
  "pot sb L i = card (L \<union> bitmap_blocks sb \<union> ({i_addrs i NDIRECT} - {0})) + of_bool (i_addrs i NDIRECT = 0)"

definition mapped :: "nat \<Rightarrow> nat \<Rightarrow> nat \<Rightarrow> 'a fs_state_scheme \<Rightarrow> (uint \<Rightarrow> block) \<Rightarrow> uint set \<Rightarrow> uint \<Rightarrow> 'a fs_state_scheme \<Rightarrow> (uint \<Rightarrow> block) \<Rightarrow> uint set \<Rightarrow> bool" where
  "mapped C ip bn s V L a t V' L' \<longleftrightarrow> (let sb = fs_sb s; i = icache s ip; i' = icache t ip in
     fstate t V' C L' ip \<and> grown ip s t \<and> a = ptr V' i' bn \<and> a \<noteq> 0
     \<and> (\<forall>j<MAXFILE. j \<noteq> bn \<longrightarrow> ptr V' i' j = ptr V i j) \<and> (ptr V i bn \<noteq> 0 \<longrightarrow> a = ptr V i bn \<and> i_addrs i' = i_addrs i)
     \<and> (i_addrs i NDIRECT \<noteq> 0 \<longrightarrow> i_addrs i' NDIRECT = i_addrs i NDIRECT)
     \<and> {a, i_addrs i' NDIRECT} \<subseteq> {ptr V i bn, i_addrs i NDIRECT} \<union> free_blocks sb V
     \<and> (\<forall>n. n \<notin> bitmap_blocks sb \<union> free_blocks sb V \<union> ({i_addrs i NDIRECT} - {0}) \<longrightarrow> V' n = V n)
     \<and> free_blocks sb V' \<subseteq> free_blocks sb V
     \<and> card (free_blocks sb V) + of_bool (i_addrs i' NDIRECT = 0) \<le> card (free_blocks sb V') + of_bool (bn < MAXFILE) + of_bool (i_addrs i NDIRECT = 0)
     \<and> L' \<subseteq> L \<union> bitmap_blocks sb \<union> ({i_addrs i' NDIRECT} - {0}) \<union> {a})"

lemma mappedD:
  assumes "mapped C ip bn s V L a t V' L'"
  shows "fstate t V' C L' ip" "grown ip s t" "a = ptr V' (icache t ip) bn" "a \<noteq> 0"
    "j < MAXFILE \<Longrightarrow> j \<noteq> bn \<Longrightarrow> ptr V' (icache t ip) j = ptr V (icache s ip) j" "ptr V (icache s ip) bn \<noteq> 0 \<Longrightarrow> a = ptr V (icache s ip) bn"
    "i_addrs (icache s ip) NDIRECT \<noteq> 0 \<Longrightarrow> i_addrs (icache t ip) NDIRECT = i_addrs (icache s ip) NDIRECT"
    "{a, i_addrs (icache t ip) NDIRECT} \<subseteq> {ptr V (icache s ip) bn, i_addrs (icache s ip) NDIRECT} \<union> free_blocks (fs_sb s) V"
    "n \<notin> bitmap_blocks (fs_sb s) \<Longrightarrow> n \<notin> free_blocks (fs_sb s) V \<Longrightarrow> n \<notin> {i_addrs (icache s ip) NDIRECT} - {0} \<Longrightarrow> V' n = V n"
    "free_blocks (fs_sb s) V' \<subseteq> free_blocks (fs_sb s) V"
    "card (free_blocks (fs_sb s) V) + of_bool (i_addrs (icache t ip) NDIRECT = 0)
      \<le> card (free_blocks (fs_sb s) V') + of_bool (bn < MAXFILE) + of_bool (i_addrs (icache s ip) NDIRECT = 0)"
    "L' \<subseteq> L \<union> bitmap_blocks (fs_sb s) \<union> ({i_addrs (icache t ip) NDIRECT} - {0}) \<union> {a}"
    "ptr V (icache s ip) bn \<noteq> 0 \<Longrightarrow> i_addrs (icache t ip) = i_addrs (icache s ip)"
  using assms unfolding mapped_def Let_def by blast+

lemma mapped_present:
  assumes "fstate s V C L ip" "ptr V (icache s ip) bn \<noteq> 0" "tx_same s t" "fview t V [] C L"
  shows "mapped C ip bn s V L (ptr V (icache s ip) bn) t V L"
  using assms tx_same_fs [OF assms(3)] tx_sameD(4) [OF assms(3)] grown_tx [OF assms(3), of ip]
  by (auto simp: mapped_def Let_def fstate_def)

text \<open>The pointer that slot \<open>k\<close> of \<^verbatim>\<open>addrs\<close> holds.\<close>

definition slot_ptr :: "nat \<Rightarrow> nat" where
  "slot_ptr k = (if k = NDIRECT then MAXFILE else k)"

lemma grow_slot:
  assumes w: "file_wf sb V i" and f: "fs_ok dsz sb V" "n \<in> free_blocks sb V" and k: "k \<le> NDIRECT" "i_addrs i k = 0"
  shows "j \<le> MAXFILE \<Longrightarrow> ptr (alloc_view sb n V) (set_addr k n i) j = (if j = slot_ptr k then n else ptr V i j)"
    "file_wf sb (alloc_view sb n V) (set_addr k n i)"
  using grow_direct [OF w f] grow_indirect [OF w f] k by (cases "k = NDIRECT"; simp add: slot_ptr_def)+

lemma addr_step:
  assumes s: "fstate s V C L ip" and k: "k \<le> NDIRECT" and c: "pot (fs_sb s) L (icache s ip) < C" and f: "free_blocks (fs_sb s) V \<noteq> {}"
  defines "addr \<equiv> i_addrs (icache s ip) k"
  shows "returns (if addr = 0 then andthen (balloc (i_dev (icache s ip)) s) (\<lambda>n s. Ret n (upd_inode ip (set_addr k n) s)) else Ret addr s)
    (\<lambda>a t. \<exists>V' L'. mapped C ip (slot_ptr k) s V L a t V' L')"
proof (cases "addr = 0")
  case False
  have "ptr V (icache s ip) (slot_ptr k) = addr" using k by (auto simp: ptr_def slot_ptr_def addr_def)
  then have "mapped C ip (slot_ptr k) s V L addr s V L"
    using mapped_present [OF s, of "slot_ptr k" s] s False by (simp add: fstate_def)
  then show ?thesis using False by auto
next
  case True
  let ?sb = "fs_sb s" and ?i = "icache s ip"
  have w: "file_wf ?sb V ?i" and ok: "fs_ok (disksize s) ?sb V" and v: "fview s V [] C L" and dev: "i_dev ?i = 1"
    using s by (auto simp: fstate_def file_wf_def)
  have c': "card (L \<union> bitmap_blocks ?sb) < C"
    using c card_mono [of "L \<union> bitmap_blocks ?sb \<union> ({i_addrs ?i NDIRECT} - {0})" "L \<union> bitmap_blocks ?sb"] by (auto simp: pot_def)
  have "returns (balloc 1 s) (\<lambda>n t. n \<in> free_blocks ?sb V \<and> fview t (alloc_view ?sb n V) [] C ({n, BBLOCK n ?sb} \<union> L) \<and> tx_same s t)"
    using c' by (intro alloc_step [OF v ok f]) auto
  then have "returns (andthen (balloc 1 s) (\<lambda>n s. Ret n (upd_inode ip (set_addr k n) s))) (\<lambda>a t. \<exists>V' L'. mapped C ip (slot_ptr k) s V L a t V' L')"
  proof (rule returns_andthenI, elim conjE)
    fix n t
    assume n: "n \<in> free_blocks ?sb V" and t: "fview t (alloc_view ?sb n V) [] C ({n, BBLOCK n ?sb} \<union> L)" "tx_same s t"
    let ?V = "alloc_view ?sb n V" and ?t = "upd_inode ip (set_addr k n) t"
    note g = grow_slot [OF w ok n k True [unfolded addr_def]] and fa = free_alloc_view [OF ok n] and same = tx_same_fs [OF t(2)] tx_sameD(4) [OF t(2)]
    have n0: "n \<noteq> 0" using free_data_block [OF ok n] by (auto simp: data_block_def)
    have i12: "i_addrs (set_addr k n ?i) NDIRECT = (if k = NDIRECT then n else i_addrs ?i NDIRECT)" by (simp add: set_addr_def)
    have bb: "BBLOCK n ?sb \<in> bitmap_blocks ?sb" using n by (auto simp: free_blocks_def bitmap_blocks_def)
    have card: "card (free_blocks ?sb V) = card (free_blocks ?sb ?V) + 1" using fa(1) n card_Suc_Diff1 [of "free_blocks ?sb V" n] by simp
    have p: "ptr ?V (set_addr k n ?i) j = (if j = slot_ptr k then n else ptr V ?i j)" if "j \<le> MAXFILE" for j
      using g(1) that by blast
    have sl: "slot_ptr k \<le> MAXFILE" "slot_ptr k < MAXFILE \<longleftrightarrow> k \<noteq> NDIRECT" "ptr V ?i (slot_ptr k) = 0"
      using k True by (auto simp: slot_ptr_def ptr_def addr_def)
    have "mapped C ip (slot_ptr k) s V L n ?t ?V ({n, BBLOCK n ?sb} \<union> L)"
      unfolding mapped_def Let_def fstate_def upd_inode_simps same fview_upd_inode i12
      using t g(2) fa n n0 bb True grown_addr [OF t(2), of ip k n] p sl card alloc_view_frame [OF n]
      by (auto simp: addr_def)
    then show "returns (Ret n ?t) (\<lambda>a t. \<exists>V' L'. mapped C ip (slot_ptr k) s V L a t V' L')" by auto
  qed
  then show ?thesis using True by (simp add: dev)
qed

lemma mapped_trans:
  assumes m: "mapped C ip MAXFILE s V L d t V1 L1" and m': "mapped C ip bn t V1 L1 a u V2 L2" and bn: "NDIRECT \<le> bn" "bn < MAXFILE"
  shows "mapped C ip bn s V L a u V2 L2"
proof -
  note M = mappedD [OF m, unfolded ptr_indirect] and M' = mappedD [OF m']
  have sb: "fs_sb t = fs_sb s" using grownD(1) [OF M(2)] .
  have d: "i_addrs (icache t ip) NDIRECT \<noteq> 0" "i_addrs (icache t ip) NDIRECT \<in> {i_addrs (icache s ip) NDIRECT} \<union> free_blocks (fs_sb s) V"
    "ptr V1 (icache t ip) bn = ptr V (icache s ip) bn" using M(3,4,8) M(5) [of bn] bn by auto
  have g: "grown ip s u" using grown_trans [OF M(2) M'(2)] .
  have ad: "i_addrs (icache u ip) = i_addrs (icache s ip)" if "ptr V (icache s ip) bn \<noteq> 0"
  proof -
    have "i_addrs (icache s ip) NDIRECT \<noteq> 0" using that bn by (auto simp: ptr_def split: if_splits)
    then show ?thesis using M(13) M'(13) that d(3) by simp
  qed
  have i: "i_addrs (icache u ip) NDIRECT = i_addrs (icache t ip) NDIRECT" using M'(7) d(1) by simp
  have n: "card (free_blocks (fs_sb s) V) + of_bool (i_addrs (icache u ip) NDIRECT = 0)
      \<le> card (free_blocks (fs_sb s) V2) + of_bool (bn < MAXFILE) + of_bool (i_addrs (icache s ip) NDIRECT = 0)"
    using M(11) M'(11) d(1) bn by (simp add: sb)
  have fr: "V2 n = V n" if "n \<notin> bitmap_blocks (fs_sb s)" "n \<notin> free_blocks (fs_sb s) V" "n \<notin> {i_addrs (icache s ip) NDIRECT} - {0}" for n
  proof -
    have "n \<notin> {i_addrs (icache t ip) NDIRECT} - {0}" "n \<notin> free_blocks (fs_sb s) V1" using that d(2) M(10) by auto
    then show ?thesis using that M(9) [of n] M'(9) [of n] by (simp add: sb)
  qed
  have "ptr V2 (icache u ip) j = ptr V (icache s ip) j" if "j < MAXFILE" "j \<noteq> bn" for j
    using that M(5) [of j] M'(5) [of j] by simp
  moreover have "L2 \<subseteq> L \<union> bitmap_blocks (fs_sb s) \<union> ({i_addrs (icache u ip) NDIRECT} - {0}) \<union> {a}"
    using M(3,12) M'(12) d(1) by (auto simp: i sb)
  moreover have "{a, i_addrs (icache u ip) NDIRECT} \<subseteq> {ptr V (icache s ip) bn, i_addrs (icache s ip) NDIRECT} \<union> free_blocks (fs_sb s) V"
    using M(10) M'(8) d(2,3) by (auto simp: i sb)
  ultimately show ?thesis unfolding mapped_def Let_def
    using M'(1,3,4,6) M(7) M(10) M'(10) g n fr d ad by (simp add: i sb)
qed

lemma via_step:
  assumes s: "fstate s V C L ip" and k: "k < NINDIRECT" and c: "pot (fs_sb s) L (icache s ip) + 1 < C" and f: "free_blocks (fs_sb s) V \<noteq> {}"
    and d: "d = i_addrs (icache s ip) NDIRECT" "d \<noteq> 0"
  shows "returns (andthen (bread (i_dev (icache s ip)) d s) (\<lambda>bp s.
        let addr = load32 (b_data (bufs s bp)) (4 * k) in
        andthen (if addr = 0 then
                   andthen (balloc (i_dev (icache s ip)) s) (\<lambda>addr s.
                   andthen (log_write bp (upd_buf bp (\<lambda>b. b\<lparr>b_data := store32 (4 * k) addr (b_data b)\<rparr>) s)) (\<lambda>_ s.
                   Ret addr s))
                 else Ret addr s) (\<lambda>addr s.
        andthen (brelse bp s) (\<lambda>_ s. Ret addr s)))) (\<lambda>a t. \<exists>V' L'. mapped C ip (NDIRECT + k) s V L a t V' L')"
proof -
  let ?sb = "fs_sb s" and ?i = "icache s ip" and ?a = "load32 (V d) (4 * k)"
  have w: "file_wf ?sb V ?i" and ok: "fs_ok (disksize s) ?sb V" and v: "fview s V [] C L" and dev: "i_dev ?i = 1"
    using s by (auto simp: fstate_def file_wf_def)
  have db: "data_block ?sb d" "d \<notin> free_blocks ?sb V" "d \<notin> bitmap_blocks ?sb"
    using file_wf_ptr [OF w, of MAXFILE] d unfolding ptr_indirect by auto
  then have dd: "d < disksize s" using ok by (auto simp: data_block_def fs_ok_def)
  have c1: "card (L \<union> bitmap_blocks ?sb) + 1 < C" "card (L \<union> bitmap_blocks ?sb \<union> {n}) < C" "card L \<le> C" for n
  proof -
    show x: "card (L \<union> bitmap_blocks ?sb) + 1 < C"
      using c d card_mono [OF finite, of "L \<union> bitmap_blocks ?sb" "L \<union> bitmap_blocks ?sb \<union> {d}"] by (simp add: pot_def subset_insertI)
    then show "card (L \<union> bitmap_blocks ?sb \<union> {n}) < C" using card_insert_le_m1 [of C "L \<union> bitmap_blocks ?sb" n]
      card_Un_le [of "L \<union> bitmap_blocks ?sb" "{n}"] by simp
    show "card L \<le> C" using x card_mono [OF finite, of L "L \<union> bitmap_blocks ?sb"] by simp
  qed
  have pk: "ptr V ?i (NDIRECT + k) = ?a" using k d by (simp add: ptr_def)
  have rd: "returns (bread 1 d s) (\<lambda>bp t. fview t V [(bp, d)] C L \<and> tx_same s t)"
    using bx.read_law [OF v, of d] dd c1(3) by simp
  show ?thesis unfolding dev
  proof (rule returns_andthenI [OF rd], elim conjE)
    fix bp t
    assume t: "fview t V [(bp, d)] C L" "tx_same s t"
    note same = tx_same_fs [OF t(2)] tx_sameD(4) [OF t(2)]
    have da: "b_data (bufs t bp) = V d" using bx.get_law [OF t(1)] by simp
    show "returns (let addr = load32 (b_data (bufs t bp)) (4 * k) in
        andthen (if addr = 0 then
                   andthen (balloc (i_dev (icache t ip)) t) (\<lambda>addr s.
                   andthen (log_write bp (upd_buf bp (\<lambda>b. b\<lparr>b_data := store32 (4 * k) addr (b_data b)\<rparr>) s)) (\<lambda>_ s.
                   Ret addr s))
                 else Ret addr t) (\<lambda>addr s.
        andthen (brelse bp s) (\<lambda>_ s. Ret addr s))) (\<lambda>a t. \<exists>V' L'. mapped C ip (NDIRECT + k) s V L a t V' L')"
    proof (cases "?a = 0")
      case False
      have "returns (brelse bp t) (\<lambda>_ u. fview u V [] C L \<and> tx_same s u)"
        using bx.rel_law [OF t(1)] t(2) tx_same_trans by (auto elim!: returns_mono)
      then show ?thesis using False mapped_present [OF s, of "NDIRECT + k"] pk by (auto simp: da elim!: returns_mono)
    next
      case True
      have al: "returns (balloc 1 t) (\<lambda>n u. n \<in> free_blocks ?sb V \<and> fview u (alloc_view ?sb n V) [(bp, d)] C ({n, BBLOCK n ?sb} \<union> L) \<and> tx_same t u)"
        using alloc_step [OF t(1)] ok f db c1(1) by (auto simp: same)
      have "returns (andthen (balloc 1 t) (\<lambda>addr s. andthen (tx_write bp (store32 (4 * k) addr (b_data (bufs s bp))) s) (\<lambda>_ s.
           andthen (brelse bp s) (\<lambda>_ s. Ret addr s)))) (\<lambda>a t. \<exists>V' L'. mapped C ip (NDIRECT + k) s V L a t V' L')"
      proof (rule returns_andthenI [OF al], elim conjE)
        fix n u
        assume n: "n \<in> free_blocks ?sb V" and u: "fview u (alloc_view ?sb n V) [(bp, d)] C ({n, BBLOCK n ?sb} \<union> L)" "tx_same t u"
        have bb: "BBLOCK n ?sb \<in> bitmap_blocks ?sb" using n by (auto simp: free_blocks_def bitmap_blocks_def)
        have cc: "card ({n, BBLOCK n ?sb} \<union> L) < C"
          using bb card_mono [of "L \<union> bitmap_blocks ?sb \<union> {n}" "{n, BBLOCK n ?sb} \<union> L"] c1(2) [of n] by fastforce
        have vd: "alloc_view ?sb n V d = V d" using alloc_view_frame [OF n] db by blast
        have W: "returns (andthen (tx_write bp (store32 (4 * k) n (b_data (bufs u bp))) u) (\<lambda>_ s. brelse bp s))
            (\<lambda>_ x. fview x (via_view ?sb n k d V) [] C (insert d ({n, BBLOCK n ?sb} \<union> L)) \<and> tx_same s x)"
          using bx.write_release [OF u(1) cc, of "store32 (4 * k) n"] unfolding via_view_def vd
          by (rule returns_mono) (use t(2) u(2) in \<open>auto intro: tx_same_trans\<close>)
        note g = grow_via [OF w ok n k d]
        have n0: "n \<noteq> 0" using free_data_block [OF ok n] by (auto simp: data_block_def)
        have card: "card (free_blocks ?sb V) = card (free_blocks ?sb (via_view ?sb n k d V)) + 1"
          using g(4) n card_Suc_Diff1 [of "free_blocks ?sb V" n] by simp
        have fr: "via_view ?sb n k d V m = V m" if "m \<notin> bitmap_blocks ?sb" "m \<notin> free_blocks ?sb V" "m \<noteq> d" for m
          using that alloc_view_frame [OF n that(1,2)] by (simp add: via_view_def)
        have p: "ptr (via_view ?sb n k d V) ?i j = (if j = NDIRECT + k then n else ptr V ?i j)" if "j < MAXFILE" for j
          using g(1) that by simp
        have "mapped C ip (NDIRECT + k) s V L n x (via_view ?sb n k d V) (insert d ({n, BBLOCK n ?sb} \<union> L))"
          if "fview x (via_view ?sb n k d V) [] C (insert d ({n, BBLOCK n ?sb} \<union> L))" "tx_same s x" for x
          unfolding mapped_def Let_def fstate_def tx_same_fs [OF that(2)] tx_sameD(4) [OF that(2)]
          using that g(2-4) n n0 bb True d grown_tx [OF that(2), of ip] p k card fr pk
          by auto
        then show "returns (andthen (tx_write bp (store32 (4 * k) n (b_data (bufs u bp))) u) (\<lambda>_ s. andthen (brelse bp s) (\<lambda>_ s. Ret n s)))
            (\<lambda>a t. \<exists>V' L'. mapped C ip (NDIRECT + k) s V L a t V' L')"
          using W unfolding andthen_assoc [symmetric] by (auto elim!: returns_mono)
      qed
      moreover have "upd_buf bp (\<lambda>b. b\<lparr>b_data := store32 (4 * k) n (b_data b)\<rparr>) x = upd_buf bp (\<lambda>b. b\<lparr>b_data := store32 (4 * k) n (b_data (bufs x bp))\<rparr>) x"
        for n and x :: "'a fs_state_scheme" by (simp add: upd_buf_def)
      ultimately show ?thesis using True by (simp add: da same dev tx_write_def andthen_assoc)
    qed
  qed
qed

lemma pot_mono: "L \<subseteq> L' \<Longrightarrow> pot sb L i \<le> pot sb L' i"
  unfolding pot_def by (intro add_mono card_mono) auto

lemma pot_mapped:
  assumes m: "mapped C ip bn s V L a t V' L'" and bn: "bn \<le> MAXFILE"
  shows "pot (fs_sb s) (insert a L') (icache t ip) \<le> pot (fs_sb s) L (icache s ip) + of_bool (bn < MAXFILE)"
proof -
  note M = mappedD [OF m]
  define X where "X = L \<union> bitmap_blocks (fs_sb s)"
  define d d' where "d = i_addrs (icache s ip) NDIRECT" and "d' = i_addrs (icache t ip) NDIRECT"
  define A where "A = (if bn < MAXFILE then {a} else {})"
  have a: "bn \<noteq> MAXFILE \<or> a = d'" using M(3) ptr_indirect by (auto simp: d'_def)
  then have a2: "bn < MAXFILE \<or> d' \<noteq> 0" using bn M(4) by auto
  have "insert a L' \<union> bitmap_blocks (fs_sb s) \<union> ({d'} - {0}) \<subseteq> X \<union> ({d'} - {0}) \<union> A"
    using M(12) a a2 bn by (auto simp: X_def d'_def A_def)
  then have "card (insert a L' \<union> bitmap_blocks (fs_sb s) \<union> ({d'} - {0})) \<le> card (X \<union> ({d'} - {0}) \<union> A)" by (intro card_mono) auto
  also have "\<dots> \<le> card (X \<union> ({d'} - {0})) + of_bool (bn < MAXFILE)"
    using card_Un_le [of "X \<union> ({d'} - {0})" A] by (simp add: A_def split: if_splits)
  finally have l: "card (insert a L' \<union> bitmap_blocks (fs_sb s) \<union> ({d'} - {0})) \<le> card (X \<union> ({d'} - {0})) + of_bool (bn < MAXFILE)" .
  have "card (X \<union> ({d'} - {0})) + of_bool (d' = 0) \<le> card (X \<union> ({d} - {0})) + of_bool (d = 0)"
    using M(7) card_insert_if [of X d'] by (cases "d = 0"; cases "d' = 0") (auto simp: d_def d'_def card_insert_if)
  then show ?thesis using l unfolding pot_def X_def d_def d'_def by linarith
qed

lemma bmap_spec:
  assumes s: "fstate s V C L ip" and bn: "bn < MAXFILE" and c: "pot (fs_sb s) L (icache s ip) + 1 < C"
    and f: "of_bool (i_addrs (icache s ip) NDIRECT = 0) < card (free_blocks (fs_sb s) V)"
  shows "returns (bmap ip bn s) (\<lambda>a t. \<exists>V' L'. mapped C ip bn s V L a t V' L')"
proof (cases "bn < NDIRECT")
  case True
  have n: "bn \<le> NDIRECT" "pot (fs_sb s) L (icache s ip) < C" "free_blocks (fs_sb s) V \<noteq> {}" using True c f by auto
  have "slot_ptr bn = bn" using True by (simp add: slot_ptr_def)
  then show ?thesis using addr_step [OF s n] unfolding bmap_def Let_def set_addr_def [symmetric] if_P [OF True] by simp
next
  case False
  let ?k = "bn - NDIRECT"
  have k: "?k < NINDIRECT" "NDIRECT + ?k = bn" and nb: "NDIRECT \<le> bn" using False bn by auto
  have "free_blocks (fs_sb s) V \<noteq> {}" using f by auto
  then have one: "returns (if i_addrs (icache s ip) NDIRECT = 0
      then andthen (balloc (i_dev (icache s ip)) s) (\<lambda>n s. Ret n (upd_inode ip (set_addr NDIRECT n) s)) else Ret (i_addrs (icache s ip) NDIRECT) s)
     (\<lambda>a t. \<exists>V' L'. mapped C ip MAXFILE s V L a t V' L')"
    using addr_step [OF s, of NDIRECT] c by (simp add: slot_ptr_def)
  show ?thesis
    unfolding bmap_def Let_def set_addr_def [symmetric] if_not_P [OF False] if_P [OF k(1)]
  proof (rule returns_andthenI [OF one], elim exE)
    fix d t V1 L1
    assume m: "mapped C ip MAXFILE s V L d t V1 L1"
    note M = mappedD [OF m]
    have d: "d = i_addrs (icache t ip) NDIRECT" using M(3) by (simp add: ptr_indirect)
    have sb: "fs_sb t = fs_sb s" using grownD(1) [OF M(2)] .
    have "pot (fs_sb t) L1 (icache t ip) + 1 < C" using pot_mapped [OF m] pot_mono [OF subset_insertI, of "fs_sb s" L1 "icache t ip" d] c by (simp add: sb)
    moreover have "free_blocks (fs_sb t) V1 \<noteq> {}" using M(11) f by (auto simp: sb)
    ultimately have "returns (andthen (bread (i_dev (icache t ip)) d t) (\<lambda>bp s.
        let addr = load32 (b_data (bufs s bp)) (4 * ?k) in
        andthen (if addr = 0 then
                   andthen (balloc (i_dev (icache s ip)) s) (\<lambda>addr s.
                   andthen (log_write bp (upd_buf bp (\<lambda>b. b\<lparr>b_data := store32 (4 * ?k) addr (b_data b)\<rparr>) s)) (\<lambda>_ s.
                   Ret addr s))
                 else Ret addr s) (\<lambda>addr s.
        andthen (brelse bp s) (\<lambda>_ s. Ret addr s)))) (\<lambda>a u. \<exists>V' L'. mapped C ip (NDIRECT + ?k) t V1 L1 a u V' L')"
      using M(4) d by (intro via_step [OF M(1) k(1)]) auto
    then show "returns (andthen (bread (i_dev (icache t ip)) d t) (\<lambda>bp s.
        andthen (if load32 (b_data (bufs s bp)) (4 * ?k) = 0 then
                   andthen (balloc (i_dev (icache s ip)) s) (\<lambda>addr s.
                   andthen (log_write bp (upd_buf bp (\<lambda>b. b\<lparr>b_data := store32 (4 * ?k) addr (b_data b)\<rparr>) s)) (\<lambda>_ s.
                   Ret addr s))
                 else Ret (load32 (b_data (bufs s bp)) (4 * ?k)) s) (\<lambda>addr s.
        andthen (brelse bp s) (\<lambda>_ s. Ret addr s)))) (\<lambda>a u. \<exists>V' L'. mapped C ip bn s V L a u V' L')"
      unfolding k(2) Let_def by (rule returns_mono) (use mapped_trans [OF m _ nb bn] in blast)
  qed
qed

text \<open>Where the block is there, \<^verbatim>\<open>bmap\<close> only reads.\<close>

lemma bmap_present:
  assumes s: "fstate s V C L ip" and bn: "bn < MAXFILE" and p: "ptr V (icache s ip) bn \<noteq> 0"
  shows "returns (bmap ip bn s) (\<lambda>a t. a = ptr V (icache s ip) bn \<and> fview t V [] C L \<and> tx_same s t)"
proof (cases "bn < NDIRECT")
  case True
  then show ?thesis using s p by (simp add: bmap_def ptr_def fstate_def)
next
  case False
  let ?d = "i_addrs (icache s ip) NDIRECT"
  have pd: "ptr V (icache s ip) bn = load32 (V ?d) (4 * (bn - NDIRECT))" "?d \<noteq> 0" using False bn p by (auto simp: ptr_def split: if_splits)
  have w: "file_wf (fs_sb s) V (icache s ip)" and v: "fview s V [] C L" and ok: "fs_ok (disksize s) (fs_sb s) V" using s by (auto simp: fstate_def)
  have "?d < disksize s" using file_wf_ptr(1) [OF w, of MAXFILE] pd(2) ok unfolding ptr_indirect by (auto simp: data_block_def fs_ok_def)
  then have "returns (bread 1 ?d s) (\<lambda>b t. fview t V [(b, ?d)] C L \<and> tx_same s t)" using bx.read_law [OF v, of ?d] v by (simp add: fview_def)
  then have "returns (andthen (bread 1 ?d s) (\<lambda>bp s. andthen (if load32 (b_data (bufs s bp)) (4 * (bn - NDIRECT)) = 0 then
                   andthen (balloc (i_dev (icache s ip)) s) (\<lambda>addr s.
                   andthen (log_write bp (upd_buf bp (\<lambda>b. b\<lparr>b_data := store32 (4 * (bn - NDIRECT)) addr (b_data b)\<rparr>) s)) (\<lambda>_ s.
                   Ret addr s))
                 else Ret (load32 (b_data (bufs s bp)) (4 * (bn - NDIRECT))) s) (\<lambda>addr s.
        andthen (brelse bp s) (\<lambda>_ s. Ret addr s))))
      (\<lambda>a t. a = ptr V (icache s ip) bn \<and> fview t V [] C L \<and> tx_same s t)"
  proof (rule returns_andthenI, elim conjE)
    fix b t
    assume t: "fview t V [(b, ?d)] C L" "tx_same s t"
    have "b_data (bufs t b) = V ?d" using bx.get_law [OF t(1)] by simp
    then show "returns (andthen (if load32 (b_data (bufs t b)) (4 * (bn - NDIRECT)) = 0 then
                   andthen (balloc (i_dev (icache t ip)) t) (\<lambda>addr s.
                   andthen (log_write b (upd_buf b (\<lambda>b. b\<lparr>b_data := store32 (4 * (bn - NDIRECT)) addr (b_data b)\<rparr>) s)) (\<lambda>_ s.
                   Ret addr s))
                 else Ret (load32 (b_data (bufs t b)) (4 * (bn - NDIRECT))) t) (\<lambda>addr s. andthen (brelse b s) (\<lambda>_ s. Ret addr s)))
      (\<lambda>a t. a = ptr V (icache s ip) bn \<and> fview t V [] C L \<and> tx_same s t)"
      using p pd bx.rel_law [OF t(1)] t(2) by (auto elim!: returns_mono intro: tx_same_trans)
  qed
  moreover have "i_dev (icache s ip) = 1" "bn - NDIRECT < NINDIRECT" using w bn False by (auto simp: file_wf_def)
  ultimately show ?thesis unfolding bmap_def Let_def if_not_P [OF False] if_not_P [OF pd(2)] by simp
qed

end
