(* ===== verification/Xv6_Frw.thy ===== *)
theory Xv6_Frw
  imports Xv6_Fdata
begin

text \<open>
  Reading and writing the content of a file (\<^verbatim>\<open>readi\<close>, \<^verbatim>\<open>writei\<close> of \<^verbatim>\<open>fs.c\<close>) as operations on a
  sequence of bytes.
\<close>

section \<open>Content\<close>

definition fbyte :: "(uint \<Rightarrow> block) \<Rightarrow> inode \<Rightarrow> nat \<Rightarrow> uchar" where
  "fbyte V i x = V (ptr V i (x div BSIZE)) (x mod BSIZE)"

abbreviation "MAXSIZE \<equiv> MAXFILE * BSIZE"

lemma fstate_tx: "fstate s V C L ip \<Longrightarrow> tx_same s t \<Longrightarrow> fview t V [] C L \<Longrightarrow> fstate t V C L ip"
  by (simp add: fstate_def tx_same_fs tx_sameD)

lemma ptr_on_disk:
  assumes "fstate s V C L ip" "k \<le> MAXFILE" "ptr V (icache s ip) k \<noteq> 0"
  shows "ptr V (icache s ip) k < disksize s"
  using assms file_wf_ptr(1) [of "fs_sb s" V "icache s ip" k] by (auto simp: fstate_def data_block_def fs_ok_def)

lemma upt_chunk: "m \<le> n \<Longrightarrow> [a..<a + n] = [a..<a + m] @ [a + m..<a + n]" for n :: nat
  using upt_add_eq_append [of a "a + m" "n - m"] by simp

lemma chunk_bytes:
  assumes "m \<le> BSIZE - off mod BSIZE" "j < m"
  shows "(off + j) div BSIZE = off div BSIZE" "(off + j) mod BSIZE = off mod BSIZE + j"
proof -
  have l: "off mod BSIZE + j < BSIZE" using assms mod_less_divisor [of BSIZE off] by linarith
  have "off + j = BSIZE * (off div BSIZE) + (off mod BSIZE + j)" by simp
  then show "(off + j) div BSIZE = off div BSIZE" "(off + j) mod BSIZE = off mod BSIZE + j"
    using l by (metis add.commute div_mult_self2 div_less add_0 mod_mult_self2 mod_less zero_neq_numeral)+
qed

section \<open>Reading\<close>

lemma readi_loop_spec:
  assumes "fstate s V C L ip" "off + n \<le> MAXSIZE" "\<And>x. off \<le> x \<Longrightarrow> x < off + n \<Longrightarrow> ptr V (icache s ip) (x div BSIZE) \<noteq> 0"
  shows "returns (readi_loop ip off n dst s) (\<lambda>r t. r = dst @ map (fbyte V (icache s ip)) [off..<off + n] \<and> fview t V [] C L \<and> tx_same s t)"
  using assms
proof (induction n arbitrary: off dst s rule: less_induct)
  case (less n)
  show ?case
  proof (cases "n = 0")
    case True
    then show ?thesis using less.prems by (simp add: readi_loop.simps [of ip off 0] fstate_def)
  next
    case False
    let ?i = "icache s ip" and ?m = "min n (BSIZE - off mod BSIZE)"
    let ?a = "ptr V ?i (off div BSIZE)"
    have m: "0 < ?m" "?m \<le> n" "?m \<le> BSIZE - off mod BSIZE" using False by auto
    have bn: "off div BSIZE < MAXFILE" "?a \<noteq> 0" using less.prems(2,3) False by auto
    have map: "returns (bmap ip (off div BSIZE) s) (\<lambda>a t. a = ?a \<and> fview t V [] C L \<and> tx_same s t)"
      by (rule bmap_present [OF less.prems(1) bn])
    have rd: "returns (bread (i_dev (icache t ip)) ?a t) (\<lambda>b u. fview u V [(b, ?a)] C L \<and> tx_same t u)"
      if t: "fview t V [] C L" "tx_same s t" for t
      using bx.read_law [OF t(1), of ?a] ptr_on_disk [OF less.prems(1) _ bn(2)] bn(1) t less.prems(1)
      by (simp add: tx_same_fs [OF t(2)] tx_sameD [OF t(2)] fview_def fstate_def file_wf_def)
    have new: "map (\<lambda>i. V ?a (off mod BSIZE + i)) [0..<?m] = map (fbyte V ?i) [off..<off + ?m]"
      using chunk_bytes [OF m(3)] by (intro nth_equalityI) (simp_all add: fbyte_def)
    show ?thesis unfolding readi_loop.simps [of ip off n] if_not_P [OF False]
    proof (rule returns_andthenI [OF map], elim conjE, simp only:, rule returns_andthenI [OF rd])
      fix t b u
      assume u: "fview u V [(b, ?a)] C L \<and> tx_same t u" and t: "fview t V [] C L" "tx_same s t"
      have su: "tx_same s u" using t u tx_same_trans by blast
      have da: "b_data (bufs u b) = V ?a" using bx.get_law [of u V "[(b, ?a)]" C L b ?a] u by simp
      have "returns (brelse b u) (\<lambda>_ x. fview x V [] C L \<and> tx_same s x)"
        using bx.rel_law [of u V b ?a "[]" C L] u su tx_same_trans by (auto elim!: returns_mono)
      then have "returns (andthen (brelse b u) (\<lambda>_ x. readi_loop ip (off + ?m) (n - ?m) (dst @ map (fbyte V ?i) [off..<off + ?m]) x))
        (\<lambda>r t. r = dst @ map (fbyte V ?i) [off..<off + n] \<and> fview t V [] C L \<and> tx_same s t)"
      proof (rule returns_andthenI, elim conjE)
        fix x
        assume x: "fview x V [] C L" "tx_same s x"
        have ix: "icache x ip = ?i" using tx_same_fs(2) [OF x(2)] by simp
        have "returns (readi_loop ip (off + ?m) (n - ?m) (dst @ map (fbyte V ?i) [off..<off + ?m]) x)
          (\<lambda>r t. r = (dst @ map (fbyte V ?i) [off..<off + ?m]) @ map (fbyte V (icache x ip)) [off + ?m..<off + ?m + (n - ?m)] \<and> fview t V [] C L \<and> tx_same x t)"
          by (rule less.IH) (use m less.prems fstate_tx [OF less.prems(1) x(2,1)] in \<open>auto simp: ix\<close>)
        then show "returns (readi_loop ip (off + ?m) (n - ?m) (dst @ map (fbyte V ?i) [off..<off + ?m]) x)
          (\<lambda>r t. r = dst @ map (fbyte V ?i) [off..<off + n] \<and> fview t V [] C L \<and> tx_same s t)"
          by (rule returns_mono) (use m(2) x(2) in \<open>auto simp: ix upt_chunk [OF m(2), of off] intro: tx_same_trans\<close>)
      qed
      then show "returns (let m = min n (BSIZE - off mod BSIZE); new = map (\<lambda>i. b_data (bufs u b) (off mod BSIZE + i)) [0..<m]
          in andthen (brelse b u) (\<lambda>_. readi_loop ip (off + m) (n - m) (dst @ new)))
        (\<lambda>r t. r = dst @ map (fbyte V ?i) [off..<off + n] \<and> fview t V [] C L \<and> tx_same s t)"
        unfolding Let_def da new .
    qed auto
  qed
qed

section \<open>Writing\<close>

definition fptrs :: "(uint \<Rightarrow> block) \<Rightarrow> inode \<Rightarrow> uint set" where
  "fptrs V i = ptr V i ` {..MAXFILE} - {0}"

text \<open>
  \<open>N\<close> rounds of the loop have written \<open>n\<close> bytes of \<open>src\<close> at \<open>off\<close>: those bytes are as written, other
  bytes of the file and all blocks that neither belong to it nor were free are as before.
\<close>

definition wrote_file :: "nat \<Rightarrow> nat \<Rightarrow> nat \<Rightarrow> nat \<Rightarrow> nat \<Rightarrow> (nat \<Rightarrow> uchar) \<Rightarrow> 'a fs_state_scheme \<Rightarrow> (uint \<Rightarrow> block) \<Rightarrow> uint set
    \<Rightarrow> 'a fs_state_scheme \<Rightarrow> (uint \<Rightarrow> block) \<Rightarrow> uint set \<Rightarrow> bool" where
  "wrote_file C N ip off n src s V L t V' L' \<longleftrightarrow> (let sb = fs_sb s; i = icache s ip; i' = icache t ip in
     fstate t V' C L' ip \<and> grown ip s t
     \<and> pot sb L' i' \<le> pot sb L i + N
     \<and> card (free_blocks sb V) + of_bool (i_addrs i' NDIRECT = 0) \<le> card (free_blocks sb V') + N + of_bool (i_addrs i NDIRECT = 0)
     \<and> free_blocks sb V' \<subseteq> free_blocks sb V \<and> fptrs V' i' \<subseteq> fptrs V i \<union> free_blocks sb V
     \<and> (\<forall>b. b \<notin> bitmap_blocks sb \<union> free_blocks sb V \<union> fptrs V i \<longrightarrow> V' b = V b)
     \<and> (\<forall>x. off \<le> x \<and> x < off + n \<longrightarrow> ptr V' i' (x div BSIZE) \<noteq> 0 \<and> fbyte V' i' x = src (x - off))
     \<and> (\<forall>x<MAXSIZE. \<not> (off \<le> x \<and> x < off + n) \<longrightarrow> ptr V i (x div BSIZE) \<noteq> 0 \<longrightarrow>
          ptr V' i' (x div BSIZE) \<noteq> 0 \<and> fbyte V' i' x = fbyte V i x)
     \<and> L' \<subseteq> L \<union> bitmap_blocks sb \<union> {b. data_block sb b}
     \<and> ((\<forall>x. off \<le> x \<and> x < off + n \<longrightarrow> ptr V i (x div BSIZE) \<noteq> 0) \<longrightarrow> i_addrs i' = i_addrs i))"

lemma wrote_fileD:
  assumes "wrote_file C N ip off n src s V L t V' L'"
  shows "fstate t V' C L' ip" "grown ip s t" "pot (fs_sb s) L' (icache t ip) \<le> pot (fs_sb s) L (icache s ip) + N"
    "card (free_blocks (fs_sb s) V) + of_bool (i_addrs (icache t ip) NDIRECT = 0)
      \<le> card (free_blocks (fs_sb s) V') + N + of_bool (i_addrs (icache s ip) NDIRECT = 0)"
    "free_blocks (fs_sb s) V' \<subseteq> free_blocks (fs_sb s) V" "fptrs V' (icache t ip) \<subseteq> fptrs V (icache s ip) \<union> free_blocks (fs_sb s) V"
    "b \<notin> bitmap_blocks (fs_sb s) \<Longrightarrow> b \<notin> free_blocks (fs_sb s) V \<Longrightarrow> b \<notin> fptrs V (icache s ip) \<Longrightarrow> V' b = V b"
    "off \<le> x \<Longrightarrow> x < off + n \<Longrightarrow> ptr V' (icache t ip) (x div BSIZE) \<noteq> 0 \<and> fbyte V' (icache t ip) x = src (x - off)"
    "x < MAXSIZE \<Longrightarrow> \<not> (off \<le> x \<and> x < off + n) \<Longrightarrow> ptr V (icache s ip) (x div BSIZE) \<noteq> 0 \<Longrightarrow>
      ptr V' (icache t ip) (x div BSIZE) \<noteq> 0 \<and> fbyte V' (icache t ip) x = fbyte V (icache s ip) x"
    "L' \<subseteq> L \<union> bitmap_blocks (fs_sb s) \<union> {b. data_block (fs_sb s) b}"
    "(\<And>x. off \<le> x \<Longrightarrow> x < off + n \<Longrightarrow> ptr V (icache s ip) (x div BSIZE) \<noteq> 0) \<Longrightarrow> i_addrs (icache t ip) = i_addrs (icache s ip)"
  using assms unfolding wrote_file_def Let_def by blast+

text \<open>Changing the content of one of the file's data blocks.\<close>

lemma data_write:
  assumes w: "file_wf sb V i" and k: "k < MAXFILE" "ptr V i k = a" "a \<noteq> 0"
  shows "j \<le> MAXFILE \<Longrightarrow> ptr (V(a := d)) i j = ptr V i j" "file_wf sb (V(a := d)) i"
    "free_blocks sb (V(a := d)) = free_blocks sb V" "fs_ok dsz sb (V(a := d)) = fs_ok dsz sb V"
proof -
  have ab: "a \<notin> bitmap_blocks sb" using file_wf_ptr(3) [OF w, of k] k by simp
  have ai: "i_addrs i NDIRECT \<noteq> a"
  proof
    assume e: "i_addrs i NDIRECT = a"
    then have "ptr V i k = ptr V i MAXFILE" using k(2) ptr_indirect by simp
    then have "k = MAXFILE" using w k(1,2,3) unfolding file_wf_def by (metis less_imp_le order_refl)
    then show False using k(1) by simp
  qed
  show p: "ptr (V(a := d)) i j = ptr V i j" if "j \<le> MAXFILE" for j using ai by (simp add: ptr_def)
  have "used sb (V(a := d)) c = used sb V c" if "c < sb_size sb" for c using used_other [OF ab that] .
  then show "file_wf sb (V(a := d)) i" using w p by (auto simp: file_wf_def data_block_def)
  show f: "free_blocks sb (V(a := d)) = free_blocks sb V" by (rule free_blocks_other [OF ab])
  show "fs_ok dsz sb (V(a := d)) = fs_ok dsz sb V" by (simp add: fs_ok_def f)
qed

lemma fbyte_data_write:
  assumes w: "file_wf sb V i" and k: "k < MAXFILE" "ptr V i k = a" "a \<noteq> 0" and x: "x < MAXSIZE" "ptr V i (x div BSIZE) \<noteq> 0"
  shows "fbyte (V(a := d)) i x = (if x div BSIZE = k then d (x mod BSIZE) else fbyte V i x)"
proof -
  have j: "x div BSIZE < MAXFILE" using x(1) by auto
  then have "ptr V i (x div BSIZE) = a \<longleftrightarrow> x div BSIZE = k" using w k x(2) unfolding file_wf_def by (metis less_imp_le)
  then show ?thesis using data_write(1) [OF w k, of "x div BSIZE" d] j by (simp add: fbyte_def)
qed

lemma mapped_bytes:
  assumes s: "fstate s V C L ip" and m: "mapped C ip bn s V L a t V' L'" and x: "x < MAXSIZE" "ptr V (icache s ip) (x div BSIZE) \<noteq> 0"
  shows "ptr V' (icache t ip) (x div BSIZE) = ptr V (icache s ip) (x div BSIZE) \<and> fbyte V' (icache t ip) x = fbyte V (icache s ip) x"
proof -
  let ?k = "x div BSIZE" and ?i = "icache s ip"
  note M = mappedD [OF m]
  have k: "?k < MAXFILE" using x(1) by auto
  have w: "file_wf (fs_sb s) V ?i" using s by (simp add: fstate_def)
  have p: "ptr V' (icache t ip) ?k = ptr V ?i ?k" using M(3,6) x(2) M(5) [OF k] by (cases "?k = bn") auto
  have "ptr V ?i ?k = ptr V ?i MAXFILE \<Longrightarrow> ?k = MAXFILE" using w k x(2) unfolding file_wf_def by (metis less_imp_le order_refl)
  then have "ptr V ?i ?k \<noteq> i_addrs ?i NDIRECT" using k by (auto simp: ptr_indirect)
  then have "V' (ptr V ?i ?k) = V (ptr V ?i ?k)" using file_wf_ptr [OF w, of ?k] k x(2) by (intro M(9)) auto
  then show ?thesis using p by (simp add: fbyte_def)
qed

lemma mapped_fptrs:
  assumes m: "mapped C ip bn s V L a t V' L'" and bn: "bn < MAXFILE"
  shows "fptrs V' (icache t ip) \<subseteq> fptrs V (icache s ip) \<union> free_blocks (fs_sb s) V"
proof
  note M = mappedD [OF m]
  fix b
  assume "b \<in> fptrs V' (icache t ip)"
  then obtain j where j: "j \<le> MAXFILE" "b = ptr V' (icache t ip) j" "b \<noteq> 0" by (auto simp: fptrs_def)
  have in_old: "ptr V (icache s ip) k \<noteq> 0 \<Longrightarrow> k \<le> MAXFILE \<Longrightarrow> ptr V (icache s ip) k \<in> fptrs V (icache s ip)" for k
    by (auto simp: fptrs_def)
  consider "j < MAXFILE" "j \<noteq> bn" | "j = bn" | "j = MAXFILE" using j(1) by linarith
  then show "b \<in> fptrs V (icache s ip) \<union> free_blocks (fs_sb s) V"
  proof cases
    case 1
    then show ?thesis using M(5) [of j] j in_old [of j] by simp
  next
    case 2
    then show ?thesis using M(3,8) j in_old [of bn] in_old [of MAXFILE] bn by (auto simp: ptr_indirect)
  next
    case 3
    then show ?thesis using M(8) j in_old [of bn] in_old [of MAXFILE] bn by (auto simp: ptr_indirect)
  qed
qed

lemma mapped_wrote:
  assumes s: "fstate s V C L ip" and mp: "mapped C ip (off div BSIZE) s V L a t V1 L1" and off: "off < MAXSIZE" and m: "m \<le> BSIZE - off mod BSIZE" "0 < m"
    and u: "fview u (V1(a := blit 0 src (off mod BSIZE) m (V1 a))) [] C (insert a L1)" "tx_same t u"
  shows "wrote_file C 1 ip off m src s V L u (V1(a := blit 0 src (off mod BSIZE) m (V1 a))) (insert a L1)"
proof -
  let ?k = "off div BSIZE" and ?d = "blit 0 src (off mod BSIZE) m (V1 a)" and ?sb = "fs_sb s" and ?i = "icache s ip" and ?i' = "icache t ip"
  let ?V = "V1(a := ?d)"
  note M = mappedD [OF mp] and same = tx_same_fs [OF u(2)] tx_sameD(4) [OF u(2)] and gr = grownD [OF mappedD(2) [OF mp]]
  have k: "?k < MAXFILE" using off by auto
  have w: "file_wf ?sb V ?i" "file_wf ?sb V1 ?i'" using s M(1) gr(1) by (auto simp: fstate_def)
  have pa: "ptr V1 ?i' ?k = a" using M(3) by simp
  note dw = data_write [OF w(2) k pa M(4)] and fb = fbyte_data_write [OF w(2) k pa M(4)]
  have old: "ptr ?V ?i' (x div BSIZE) \<noteq> 0 \<and> fbyte ?V ?i' x = fbyte V ?i x"
    if "x < MAXSIZE" "\<not> (off \<le> x \<and> x < off + m)" "ptr V ?i (x div BSIZE) \<noteq> 0" for x
  proof -
    have b: "ptr V1 ?i' (x div BSIZE) \<noteq> 0" "fbyte V1 ?i' x = fbyte V ?i x" using mapped_bytes [OF s mp that(1,3)] that(3) by auto
    have "?d (x mod BSIZE) = V1 a (x mod BSIZE)" if k: "x div BSIZE = ?k"
    proof (rule blit_out)
      have "x = BSIZE * ?k + x mod BSIZE" "off = BSIZE * ?k + off mod BSIZE" using k by (metis mult_div_mod_eq) simp
      then show "\<not> (off mod BSIZE \<le> x mod BSIZE \<and> x mod BSIZE < off mod BSIZE + m)" using \<open>\<not> (off \<le> x \<and> x < off + m)\<close> by linarith
    qed
    then show ?thesis using b fb [OF that(1) b(1), of ?d] dw(1) [of "x div BSIZE" ?d] that(1) pa by (auto simp: fbyte_def)
  qed
  have new: "ptr ?V ?i' (x div BSIZE) \<noteq> 0 \<and> fbyte ?V ?i' x = src (x - off)" if "off \<le> x" "x < off + m" for x
  proof -
    define j where "j = x - off"
    have j: "x = off + j" "j < m" using that by (auto simp: j_def)
    have c: "x div BSIZE = ?k" "x mod BSIZE = off mod BSIZE + j" using chunk_bytes [OF m(1) j(2)] j(1) by auto
    have "x < MAXSIZE" using c(1) k by auto
    then show ?thesis using fb [of x ?d] dw(1) [of ?k ?d] c pa M(4) k j by simp
  qed
  have fp: "fptrs ?V ?i' = fptrs V1 ?i'" unfolding fptrs_def using dw(1) by (intro arg_cong2 [where f = "(-)"] image_cong) auto
  have ax: "a \<in> fptrs V ?i \<union> free_blocks ?sb V" using mapped_fptrs [OF mp k] pa M(4) k by (force simp: fptrs_def)
  have frame: "?V b = V b" if "b \<notin> bitmap_blocks ?sb" "b \<notin> free_blocks ?sb V" "b \<notin> fptrs V ?i" for b
  proof -
    have "b \<notin> {i_addrs ?i NDIRECT} - {0}" using that(3) ptr_indirect [of V ?i] by (force simp: fptrs_def)
    then show ?thesis using that ax M(9) [of b] by auto
  qed
  have card: "card (free_blocks ?sb V) + of_bool (i_addrs ?i' NDIRECT = 0) \<le> card (free_blocks ?sb V1) + 1 + of_bool (i_addrs ?i NDIRECT = 0)"
    using M(11) k by simp
  have db: "data_block ?sb a" "\<And>d. i_addrs ?i' NDIRECT = d \<Longrightarrow> d \<noteq> 0 \<Longrightarrow> data_block ?sb d"
    using file_wf_ptr(1) [OF w(2), of ?k] file_wf_ptr(1) [OF w(2), of MAXFILE] pa M(4) k by (auto simp: ptr_indirect)
  have pot: "pot ?sb (insert a L1) ?i' \<le> pot ?sb L ?i + 1" using pot_mapped [OF mp] k by simp
  have l: "insert a L1 \<subseteq> L \<union> bitmap_blocks ?sb \<union> {b. data_block ?sb b}" using M(12) db by blast
  show ?thesis
    unfolding wrote_file_def Let_def fstate_def same fp dw(3,4) gr(1,2)
    using u(1) dw(2,4) pot card M(1,10) mapped_fptrs [OF mp k] frame new old l grown_trans [OF M(2) grown_tx [OF u(2)]] M(13) m(2)
    by (auto simp: fstate_def gr)
qed

lemma wrote_trans:
  assumes s: "fstate s V C L ip" and w: "wrote_file C N ip off m src s V L t V1 L1" and w': "wrote_file C N' ip (off + m) n (\<lambda>i. src (m + i)) t V1 L1 u V2 L2"
    and l: "off + m + n \<le> MAXSIZE"
  shows "wrote_file C (N + N') ip off (m + n) src s V L u V2 L2"
proof -
  note W = wrote_fileD [OF w] and W' = wrote_fileD [OF w']
  have sb: "fs_sb t = fs_sb s" using grownD(1) [OF W(2)] .
  have new: "ptr V2 (icache u ip) (x div BSIZE) \<noteq> 0 \<and> fbyte V2 (icache u ip) x = src (x - off)" if "off \<le> x" "x < off + (m + n)" for x
  proof (cases "x < off + m")
    case True
    then show ?thesis using W(8) [of x] W'(9) [of x] that l by auto
  next
    case False
    then show ?thesis using W'(8) [of x] that by auto
  qed
  have old: "ptr V2 (icache u ip) (x div BSIZE) \<noteq> 0 \<and> fbyte V2 (icache u ip) x = fbyte V (icache s ip) x"
    if "x < MAXSIZE" "\<not> (off \<le> x \<and> x < off + (m + n))" "ptr V (icache s ip) (x div BSIZE) \<noteq> 0" for x
    using that W(9) [of x] W'(9) [of x] by auto
  have frame: "V2 b = V b" if "b \<notin> bitmap_blocks (fs_sb s)" "b \<notin> free_blocks (fs_sb s) V" "b \<notin> fptrs V (icache s ip)" for b
  proof -
    have "b \<notin> free_blocks (fs_sb s) V1" "b \<notin> fptrs V1 (icache t ip)" using that W(5,6) by auto
    then show ?thesis using W(7) [OF that] W'(7) [of b] that(1) by (simp add: sb)
  qed
  have sub: "free_blocks (fs_sb s) V2 \<subseteq> free_blocks (fs_sb s) V" "fptrs V2 (icache u ip) \<subseteq> fptrs V (icache s ip) \<union> free_blocks (fs_sb s) V"
      "L2 \<subseteq> L \<union> bitmap_blocks (fs_sb s) \<union> {b. data_block (fs_sb s) b}"
    using W(5,6,10) W'(5,6,10) by (auto simp: sb)
  have num: "pot (fs_sb s) L2 (icache u ip) \<le> pot (fs_sb s) L (icache s ip) + (N + N')"
      "card (free_blocks (fs_sb s) V) + of_bool (i_addrs (icache u ip) NDIRECT = 0)
        \<le> card (free_blocks (fs_sb s) V2) + (N + N') + of_bool (i_addrs (icache s ip) NDIRECT = 0)"
    using W(3,4) W'(3,4) by (simp_all add: sb)
  have ad: "i_addrs (icache u ip) = i_addrs (icache s ip)" if p: "\<And>x. off \<le> x \<Longrightarrow> x < off + (m + n) \<Longrightarrow> ptr V (icache s ip) (x div BSIZE) \<noteq> 0"
  proof -
    have "i_addrs (icache t ip) = i_addrs (icache s ip)" using p by (intro W(11)) auto
    moreover have "ptr V1 (icache t ip) (x div BSIZE) \<noteq> 0" if "off + m \<le> x" "x < off + m + n" for x using W(9) [of x] p [of x] that l by auto
    ultimately show ?thesis using W'(11) by simp
  qed
  show ?thesis unfolding wrote_file_def Let_def
    using W'(1) grown_trans [OF W(2) W'(2)] num sub frame new old ad by blast
qed

lemma wrote_nothing:
  assumes "fstate s V C L ip"
  shows "wrote_file C 0 ip off 0 src s V L s V L"
  using assms grown_tx [OF tx_same_refl, of ip s] by (auto simp: wrote_file_def Let_def)

text \<open>The number of blocks that bytes \<open>off, ..., off + n - 1\<close> touch.\<close>

definition nblocks :: "nat \<Rightarrow> nat \<Rightarrow> nat" where
  "nblocks off n = (if n = 0 then 0 else (off + n - 1) div BSIZE - off div BSIZE + 1)"

lemma nblocks_step:
  assumes "0 < n" "m = min n (BSIZE - off mod BSIZE)"
  shows "nblocks off n = Suc (nblocks (off + m) (n - m))"
proof (cases "n \<le> BSIZE - off mod BSIZE")
  case True
  then have "(off + (n - 1)) div BSIZE = off div BSIZE" using assms(1) by (intro chunk_bytes(1)) auto
  then show ?thesis using assms True by (simp add: nblocks_def)
next
  case False
  define q r where "q = off div BSIZE" and "r = off mod BSIZE"
  have "off = BSIZE * q + r" "r < BSIZE" by (simp_all add: q_def r_def)
  moreover have mr: "m = BSIZE - r" "m < n" using False assms by (auto simp: r_def)
  ultimately have m: "off + m = BSIZE * (off div BSIZE + 1)" "m < n" unfolding q_def [symmetric] by simp_all
  then have "(off + m) div BSIZE = off div BSIZE + 1" by simp
  moreover have "off div BSIZE + 1 \<le> (off + n - 1) div BSIZE" using m by (auto simp: less_eq_div_iff_mult_less_eq)
  ultimately show ?thesis using m(2) by (simp add: nblocks_def Suc_diff_Suc)
qed

text \<open>One round: map the block, read it, overwrite part of it, log it.\<close>

lemma write_round:
  assumes s: "fstate s V C L ip" and off: "off < MAXSIZE" and m: "m \<le> BSIZE - off mod BSIZE" "0 < m"
    and c: "pot (fs_sb s) L (icache s ip) + 1 < C" and f: "of_bool (i_addrs (icache s ip) NDIRECT = 0) < card (free_blocks (fs_sb s) V)"
  shows "returns (andthen (bmap ip (off div BSIZE) s) (\<lambda>addr s. andthen (bread (i_dev (icache s ip)) addr s) (\<lambda>bp s.
      andthen (log_write bp (upd_buf bp (\<lambda>b. b\<lparr>b_data := blit 0 src (off mod BSIZE) m (b_data b)\<rparr>) s)) (\<lambda>_ s. brelse bp s))))
    (\<lambda>_ t. \<exists>V' L'. wrote_file C 1 ip off m src s V L t V' L')"
proof -
  have k: "off div BSIZE < MAXFILE" using off by auto
  let ?f = "blit 0 src (off mod BSIZE) m"
  show ?thesis
  proof (rule returns_andthenI [OF bmap_spec [OF s k c f]], elim exE)
    fix a t V1 L1
    assume mp: "mapped C ip (off div BSIZE) s V L a t V1 L1"
    note M = mappedD [OF mp]
    have t: "fview t V1 [] C L1" and dev: "i_dev (icache t ip) = 1" using M(1) by (auto simp: fstate_def file_wf_def)
    have "pot (fs_sb s) (insert a L1) (icache t ip) \<le> pot (fs_sb s) L (icache s ip) + 1" using pot_mapped [OF mp] k by simp
    moreover have "card L1 \<le> pot (fs_sb s) (insert a L1) (icache t ip)" unfolding pot_def by (intro trans_le_add1 card_mono) auto
    ultimately have c': "card L1 < C" using c by linarith
    have "a < disksize t" using ptr_on_disk [OF M(1), of "off div BSIZE"] M(3,4) k by simp
    then have rd: "returns (bread (i_dev (icache t ip)) a t) (\<lambda>b u. fview u V1 [(b, a)] C L1 \<and> tx_same t u)"
      using bx.read_law [OF t, of a] c' by (simp add: dev)
    show "returns (andthen (bread (i_dev (icache t ip)) a t) (\<lambda>bp s.
        andthen (log_write bp (upd_buf bp (\<lambda>b. b\<lparr>b_data := ?f (b_data b)\<rparr>) s)) (\<lambda>_ s. brelse bp s)))
      (\<lambda>_ t. \<exists>V' L'. wrote_file C 1 ip off m src s V L t V' L')"
    proof (rule returns_andthenI [OF rd], elim conjE)
      fix b u
      assume u: "fview u V1 [(b, a)] C L1" "tx_same t u"
      have e: "upd_buf b (\<lambda>k. k\<lparr>b_data := ?f (b_data k)\<rparr>) u = upd_buf b (\<lambda>k. k\<lparr>b_data := ?f (b_data (bufs u b))\<rparr>) u" by (simp add: upd_buf_def)
      show "returns (andthen (log_write b (upd_buf b (\<lambda>b. b\<lparr>b_data := ?f (b_data b)\<rparr>) u)) (\<lambda>_ s. brelse b s))
          (\<lambda>_ t. \<exists>V' L'. wrote_file C 1 ip off m src s V L t V' L')"
        unfolding e using bx.write_release [OF u(1) c', of ?f] unfolding tx_write_def
        by (rule returns_mono) (use mapped_wrote [OF s mp off m] u(2) tx_same_trans in blast)
    qed
  qed
qed

lemma writei_loop_spec:
  assumes "fstate s V C L ip" "off + n \<le> MAXSIZE" "0 < n \<Longrightarrow> pot (fs_sb s) L (icache s ip) + nblocks off n < C"
    "nblocks off n + of_bool (i_addrs (icache s ip) NDIRECT = 0) \<le> card (free_blocks (fs_sb s) V)"
  shows "returns (writei_loop ip src off n s) (\<lambda>_ t. \<exists>V' L'. wrote_file C (nblocks off n) ip off n src s V L t V' L')"
  using assms
proof (induction n arbitrary: src off s V L rule: less_induct)
  case (less n)
  show ?case
  proof (cases "n = 0")
    case True
    then show ?thesis using wrote_nothing [OF less.prems(1), of off src] by (auto simp: writei_loop.simps [of ip src off 0] nblocks_def)
  next
    case False
    let ?m = "min n (BSIZE - off mod BSIZE)"
    have m: "0 < ?m" "?m \<le> n" "?m \<le> BSIZE - off mod BSIZE" using False by auto
    define q where "q = nblocks (off + ?m) (n - ?m)"
    have nb: "nblocks off n = Suc q" unfolding q_def using False by (intro nblocks_step) auto
    have pre: "off < MAXSIZE" "pot (fs_sb s) L (icache s ip) + 1 < C" "of_bool (i_addrs (icache s ip) NDIRECT = 0) < card (free_blocks (fs_sb s) V)"
      using less.prems(2-4) False nb by linarith+
    have r: "returns (andthen (bmap ip (off div BSIZE) s) (\<lambda>addr s. andthen (bread (i_dev (icache s ip)) addr s) (\<lambda>bp s.
        andthen (log_write bp (upd_buf bp (\<lambda>b. b\<lparr>b_data := blit 0 src (off mod BSIZE) ?m (b_data b)\<rparr>) s)) (\<lambda>_ s. brelse bp s))))
      (\<lambda>_ t. \<exists>V' L'. wrote_file C 1 ip off ?m src s V L t V' L')"
      by (rule write_round [OF less.prems(1) pre(1) m(3,1) pre(2,3)])
    have "returns (andthen (andthen (bmap ip (off div BSIZE) s) (\<lambda>addr s. andthen (bread (i_dev (icache s ip)) addr s) (\<lambda>bp s.
        andthen (log_write bp (upd_buf bp (\<lambda>b. b\<lparr>b_data := blit 0 src (off mod BSIZE) ?m (b_data b)\<rparr>) s)) (\<lambda>_ s. brelse bp s))))
        (\<lambda>_ s. writei_loop ip (\<lambda>i. src (?m + i)) (off + ?m) (n - ?m) s))
      (\<lambda>_ t. \<exists>V' L'. wrote_file C (nblocks off n) ip off n src s V L t V' L')"
    proof (rule returns_andthenI [OF r], elim exE)
      fix t V1 L1
      assume w: "wrote_file C 1 ip off ?m src s V L t V1 L1"
      note W = wrote_fileD [OF w]
      have tr: "wrote_file C (Suc q) ip off n src s V L u V' L'"
        if "wrote_file C q ip (off + ?m) (n - ?m) (\<lambda>i. src (?m + i)) t V1 L1 u V' L'" for u V' L'
        using wrote_trans [OF less.prems(1) w that] less.prems(2) m(2) by simp
      have "returns (writei_loop ip (\<lambda>i. src (?m + i)) (off + ?m) (n - ?m) t)
          (\<lambda>_ u. \<exists>V' L'. wrote_file C (nblocks (off + ?m) (n - ?m)) ip (off + ?m) (n - ?m) (\<lambda>i. src (?m + i)) t V1 L1 u V' L')"
      proof (rule less.IH [OF _ W(1)])
        show "n - ?m < n" "off + ?m + (n - ?m) \<le> MAXSIZE" using m(1,2) less.prems(2) by linarith+
        show "pot (fs_sb t) L1 (icache t ip) + nblocks (off + ?m) (n - ?m) < C"
          using W(3) less.prems(3) False nb unfolding grownD(1) [OF W(2)] q_def [symmetric] by linarith
        show "nblocks (off + ?m) (n - ?m) + of_bool (i_addrs (icache t ip) NDIRECT = 0) \<le> card (free_blocks (fs_sb t) V1)"
          using W(4) less.prems(4) nb unfolding grownD(1) [OF W(2)] q_def [symmetric] by linarith
      qed
      then show "returns (writei_loop ip (\<lambda>i. src (?m + i)) (off + ?m) (n - ?m) t)
          (\<lambda>_ u. \<exists>V' L'. wrote_file C (nblocks off n) ip off n src s V L u V' L')"
        unfolding nb q_def [symmetric] by (rule returns_mono) (use tr in blast)
    qed
    then show ?thesis using False by (simp add: writei_loop.simps [of ip src off n] Let_def andthen_assoc)
  qed
qed

end
