(* ===== verification/Xv6_Fs.thy ===== *)
theory Xv6_Fs
  imports Xv6_Frw Xv6_Storage Xv6_File
begin

text \<open>
  The file system as its clients see it: properties of the block allocator, of inodes on disk, and
  of \<^verbatim>\<open>readi\<close> and \<^verbatim>\<open>writei\<close>, each shown to hold on the file system that \<^verbatim>\<open>mkfs\<close> lays out.
\<close>

section \<open>Files\<close>

text \<open>A regular file or directory whose blocks up to its size are there.\<close>

definition file_ok :: "'a fs_state_scheme \<Rightarrow> (uint \<Rightarrow> block) \<Rightarrow> nat \<Rightarrow> uint set \<Rightarrow> nat \<Rightarrow> bool" where
  "file_ok s V C L ip \<longleftrightarrow> fstate s V C L ip \<and> i_type (icache s ip) \<noteq> T_DEV \<and> unat (i_size (icache s ip)) \<le> MAXSIZE
     \<and> (\<forall>x<unat (i_size (icache s ip)). ptr V (icache s ip) (x div BSIZE) \<noteq> 0)"

lemma file_okD:
  assumes "file_ok s V C L ip"
  shows "fstate s V C L ip" "i_type (icache s ip) \<noteq> T_DEV" "unat (i_size (icache s ip)) \<le> MAXSIZE"
    "x < unat (i_size (icache s ip)) \<Longrightarrow> ptr V (icache s ip) (x div BSIZE) \<noteq> 0"
  using assms by (simp_all add: file_ok_def)

lemma sint_small: "unat (w :: uint) \<le> MAXSIZE \<Longrightarrow> sint w = int (unat w)"
proof -
  assume "unat w \<le> MAXSIZE"
  then have "int (unat w) \<le> int MAXSIZE" by (rule zle_int [THEN iffD2])
  also have "\<dots> < 2 ^ 31" by simp
  finally have "int (unat w) < 2 ^ 31" .
  from sint_of_int_small [OF _ this] show ?thesis by simp
qed

lemma readi_spec:
  assumes f: "file_ok s V C L ip" and o: "off \<le> i_size (icache s ip)" "unat off + unat n < 2 ^ 32"
  defines "k \<equiv> min (unat n) (unat (i_size (icache s ip)) - unat off)"
  shows "returns (readi ip off n s) (\<lambda>(r, bs) t. r = int k \<and> bs = map (fbyte V (icache s ip)) [unat off..<unat off + k] \<and> fview t V [] C L \<and> tx_same s t)"
proof -
  let ?i = "icache s ip"
  note F = file_okD [OF f]
  define n' where "n' = (if off + n > i_size ?i then i_size ?i - off else n)"
  have on: "unat (off + n) = unat off + unat n" using o(2) by (subst unat_add_lem [symmetric]) simp
  have le: "unat off \<le> unat (i_size ?i)" using o(1) by (simp add: word_le_nat_alt)
  have k: "unat n' = k"
    using on le by (auto simp: n'_def k_def word_less_nat_alt unat_sub word_le_nat_alt)
  have "\<not> off > i_size ?i" "\<not> off + n < off" using o(1) on by (auto simp: word_less_nat_alt word_le_nat_alt)
  then have e: "readi ip off n s = andthen (readi_loop ip (unat off) (unat n') [] s) (\<lambda>dst s. Ret (sint n', dst) s)"
    using F(2) by (simp add: readi_def Let_def n'_def)
  have kl: "unat off + k \<le> unat (i_size ?i)" using le by (simp add: k_def)
  have "sint n' = int k" using sint_small [of n'] k kl F(3) by simp
  moreover have "returns (readi_loop ip (unat off) (unat n') [] s)
    (\<lambda>r t. r = [] @ map (fbyte V ?i) [unat off..<unat off + unat n'] \<and> fview t V [] C L \<and> tx_same s t)"
    by (rule readi_loop_spec [OF F(1)]) (use F(3,4) kl k in auto)
  ultimately show ?thesis unfolding e by (auto simp: k elim!: returns_mono)
qed

section \<open>Writing, with the inode\<close>

text \<open>The disk inode of a cached inode is up to date.\<close>

definition synced :: "superblock \<Rightarrow> (uint \<Rightarrow> block) \<Rightarrow> inode \<Rightarrow> bool" where
  "synced sb V i \<longleftrightarrow> (let d = get_dinode (V (IBLOCK (i_inum i) sb)) (unat (i_inum i mod IPB)) in
     d_type d = i_type i \<and> d_major d = i_major i \<and> d_minor d = i_minor i \<and> d_nlink d = i_nlink i \<and> d_size d = i_size i
     \<and> (\<forall>j\<le>NDIRECT. d_addrs d j = i_addrs i j))"

lemma iblock_apart:
  assumes w: "file_wf sb V i" and ok: "fs_ok dsz sb V"
  shows "IBLOCK (i_inum i) sb \<in> inode_blocks sb" "IBLOCK (i_inum i) sb \<notin> bitmap_blocks sb" "IBLOCK (i_inum i) sb \<notin> free_blocks sb V"
    "IBLOCK (i_inum i) sb \<notin> fptrs V i"
proof -
  show a: "IBLOCK (i_inum i) sb \<in> inode_blocks sb" using w by (auto simp: inode_blocks_def file_wf_def)
  show "IBLOCK (i_inum i) sb \<notin> bitmap_blocks sb" "IBLOCK (i_inum i) sb \<notin> free_blocks sb V" using a ok by (auto simp: fs_ok_def)
  show "IBLOCK (i_inum i) sb \<notin> fptrs V i" using a w by (auto simp: fptrs_def file_wf_def data_block_def)
qed

text \<open>Writing the inode's own block disturbs neither the file nor the free map.\<close>

lemma inode_write:
  assumes w: "file_wf sb V i" and ok: "fs_ok dsz sb V"
  defines "b \<equiv> IBLOCK (i_inum i) sb"
  shows "j \<le> MAXFILE \<Longrightarrow> ptr (V(b := d)) i j = ptr V i j" "free_blocks sb (V(b := d)) = free_blocks sb V" "fs_ok dsz' sb (V(b := d)) = fs_ok dsz' sb V"
    "file_wf sb (V(b := d)) i" "x < MAXSIZE \<Longrightarrow> ptr V i (x div BSIZE) \<noteq> 0 \<Longrightarrow> fbyte (V(b := d)) i x = fbyte V i x"
proof -
  note a = iblock_apart [OF w ok, folded b_def]
  have "i_addrs i NDIRECT \<noteq> 0 \<Longrightarrow> i_addrs i NDIRECT \<noteq> b" using a(4) ptr_indirect [of V i] by (force simp: fptrs_def)
  then show p: "ptr (V(b := d)) i j = ptr V i j" if "j \<le> MAXFILE" for j by (simp add: ptr_def)
  show f: "free_blocks sb (V(b := d)) = free_blocks sb V" by (rule free_blocks_other [OF a(2)])
  show "fs_ok dsz' sb (V(b := d)) = fs_ok dsz' sb V" by (simp add: fs_ok_def f)
  have "used sb (V(b := d)) c = used sb V c" if "c < sb_size sb" for c using used_other [OF a(2) that] .
  then show "file_wf sb (V(b := d)) i" using w p by (auto simp: file_wf_def data_block_def)
  show "fbyte (V(b := d)) i x = fbyte V i x" if "x < MAXSIZE" "ptr V i (x div BSIZE) \<noteq> 0"
  proof -
    have "x div BSIZE < MAXFILE" using that(1) by auto
    then have "ptr V i (x div BSIZE) \<noteq> b" using a(4) that(2) by (force simp: fptrs_def)
    then show ?thesis using p [of "x div BSIZE"] \<open>x div BSIZE < MAXFILE\<close> by (simp add: fbyte_def)
  qed
qed

text \<open>
  What \<^verbatim>\<open>writei\<close> achieves: the bytes are in the file, the size covers them, the rest of the file and of
  the disk is as before, except for free blocks now taken, the free map and this inode.
\<close>

definition written :: "nat \<Rightarrow> nat \<Rightarrow> nat \<Rightarrow> nat \<Rightarrow> (nat \<Rightarrow> uchar) \<Rightarrow> 'a fs_state_scheme \<Rightarrow> (uint \<Rightarrow> block) \<Rightarrow> uint set
    \<Rightarrow> 'a fs_state_scheme \<Rightarrow> (uint \<Rightarrow> block) \<Rightarrow> uint set \<Rightarrow> bool" where
  "written C ip off n src s V L t V' L' \<longleftrightarrow> (let sb = fs_sb s; i = icache s ip; i' = icache t ip in
     file_ok t V' C L' ip \<and> synced sb V' i' \<and> unat (i_size i') = (if n = 0 then unat (i_size i) else max (unat (i_size i)) (off + n))
     \<and> (\<forall>x. off \<le> x \<and> x < off + n \<longrightarrow> fbyte V' i' x = src (x - off))
     \<and> (\<forall>x<unat (i_size i). \<not> (off \<le> x \<and> x < off + n) \<longrightarrow> fbyte V' i' x = fbyte V i x)
     \<and> (\<forall>b. b \<notin> bitmap_blocks sb \<union> free_blocks sb V \<union> fptrs V i \<union> {IBLOCK (i_inum i) sb} \<longrightarrow> V' b = V b)
     \<and> (\<forall>m. m \<noteq> unat (i_inum i mod IPB) \<longrightarrow> (\<forall>a. (get_dinode (V' (IBLOCK (i_inum i) sb)) m)\<lparr>d_addrs := a\<rparr> = (get_dinode (V (IBLOCK (i_inum i) sb)) m)\<lparr>d_addrs := a\<rparr>)
          \<and> (\<forall>j\<le>NDIRECT. d_addrs (get_dinode (V' (IBLOCK (i_inum i) sb)) m) j = d_addrs (get_dinode (V (IBLOCK (i_inum i) sb)) m) j))
     \<and> L' \<subseteq> L \<union> bitmap_blocks sb \<union> inode_blocks sb \<union> {b. data_block sb b}
     \<and> card (free_blocks sb V) + of_bool (i_addrs i' NDIRECT = 0) \<le> card (free_blocks sb V') + nblocks off n + of_bool (i_addrs i NDIRECT = 0)
     \<and> (\<exists>ad sz. tx_same (upd_inode ip (\<lambda>i. i\<lparr>i_addrs := ad, i_size := sz\<rparr>) s) t))"

text \<open>The size does not grow: the inode stays as it is.\<close>

lemma written_within:
  assumes f: "file_ok s V C L ip" and sy: "synced (fs_sb s) V (icache s ip)" and l: "off + n \<le> MAXSIZE"
    and w: "wrote_file C (nblocks off n) ip off n src s V L t V' L'" and sz: "n = 0 \<or> off + n \<le> unat (i_size (icache s ip))"
  shows "written C ip off n src s V L t V' L'"
proof -
  let ?sb = "fs_sb s" and ?i = "icache s ip" and ?i' = "icache t ip" and ?b = "IBLOCK (i_inum (icache s ip)) (fs_sb s)"
  note F = file_okD [OF f] and W = wrote_fileD [OF w] and g = grownD [OF wrote_fileD(2) [OF w]]
  have fs: "file_wf ?sb V ?i" "fs_ok (disksize s) ?sb V" using F(1) by (auto simp: fstate_def)
  have ad: "i_addrs ?i' = i_addrs ?i" using F(4) sz by (intro W(11)) auto
  obtain ad' where tx: "tx_same (upd_inode ip (\<lambda>i. i\<lparr>i_addrs := ad'\<rparr>) s) t" using W(2) by (auto simp: grown_def)
  have i': "?i' = ?i" using tx_same_fs(2) [OF tx] ad by simp
  have b: "V' ?b = V ?b" using iblock_apart [OF fs] by (intro W(7))
  have tx2: "tx_same (upd_inode ip (\<lambda>i. i\<lparr>i_addrs := ad', i_size := i_size ?i\<rparr>) s) t"
    using tx by (cases "icache s ip") (simp add: upd_inode_def)
  have pr: "ptr V' ?i (x div BSIZE) \<noteq> 0" if "x < unat (i_size ?i)" for x
    using W(8) [of x] W(9) [of x] F(4) [OF that] F(3) that unfolding i' by (cases "off \<le> x \<and> x < off + n") auto
  have "file_ok t V' C L' ip" using W(1) F(2,3) pr by (simp add: file_ok_def i')
  then show ?thesis
    unfolding written_def Let_def using W(4,7-10) sy b sz F(3,4) tx2 by (auto simp: i' synced_def)
qed

text \<open>The size grows: the inode is written back.\<close>

lemma written_grow:
  assumes f: "file_ok s V C L ip" and l: "off + n \<le> MAXSIZE" "off \<le> unat (i_size (icache s ip))"
    and w: "wrote_file C (nblocks off n) ip off n src s V L t V' L'" and sz: "unat sz = off + n" "unat (i_size (icache s ip)) < off + n"
    and i: "i' = (icache t ip)\<lparr>i_size := sz\<rparr>" "b = IBLOCK (i_inum (icache s ip)) (fs_sb s)"
      "V'' = V'(b := put_dinode (unat (i_inum (icache s ip) mod IPB)) (to_dinode i') (V' b))"
    and u: "fview u V'' [] C (insert b L')" "tx_same (upd_inode ip (\<lambda>i. i\<lparr>i_size := sz\<rparr>) t) u"
  shows "written C ip off n src s V L u V'' (insert b L')"
proof -
  let ?sb = "fs_sb s" and ?i = "icache s ip" and ?j = "icache t ip" and ?k = "unat (i_inum (icache s ip) mod IPB)"
  note F = file_okD [OF f] and W = wrote_fileD [OF w] and g = grownD [OF wrote_fileD(2) [OF w]]
  have fs: "file_wf ?sb V ?i" "fs_ok (disksize s) ?sb V" "file_wf ?sb V' ?j" "fs_ok (disksize s) ?sb V'"
    using F(1) W(1) g by (auto simp: fstate_def)
  have ib: "b = IBLOCK (i_inum ?j) ?sb" using i(2) g(4) by simp
  note ap = iblock_apart [OF fs(1,2), folded i(2)] and iw = inode_write [OF fs(3,4), folded ib]
  have iu: "icache u ip = i'" "fs_sb u = ?sb" "disksize u = disksize s" using tx_same_fs [OF u(2)] tx_sameD(4) [OF u(2)] g i(1) by simp_all
  have pi: "ptr X i' = ptr X ?j" "fbyte X i' = fbyte X ?j" for X by (simp_all add: i(1) ptr_def fbyte_def fun_eq_iff)
  have vb: "V' b = V b" using ap by (intro W(7)) auto
  have pr: "ptr V' ?j (x div BSIZE) \<noteq> 0" if "x < off + n" for x
    using W(8) [of x] W(9) [of x] F(4) [of x] l that by (cases "off \<le> x") auto
  have bys: "fbyte V'' ?j x = fbyte V' ?j x" "ptr V'' ?j (x div BSIZE) \<noteq> 0" if "x < off + n" for x
  proof -
    have x: "x < MAXSIZE" "x div BSIZE \<le> MAXFILE" using that l(1) by auto
    show "fbyte V'' ?j x = fbyte V' ?j x" using iw(5) [OF x(1) pr [OF that]] i(3) by simp
    show "ptr V'' ?j (x div BSIZE) \<noteq> 0" using iw(1) [OF x(2)] pr [OF that] i(3) by simp
  qed
  have st: "fstate u V'' C (insert b L') ip"
    using u(1) iw(3,4) fs(4) i(1) pi by (simp add: fstate_def iu i(3) file_wf_def)
  have ok: "file_ok u V'' C (insert b L') ip" using st F(2) g(6) sz l by (simp add: file_ok_def iu i(1)) (simp add: pi [unfolded i(1)] bys)
  have sy: "synced ?sb V'' i'" using i ib g(4) by (simp add: synced_def Let_def get_put_dinode) (simp add: to_dinode_def)
  have old: "fbyte V'' i' x = fbyte V ?i x" if "x < unat (i_size ?i)" "\<not> (off \<le> x \<and> x < off + n)" for x
    using that bys [of x] W(9) [of x] F(3,4) sz(2) by (simp add: pi)
  have new: "fbyte V'' i' x = src (x - off)" if "off \<le> x" "x < off + n" for x
    using that bys(1) [of x] W(8) [of x] by (simp add: pi)
  have fr: "V'' c = V c" if "c \<notin> bitmap_blocks ?sb" "c \<notin> free_blocks ?sb V" "c \<notin> fptrs V ?i" "c \<noteq> b" for c
    using W(7) [OF that(1-3)] that(4) i(3) by simp
  have ot: "(get_dinode (V'' b) m)\<lparr>d_addrs := a\<rparr> = (get_dinode (V b) m)\<lparr>d_addrs := a\<rparr>"
      "j \<le> NDIRECT \<Longrightarrow> d_addrs (get_dinode (V'' b) m) j = d_addrs (get_dinode (V b) m) j" if "m \<noteq> ?k" for m j a
    using get_put_dinode_other(2) [of ?k m] get_put_dinode_other(1) [of ?k m j] that by (simp_all add: i(3) vb)
  obtain ad where "tx_same (upd_inode ip (\<lambda>i. i\<lparr>i_addrs := ad\<rparr>) s) t" using W(2) by (auto simp: grown_def)
  from tx_same_upd_inode [OF this, of ip "\<lambda>i. i\<lparr>i_size := sz\<rparr>"]
  have "tx_same (upd_inode ip (\<lambda>i. i\<lparr>i_size := sz\<rparr>) (upd_inode ip (\<lambda>i. i\<lparr>i_addrs := ad\<rparr>) s)) u" using u(2) by (rule tx_same_trans)
  moreover have "upd_inode ip (\<lambda>i. i\<lparr>i_size := sz\<rparr>) (upd_inode ip (\<lambda>i. i\<lparr>i_addrs := ad\<rparr>) s) = upd_inode ip (\<lambda>i. i\<lparr>i_addrs := ad, i_size := sz\<rparr>) s"
    by (simp add: upd_inode_def)
  ultimately have tx: "\<exists>ad sz. tx_same (upd_inode ip (\<lambda>i. i\<lparr>i_addrs := ad, i_size := sz\<rparr>) s) u" by metis
  have l': "insert b L' \<subseteq> L \<union> bitmap_blocks ?sb \<union> inode_blocks ?sb \<union> {b. data_block ?sb b}" using W(10) ap(1) by blast
  show ?thesis unfolding written_def Let_def iu i(2) [symmetric]
    using ok sy sz l old new fr ot l' tx W(4) iw(2) by (simp add: i(1,3))
qed

lemma writei_spec:
  assumes f: "file_ok s V C L ip" and sy: "synced (fs_sb s) V (icache s ip)"
    and o: "off \<le> i_size (icache s ip)" "unat off + unat n \<le> MAXSIZE"
    and c: "n \<noteq> 0 \<Longrightarrow> pot (fs_sb s) L (icache s ip) + nblocks (unat off) (unat n) < C"
    and fr: "nblocks (unat off) (unat n) + of_bool (i_addrs (icache s ip) NDIRECT = 0) \<le> card (free_blocks (fs_sb s) V)"
  shows "returns (writei ip src off n s) (\<lambda>r t. r = int (unat n) \<and> (\<exists>V' L'. written C ip (unat off) (unat n) src s V L t V' L'))"
proof -
  note F = file_okD [OF f]
  let ?sz = "i_size (icache s ip)" and ?N = "nblocks (unat off) (unat n)"
  let ?tail = "\<lambda>s. andthen (if n > 0 \<and> off + n > i_size (icache s ip) then iupdate ip (upd_inode ip (\<lambda>i. i\<lparr>i_size := off + n\<rparr>) s) else Ret () s) (\<lambda>_ s. Ret (sint n) s)"
  have on: "unat (off + n) = unat off + unat n" using o(2) by (subst unat_add_lem [symmetric]) simp
  have guards: "\<not> off > ?sz" "\<not> off + n < off" "\<not> off + n > of_nat MAXSIZE"
    using o on by (auto simp: word_less_nat_alt word_le_nat_alt)
  have e: "writei ip src off n s = andthen (writei_loop ip src (unat off) (unat n) s) (\<lambda>_ s. ?tail s)"
    using F(2) guards by (simp add: writei_def Let_def)
  have n: "sint n = int (unat n)" using o(2) by (intro sint_small) simp
  have "returns (writei_loop ip src (unat off) (unat n) s) (\<lambda>_ t. \<exists>V' L'. wrote_file C ?N ip (unat off) (unat n) src s V L t V' L')"
    by (rule writei_loop_spec [OF F(1) o(2) _ fr]) (use c in \<open>auto simp: unat_gt_0\<close>)
  then show ?thesis unfolding e
  proof (rule returns_andthenI, elim exE)
    fix t V' L'
    assume w: "wrote_file C ?N ip (unat off) (unat n) src s V L t V' L'"
    note W = wrote_fileD [OF w] and g = grownD [OF wrote_fileD(2) [OF w]]
    show "returns (?tail t) (\<lambda>r t. r = int (unat n) \<and> (\<exists>V' L'. written C ip (unat off) (unat n) src s V L t V' L'))"
    proof (cases "n > 0 \<and> off + n > ?sz")
      case False
      then have "unat n = 0 \<or> unat off + unat n \<le> unat ?sz" using on by (auto simp: word_less_nat_alt)
      then have "written C ip (unat off) (unat n) src s V L t V' L'" by (rule written_within [OF f sy o(2) w])
      then show ?thesis using False g(5) n by auto
    next
      case True
      let ?t = "upd_inode ip (\<lambda>i. i\<lparr>i_size := off + n\<rparr>) t" and ?b = "IBLOCK (i_inum (icache s ip)) (fs_sb s)"
      let ?V = "V'(?b := put_dinode (unat (i_inum (icache s ip) mod IPB)) (to_dinode ((icache t ip)\<lparr>i_size := off + n\<rparr>)) (V' ?b))"
      have "card L' \<le> pot (fs_sb s) L' (icache t ip)" unfolding pot_def by (intro trans_le_add1 card_mono) auto
      then have cl: "card L' < C" using W(3) c True by (auto simp: word_neq_0_conv)
      have st: "fview t V' [] C L'" "fs_ok (disksize t) (fs_sb t) V'" "file_wf (fs_sb t) V' (icache t ip)" using W(1) by (auto simp: fstate_def)
      have "returns (iupdate ip ?t) (\<lambda>_ u. fview u ?V [] C (insert ?b L') \<and> tx_same ?t u)"
        using iupdate_fview [of ?t V' "[]" C L' ip] st cl g by (simp add: file_wf_def)
      then have "returns (iupdate ip ?t) (\<lambda>_ u. written C ip (unat off) (unat n) src s V L u ?V (insert ?b L'))"
        by (rule returns_mono) (rule written_grow [OF f o(2) _ w, of "off + n"], use o(1) on True in \<open>auto simp: word_less_nat_alt word_le_nat_alt\<close>)
      then show ?thesis using True g(5) n by (auto elim!: returns_mono)
    qed
  qed
qed

section \<open>A fresh file system\<close>

text \<open>
  The layout \<^verbatim>\<open>mkfs\<close> gives a disk of 1000 blocks: a log of 30 blocks at 2, 26 blocks of inodes at 32, the
  free map in block 58, data from block 59. Inode 2 is an empty file.
\<close>

definition fresh_sb :: superblock where
  "fresh_sb = \<lparr>sb_size = 1000, sb_nblocks = 941, sb_ninodes = 200, sb_nlog = 30, sb_logstart = 2, sb_inodestart = 32, sb_bmapstart = 58\<rparr>"

definition fresh_inode :: inode where
  "fresh_inode = \<lparr>i_dev = 1, i_inum = 2, i_ref = 1, i_flags = I_VALID, i_type = T_FILE, i_major = 0, i_minor = 0, i_nlink = 1, i_size = 0, i_addrs = (\<lambda>_. 0)\<rparr>"

definition fresh_map :: block where
  "fresh_map i = (if i < 7 then 255 else if i = 7 then 7 else 0)"

definition fresh_disk :: "nat \<Rightarrow> block" where
  "fresh_disk n = (if n = 58 then fresh_map else if n = 32 then put_dinode 2 (to_dinode fresh_inode) (\<lambda>_. 0)
     else if n = 1 then store32 0 1000 (store32 4 941 (store32 8 200 (store32 12 30 (store32 16 2 (store32 20 32 (store32 24 58 (\<lambda>_. 0))))))) else (\<lambda>_. 0))"

definition fresh_fs :: file_state where
  "fresh_fs = (undefined :: file_state)\<lparr>held := {}, bufs := (\<lambda>_. zero_buf), disk := fresh_disk, disksize := 1000, lg_start := 2, lg_size := 30,
     lg_outstanding := 0, lg_committing := False, lg_dev := 1, lh_n := 0, fs_sb := fresh_sb, icache := (\<lambda>_. fresh_inode),
     ftable := (\<lambda>_. (undefined :: kfile)\<lparr>f_type := FD_INODE, f_ip := 0, f_off := 0, f_readable := True, f_writable := True\<rparr>)\<rparr>"

definition fresh_view :: "uint \<Rightarrow> block" where
  "fresh_view n = fresh_disk (unat n)"

lemma fresh_map_get: "bm_get fresh_map j \<longleftrightarrow> j < 59"
proof -
  have b: "bit (255 :: uchar) (j mod 8)" "bit (7 :: uchar) (j mod 8) \<longleftrightarrow> j mod 8 < 3"
  proof -
    have m: "(255 :: uchar) = mask 8" "(7 :: uchar) = mask 3" by (simp_all add: mask_eq_exp_minus_1)
    show "bit (255 :: uchar) (j mod 8)" unfolding m bit_mask_iff by simp
    show "bit (7 :: uchar) (j mod 8) \<longleftrightarrow> j mod 8 < 3" unfolding m bit_mask_iff by simp
  qed
  have "j = 8 * (j div 8) + j mod 8" by simp
  then have "j div 8 < 7 \<longleftrightarrow> j < 56" "j div 8 = 7 \<Longrightarrow> j = 56 + j mod 8" "7 < j div 8 \<Longrightarrow> 64 \<le> j" by linarith+
  then show ?thesis using b by (cases "j div 8" "7 :: nat" rule: linorder_cases) (auto simp: bm_get_bit fresh_map_def)
qed

lemma fresh_meta: "bitmap_blocks fresh_sb = {58}" "inode_blocks fresh_sb \<subseteq> {32..<58}"
proof -
  have "b div 4096 = 0" if "b < 1000" for b :: uint
    using that by (simp add: word_unat_eq_iff unat_div word_less_nat_alt)
  then have "BBLOCK b fresh_sb = 58" if "b < 1000" for b using that by (simp add: BBLOCK_def fresh_sb_def)
  moreover have "(0 :: uint) < 1000" by simp
  ultimately show "bitmap_blocks fresh_sb = {58}" by (auto simp: bitmap_blocks_def fresh_sb_def intro!: image_eqI [of _ _ 0])
  have "32 \<le> i div 8 + 32 \<and> i div 8 + 32 < 58" if "i < 200" for i :: uint
  proof -
    have "unat (i div 8) < 26" using that by (simp add: unat_div word_less_nat_alt)
    then have "unat (i div 8 + 32) = unat (i div 8) + 32" by (subst unat_add_lem [THEN iffD1]) auto
    then show ?thesis using \<open>unat (i div 8) < 26\<close> by (simp add: word_less_nat_alt word_le_nat_alt)
  qed
  then show "inode_blocks fresh_sb \<subseteq> {32..<58}" by (auto simp: inode_blocks_def IBLOCK_def fresh_sb_def)
qed

lemma fresh_free: "free_blocks fresh_sb fresh_view = {59..<1000}"
proof -
  have "used fresh_sb fresh_view b \<longleftrightarrow> b < 59" if "b < 1000" for b
  proof -
    have "BBLOCK b fresh_sb \<in> bitmap_blocks fresh_sb" using that by (auto simp: bitmap_blocks_def fresh_sb_def)
    then have "BBLOCK b fresh_sb = 58" by (simp add: fresh_meta)
    moreover have "unat b mod BPB = unat b" using that by (simp add: word_less_nat_alt)
    ultimately show ?thesis by (simp add: used_def fresh_view_def fresh_disk_def fresh_map_get word_less_nat_alt)
  qed
  then show ?thesis by (auto simp: free_blocks_def fresh_sb_def not_less)
qed

lemma fresh_ok: "fs_ok 1000 fresh_sb fresh_view" "file_wf fresh_sb fresh_view fresh_inode" "synced fresh_sb fresh_view fresh_inode"
proof -
  have "b < 1000 \<and> b \<notin> {59..<1000} \<and> b \<noteq> 58" if "b \<in> inode_blocks fresh_sb" for b
  proof -
    have "b < 58" using that fresh_meta(2) by auto
    then show ?thesis by (auto simp: word_less_nat_alt word_le_nat_alt)
  qed
  moreover have "(0 :: uint) \<notin> {59..<1000}" "(1 :: uint) \<notin> {59..<1000}" "(58 :: uint) < 1000" "(58 :: uint) \<notin> {59..<1000}" by (simp_all add: word_le_nat_alt)
  moreover have "b \<notin> {59..<1000}" if "b \<in> log_area fresh_sb" for b
    using that by (auto simp: log_area_def fresh_sb_def word_less_nat_alt word_le_nat_alt)
  moreover have "sb_size fresh_sb \<le> 1000" by (simp add: fresh_sb_def)
  ultimately show "fs_ok 1000 fresh_sb fresh_view" unfolding fs_ok_def fresh_free fresh_meta(1) by blast
  have "ptr fresh_view fresh_inode k = 0" for k by (simp add: ptr_def fresh_inode_def)
  then show "file_wf fresh_sb fresh_view fresh_inode" by (simp add: file_wf_def) (simp add: fresh_inode_def fresh_sb_def)
  have "IBLOCK 2 fresh_sb = 32" "(2 :: uint) mod 8 = 2" by (simp_all add: IBLOCK_def fresh_sb_def)
  then show "synced fresh_sb fresh_view fresh_inode"
    by (simp add: synced_def Let_def fresh_view_def fresh_disk_def get_put_dinode fresh_inode_def to_dinode_def)
qed

text \<open>The machine after boot, and inside a transaction.\<close>

definition booted :: file_state where
  "booted = binit fresh_fs"

lemma booted_same: "rest_same fresh_fs booted"
  using binit_bview [of fresh_fs] by (simp add: booted_def fresh_fs_def zero_buf_def)

lemma booted_fields:
  "held booted = {}" "disk booted = fresh_disk" "disksize booted = 1000" "lg_start booted = 2" "lg_size booted = 30" "lg_outstanding booted = 0"
  "\<not> lg_committing booted" "lg_dev booted = 1" "lh_n booted = 0" "fs_sb booted = fresh_sb" "icache booted ip = fresh_inode" "ftable booted = ftable fresh_fs"
proof -
  obtain B P where e: "booted = fresh_fs\<lparr>bufs := B, ptable := P\<rparr>" using booted_same by (auto simp: rest_same_def)
  show "held booted = {}" "disk booted = fresh_disk" "disksize booted = 1000" "lg_start booted = 2" "lg_size booted = 30" "lg_outstanding booted = 0"
    "\<not> lg_committing booted" "lg_dev booted = 1" "lh_n booted = 0" "fs_sb booted = fresh_sb" "icache booted ip = fresh_inode" "ftable booted = ftable fresh_fs"
    unfolding e by (simp_all add: fresh_fs_def)
qed

lemma booted_idle: "idle booted fresh_view"
proof -
  have "bview booted (\<lambda>n. disk fresh_fs (unat n)) [] {}" using binit_bview [of fresh_fs] by (simp add: booted_def fresh_fs_def zero_buf_def)
  moreover have "(\<lambda>n. disk fresh_fs (unat n)) = fresh_view" by (simp add: fresh_fs_def fresh_view_def fun_eq_iff)
  moreover have "fresh_disk 2 = (\<lambda>_. 0)" by (simp add: fresh_disk_def)
  ultimately show ?thesis by (simp add: idle_def log_placed_def booted_fields load_zero)
qed

definition in_call :: file_state where
  "in_call = booted\<lparr>lg_outstanding := 1\<rparr>"

lemma in_call_fview: "fview in_call fresh_view [] 29 {}"
proof (rule fviewI)
  show "tview in_call fresh_view [] 29 {}" using begin_op_idle [OF booted_idle] by (auto simp: returns_def in_call_def)
  show "int 29 \<le> lg_size in_call - 1" by (simp add: in_call_def booted_fields)
qed simp_all

lemma in_call_fields: "fs_sb in_call = fresh_sb" "icache in_call ip = fresh_inode" "disksize in_call = 1000"
  by (simp_all add: in_call_def booted_fields)

lemma in_call_file: "file_ok in_call fresh_view 29 {} 0"
  using in_call_fview fresh_ok by (simp add: file_ok_def fstate_def in_call_fields) (simp add: fresh_inode_def)

lemma in_call_room: "pot fresh_sb {} fresh_inode = 2" "card (free_blocks fresh_sb fresh_view) = 941"
proof -
  show "pot fresh_sb {} fresh_inode = 2" by (simp add: pot_def fresh_meta(1)) (simp add: fresh_inode_def)
  have "(unat :: uint \<Rightarrow> nat) ` {59..<1000} = {59..<1000}"
  proof (intro equalityI subsetI)
    fix x assume "x \<in> {59..<1000 :: nat}"
    then show "x \<in> unat ` {59..<1000 :: uint}"
      by (intro image_eqI [of _ _ "of_nat x"]) (auto simp: word_less_nat_alt word_le_nat_alt unat_of_nat take_bit_nat_eq_self)
  qed (auto simp: word_less_nat_alt word_le_nat_alt)
  moreover have "inj_on unat A" for A :: "uint set" by (auto intro!: inj_onI simp: word_unat_eq_iff)
  ultimately show "card (free_blocks fresh_sb fresh_view) = 941" unfolding fresh_free using card_image [of unat "{59..<1000 :: uint}"] by simp
qed

section \<open>Properties\<close>

text \<open>
  \<^bold>\<open>C21.\<close> \<^verbatim>\<open>balloc\<close> takes the lowest-numbered free block. In a transaction with room for two more blocks,
  \<^verbatim>\<open>balloc\<close> panics if no block is free; otherwise it returns the lowest free block, zeroed and marked in
  use, and every other block outside the free map keeps its contents.
\<close>
theorem balloc_lowest_free:
  assumes "ready_alloc s V H C L"
  shows "if free_blocks (fs_sb s) V = {} then balloc 1 s = Panic ''balloc: out of blocks''
    else returns (balloc 1 s) (\<lambda>b t. b \<in> free_blocks (fs_sb s) V \<and> (\<forall>m\<in>free_blocks (fs_sb s) V. b \<le> m)
      \<and> (\<exists>V' L'. fview t V' H C L' \<and> free_blocks (fs_sb s) V' = free_blocks (fs_sb s) V - {b} \<and> (\<forall>x<BSIZE. V' b x = 0)
        \<and> (\<forall>n. n \<noteq> b \<longrightarrow> n \<notin> bitmap_blocks (fs_sb s) \<longrightarrow> V' n = V n)) \<and> tx_same s t)"
proof (cases "free_blocks (fs_sb s) V = {}")
  case True
  then show ?thesis using balloc_exhausted [OF assms] by simp
next
  case False
  define b where "b = Min (free_blocks (fs_sb s) V)"
  have b: "b \<in> free_blocks (fs_sb s) V" "\<And>m. m \<in> free_blocks (fs_sb s) V \<Longrightarrow> b \<le> m" using False by (simp_all add: b_def)
  have ok: "fs_ok (disksize s) (fs_sb s) V" using assms by (simp add: ready_alloc_def)
  let ?V = "alloc_view (fs_sb s) b V"
  have r: "returns (balloc 1 s) (\<lambda>r t. r = b \<and> fview t ?V H C ({b, BBLOCK b (fs_sb s)} \<union> L) \<and> tx_same s t)" by (rule balloc_fview [OF assms b])
  have bb: "BBLOCK b (fs_sb s) \<in> bitmap_blocks (fs_sb s)" "b \<notin> bitmap_blocks (fs_sb s)"
    using b(1) ok by (auto simp: free_blocks_def bitmap_blocks_def fs_ok_def)
  then have "?V b = zeroed (V b)" by (intro alloc_view_zeroed) auto
  then have "\<forall>x<BSIZE. ?V b x = 0" by (simp add: zeroed_def)
  moreover have "\<forall>n. n \<noteq> b \<longrightarrow> n \<notin> bitmap_blocks (fs_sb s) \<longrightarrow> ?V n = V n" using bb(1) by (auto intro!: alloc_view_other)
  moreover note free_alloc_view(1) [OF ok b(1)]
  ultimately have "returns (balloc 1 s) (\<lambda>r t. r \<in> free_blocks (fs_sb s) V \<and> (\<forall>m\<in>free_blocks (fs_sb s) V. r \<le> m)
      \<and> (\<exists>V' L'. fview t V' H C L' \<and> free_blocks (fs_sb s) V' = free_blocks (fs_sb s) V - {r} \<and> (\<forall>x<BSIZE. V' r x = 0)
        \<and> (\<forall>n. n \<noteq> r \<longrightarrow> n \<notin> bitmap_blocks (fs_sb s) \<longrightarrow> V' n = V n)) \<and> tx_same s t)"
    using b by (intro returns_mono [OF r]) (elim conjE, hypsubst, blast)
  then show ?thesis using False by simp
qed

theorem balloc_lowest_free_witness:
  "returns (balloc 1 in_call) (\<lambda>b t. b = 59)"
proof -
  have "ready_alloc in_call fresh_view [] 29 {}" using in_call_fview fresh_ok(1) by (simp add: ready_alloc_def in_call_fields fresh_meta(1))
  from balloc_lowest_free [OF this] show ?thesis
    unfolding in_call_fields fresh_free by (auto split: if_splits elim!: returns_mono intro!: antisym)
qed

text \<open>
  \<^bold>\<open>C3.\<close> \<^verbatim>\<open>writei\<close> and \<^verbatim>\<open>readi\<close> agree. For a regular file and a range that starts within it and ends below
  the largest file size, with enough free blocks and room in the log for the blocks touched, the
  free map, the indirect block and the inode: \<^verbatim>\<open>writei\<close> returns the number of bytes; the file is then
  as long as needed, the bytes written are the source's, all others are unchanged, and no block of
  another file changes; and \<^verbatim>\<open>readi\<close> of the same range returns exactly the bytes written.
\<close>
theorem writei_readi:
  assumes "file_ok s V C L ip" "synced (fs_sb s) V (icache s ip)" "off \<le> i_size (icache s ip)" "unat off + unat n \<le> MAXSIZE" "0 < n"
    "pot (fs_sb s) L (icache s ip) + nblocks (unat off) (unat n) < C"
    "nblocks (unat off) (unat n) + of_bool (i_addrs (icache s ip) NDIRECT = 0) \<le> card (free_blocks (fs_sb s) V)"
  shows "returns (writei ip src off n s) (\<lambda>r t. r = int (unat n)
    \<and> (\<exists>V' L'. file_ok t V' C L' ip \<and> synced (fs_sb s) V' (icache t ip)
        \<and> unat (i_size (icache t ip)) = max (unat (i_size (icache s ip))) (unat off + unat n)
        \<and> (\<forall>x<unat (i_size (icache s ip)). \<not> (unat off \<le> x \<and> x < unat off + unat n) \<longrightarrow> fbyte V' (icache t ip) x = fbyte V (icache s ip) x)
        \<and> (\<forall>b. b \<notin> bitmap_blocks (fs_sb s) \<union> free_blocks (fs_sb s) V \<union> fptrs V (icache s ip) \<union> {IBLOCK (i_inum (icache s ip)) (fs_sb s)} \<longrightarrow> V' b = V b))
    \<and> returns (readi ip off n t) (\<lambda>(r', bs) _. r' = int (unat n) \<and> bs = map src [0..<unat n]))"
proof -
  have "returns (writei ip src off n s) (\<lambda>r t. r = int (unat n) \<and> (\<exists>V' L'. written C ip (unat off) (unat n) src s V L t V' L'))"
    by (rule writei_spec) (use assms in auto)
  moreover have n0: "unat n \<noteq> 0" using assms(5) by (simp add: word_less_nat_alt)
  ultimately show ?thesis
  proof (elim returns_mono, elim conjE exE, intro conjI)
    fix r t V' L'
    assume w: "written C ip (unat off) (unat n) src s V L t V' L'" and r: "r = int (unat n)"
    have W: "file_ok t V' C L' ip" "synced (fs_sb s) V' (icache t ip)" "unat (i_size (icache t ip)) = max (unat (i_size (icache s ip))) (unat off + unat n)"
      "\<And>x. unat off \<le> x \<Longrightarrow> x < unat off + unat n \<Longrightarrow> fbyte V' (icache t ip) x = src (x - unat off)"
      "\<forall>x<unat (i_size (icache s ip)). \<not> (unat off \<le> x \<and> x < unat off + unat n) \<longrightarrow> fbyte V' (icache t ip) x = fbyte V (icache s ip) x"
      "\<forall>b. b \<notin> bitmap_blocks (fs_sb s) \<union> free_blocks (fs_sb s) V \<union> fptrs V (icache s ip) \<union> {IBLOCK (i_inum (icache s ip)) (fs_sb s)} \<longrightarrow> V' b = V b"
      using w n0 unfolding written_def Let_def by simp_all
    show "r = int (unat n)" by (rule r)
    show "\<exists>V' L'. file_ok t V' C L' ip \<and> synced (fs_sb s) V' (icache t ip)
        \<and> unat (i_size (icache t ip)) = max (unat (i_size (icache s ip))) (unat off + unat n)
        \<and> (\<forall>x<unat (i_size (icache s ip)). \<not> (unat off \<le> x \<and> x < unat off + unat n) \<longrightarrow> fbyte V' (icache t ip) x = fbyte V (icache s ip) x)
        \<and> (\<forall>b. b \<notin> bitmap_blocks (fs_sb s) \<union> free_blocks (fs_sb s) V \<union> fptrs V (icache s ip) \<union> {IBLOCK (i_inum (icache s ip)) (fs_sb s)} \<longrightarrow> V' b = V b)"
      using W(1-3,5,6) by blast
    have o: "off \<le> i_size (icache t ip)" "unat off + unat n < 2 ^ 32" "min (unat n) (unat (i_size (icache t ip)) - unat off) = unat n"
      using W(3) assms(4) by (auto simp: word_le_nat_alt)
    have "map (fbyte V' (icache t ip)) [unat off..<unat off + unat n] = map src [0..<unat n]"
      using W(4) by (intro nth_equalityI) auto
    then show "returns (readi ip off n t) (\<lambda>(r', bs) _. r' = int (unat n) \<and> bs = map src [0..<unat n])"
      using readi_spec [OF W(1) o(1,2)] unfolding o(3) by (auto elim!: returns_mono)
  qed
qed

theorem writei_readi_witness:
  "returns (writei 0 (\<lambda>i. of_nat i) 0 1500 in_call) (\<lambda>r t. r = 1500
     \<and> returns (readi 0 0 1500 t) (\<lambda>(r', bs) _. r' = 1500 \<and> bs = map (\<lambda>i. of_nat i) [0..<1500]))"
proof -
  have s: "nblocks 0 1500 = 3" by (simp add: nblocks_def)
  have z: "i_size fresh_inode = 0" by (simp add: fresh_inode_def)
  have "returns (writei 0 (\<lambda>i. of_nat i) 0 1500 in_call) (\<lambda>r t. r = int (unat (1500 :: uint))
    \<and> (\<exists>V' L'. file_ok t V' 29 L' 0 \<and> synced (fs_sb in_call) V' (icache t 0)
        \<and> unat (i_size (icache t 0)) = max (unat (i_size (icache in_call 0))) (unat (0 :: uint) + unat (1500 :: uint))
        \<and> (\<forall>x<unat (i_size (icache in_call 0)). \<not> (unat (0 :: uint) \<le> x \<and> x < unat (0 :: uint) + unat (1500 :: uint)) \<longrightarrow> fbyte V' (icache t 0) x = fbyte fresh_view (icache in_call 0) x)
        \<and> (\<forall>b. b \<notin> bitmap_blocks (fs_sb in_call) \<union> free_blocks (fs_sb in_call) fresh_view \<union> fptrs fresh_view (icache in_call 0) \<union> {IBLOCK (i_inum (icache in_call 0)) (fs_sb in_call)} \<longrightarrow> V' b = fresh_view b))
    \<and> returns (readi 0 0 1500 t) (\<lambda>(r', bs) _. r' = int (unat (1500 :: uint)) \<and> bs = map (\<lambda>i. of_nat i) [0..<unat (1500 :: uint)]))"
    by (rule writei_readi [OF in_call_file]) (simp_all add: in_call_fields in_call_room fresh_ok s z)
  then show ?thesis by (rule returns_mono) simp
qed

lemma I_flags [simp]: "(0 :: uint) OR 1 = 1" "(1 :: uint) AND 2 = 0" "(1 :: uint) OR 2 = 3"
  by simp_all

text \<open>Locking a cache entry that was just recycled reads the inode from disk.\<close>

lemma ilock_loads:
  assumes v: "fview s V [] C L" and j: "i_dev (icache s jp) = 1" "i_inum (icache s jp) < sb_ninodes (fs_sb s)" "i_flags (icache s jp) = 0" "1 \<le> i_ref (icache s jp)"
    and ok: "fs_ok (disksize s) (fs_sb s) V" and lk: "LkIcache \<notin> held s"
  defines "d \<equiv> get_dinode (V (IBLOCK (i_inum (icache s jp)) (fs_sb s))) (unat (i_inum (icache s jp) mod IPB))"
  assumes ty: "d_type d \<noteq> 0"
  shows "returns (ilock jp s) (\<lambda>_ t. icache t jp = (load_inode d (icache s jp))\<lparr>i_flags := 3\<rparr> \<and> fview t V [] C L)"
proof -
  let ?n = "IBLOCK (i_inum (icache s jp)) (fs_sb s)"
  let ?s = "upd_inode jp (\<lambda>i. i\<lparr>i_flags := 1\<rparr>) s"
  have "?n \<in> inode_blocks (fs_sb s)" using j(2) by (auto simp: inode_blocks_def)
  then have n: "?n < disksize s" using ok by (auto simp: fs_ok_def)
  have e: "ilock jp s = andthen (bread 1 ?n ?s) (\<lambda>bp s. let d = get_dinode (b_data (bufs s bp)) (unat (i_inum (icache s jp) mod IPB)) in
          andthen (brelse bp (upd_inode jp (load_inode d) s)) (\<lambda>_ s.
          let s = upd_inode jp (\<lambda>i. i\<lparr>i_flags := i_flags i OR I_VALID\<rparr>) s in
          if i_type (icache s jp) = 0 then Panic ''ilock: no type'' else Ret () s))"
    using j lk by (simp add: ilock_def ilock_loop_def upd_inode_def)
  have "returns (bread 1 ?n ?s) (\<lambda>b t. fview t V [(b, ?n)] C L \<and> tx_same ?s t)"
    using bx.read_law [of ?s V "[]" C L ?n] v n fview_card [OF v] by simp
  then show ?thesis unfolding e
  proof (rule returns_andthenI, elim conjE)
    fix b t
    assume t: "fview t V [(b, ?n)] C L" "tx_same ?s t"
    have it: "icache t jp = (icache s jp)\<lparr>i_flags := 1\<rparr>" using tx_same_fs(2) [OF t(2)] by simp
    have da: "b_data (bufs t b) = V ?n" using bx.get_law [OF t(1)] by simp
    let ?t = "upd_inode jp (load_inode d) t"
    have "returns (brelse b ?t) (\<lambda>_ u. fview u V [] C L \<and> tx_same ?t u)" using bx.rel_law [of ?t V b ?n "[]" C L] t(1) by simp
    then have "returns (andthen (brelse b ?t) (\<lambda>_ s. let s = upd_inode jp (\<lambda>i. i\<lparr>i_flags := i_flags i OR I_VALID\<rparr>) s in
          if i_type (icache s jp) = 0 then Panic ''ilock: no type'' else Ret () s))
        (\<lambda>_ t. icache t jp = (load_inode d (icache s jp))\<lparr>i_flags := 3\<rparr> \<and> fview t V [] C L)"
    proof (rule returns_andthenI, elim conjE)
      fix u
      assume u: "fview u V [] C L" "tx_same ?t u"
      have "icache u jp = load_inode d ((icache s jp)\<lparr>i_flags := 1\<rparr>)" using tx_same_fs(2) [OF u(2)] it by simp
      then show "returns (let s = upd_inode jp (\<lambda>i. i\<lparr>i_flags := i_flags i OR I_VALID\<rparr>) u in
          if i_type (icache s jp) = 0 then Panic ''ilock: no type'' else Ret () s)
        (\<lambda>_ t. icache t jp = (load_inode d (icache s jp))\<lparr>i_flags := 3\<rparr> \<and> fview t V [] C L)"
        using ty u(1) by (simp add: Let_def load_inode_def cong: if_cong)
    qed
    then show "returns (let d = get_dinode (b_data (bufs t b)) (unat (i_inum (icache t jp) mod IPB)) in
          andthen (brelse b (upd_inode jp (load_inode d) t)) (\<lambda>_ s.
          let s = upd_inode jp (\<lambda>i. i\<lparr>i_flags := i_flags i OR I_VALID\<rparr>) s in
          if i_type (icache s jp) = 0 then Panic ''ilock: no type'' else Ret () s))
        (\<lambda>_ t. icache t jp = (load_inode d (icache s jp))\<lparr>i_flags := 3\<rparr> \<and> fview t V [] C L)"
      unfolding da it Let_def d_def by simp
  qed
qed

text \<open>
  \<^bold>\<open>C22.\<close> Inodes survive the cache. After \<^verbatim>\<open>iupdate\<close> has written a cached inode of nonzero type back, a cache
  entry recycled for the same inode number gets, through \<^verbatim>\<open>ilock\<close>, the same type, device numbers, link
  count, size and block addresses.
\<close>
theorem iupdate_ilock_roundtrip:
  assumes "fview s V [] C L" "fs_ok (disksize s) (fs_sb s) V" "card L < C" "LkIcache \<notin> held s"
    and i: "i = icache s ip" "i_dev i = 1" "i_inum i < sb_ninodes (fs_sb s)" "i_type i \<noteq> 0"
    and j: "i_dev j = 1" "i_inum j = i_inum i" "i_flags j = 0" "1 \<le> i_ref j"
  shows "returns (iupdate ip s) (\<lambda>_ t. returns (ilock jp (upd_inode jp (\<lambda>_. j) t)) (\<lambda>_ u. let k = icache u jp in
     i_dev k = 1 \<and> i_inum k = i_inum i \<and> i_flags k = I_BUSY OR I_VALID \<and> i_type k = i_type i \<and> i_major k = i_major i \<and> i_minor k = i_minor i
     \<and> i_nlink k = i_nlink i \<and> i_size k = i_size i \<and> (\<forall>a\<le>NDIRECT. i_addrs k a = i_addrs i a)))"
proof -
  let ?n = "IBLOCK (i_inum i) (fs_sb s)" and ?k = "unat (i_inum i mod IPB)"
  let ?V = "V(?n := put_dinode ?k (to_dinode i) (V ?n))"
  have "returns (iupdate ip s) (\<lambda>_ t. fview t ?V [] C (insert ?n L) \<and> tx_same s t)"
    using iupdate_fview [OF assms(1), of ip] assms by simp
  then show ?thesis
  proof (rule returns_mono, elim conjE)
    fix t
    assume t: "fview t ?V [] C (insert ?n L)" "tx_same s t"
    let ?t = "upd_inode jp (\<lambda>_. j) t"
    have nb: "?n \<notin> bitmap_blocks (fs_sb s)" using assms(2) i(3) by (auto simp: fs_ok_def inode_blocks_def)
    have f: "free_blocks (fs_sb s) ?V = free_blocks (fs_sb s) V" by (rule free_blocks_other [OF nb])
    have ok: "fs_ok (disksize s) (fs_sb s) ?V" using assms(2) by (simp add: fs_ok_def f)
    note same = tx_same_fs [OF t(2)] tx_sameD(1,4) [OF t(2)]
    have "returns (ilock jp ?t) (\<lambda>_ u. icache u jp = (load_inode (get_dinode (?V ?n) ?k) j)\<lparr>i_flags := 3\<rparr> \<and> fview u ?V [] C (insert ?n L))"
      using ilock_loads [of ?t ?V C "insert ?n L" jp] t(1) j i ok assms(4) by (simp add: same get_put_dinode to_dinode_def)
    then show "returns (ilock jp ?t) (\<lambda>_ u. let k = icache u jp in
       i_dev k = 1 \<and> i_inum k = i_inum i \<and> i_flags k = I_BUSY OR I_VALID \<and> i_type k = i_type i \<and> i_major k = i_major i \<and> i_minor k = i_minor i
       \<and> i_nlink k = i_nlink i \<and> i_size k = i_size i \<and> (\<forall>a\<le>NDIRECT. i_addrs k a = i_addrs i a))"
      by (rule returns_mono) (use j in \<open>simp add: Let_def load_inode_def get_put_dinode\<close>, simp add: to_dinode_def)
  qed
qed

theorem iupdate_ilock_roundtrip_witness:
  "returns (iupdate 0 in_call) (\<lambda>_ t. returns (ilock 3 (upd_inode 3 (\<lambda>_. fresh_inode\<lparr>i_flags := 0\<rparr>) t)) (\<lambda>_ u. i_nlink (icache u 3) = 1))"
proof -
  have h: "LkIcache \<notin> held in_call" by (simp add: in_call_def booted_fields)
  note r = iupdate_ilock_roundtrip [OF in_call_fview _ _ h, of fresh_inode 0 "fresh_inode\<lparr>i_flags := 0\<rparr>" 3]
  show ?thesis by (rule returns_mono [OF r])
    (use fresh_ok(1) in \<open>auto simp: in_call_fields fresh_inode_def fresh_sb_def Let_def elim!: returns_mono\<close>)
qed

end
