(* ===== verification/Xv6_Fwrite.thy ===== *)
theory Xv6_Fwrite
  imports Xv6_Fs
begin

text \<open>
  \<^verbatim>\<open>filewrite\<close> from end to end: through the open file, the inode, the block map and the allocator,
  the log and the buffer cache, down to the disk. Each chunk is one transaction; when \<^verbatim>\<open>filewrite\<close>
  returns, the data, the inode and the free map are on the disk.
\<close>

section \<open>An open file between system calls\<close>

text \<open>The blocks the file system uses.\<close>

definition fs_block :: "superblock \<Rightarrow> uint \<Rightarrow> bool" where
  "fs_block sb b \<longleftrightarrow> b \<in> bitmap_blocks sb \<or> b \<in> inode_blocks sb \<or> data_block sb b"

definition inode_at_rest :: "superblock \<Rightarrow> (uint \<Rightarrow> block) \<Rightarrow> inode \<Rightarrow> bool" where
  "inode_at_rest sb V i \<longleftrightarrow> file_wf sb V i \<and> synced sb V i \<and> i_type i \<noteq> T_DEV \<and> i_flags i = I_VALID \<and> 1 \<le> i_ref i
     \<and> unat (i_size i) \<le> MAXSIZE \<and> (\<forall>x<unat (i_size i). ptr V i (x div BSIZE) \<noteq> 0)"

definition file_at :: "'a file_state_scheme \<Rightarrow> (uint \<Rightarrow> block) \<Rightarrow> nat \<Rightarrow> bool" where
  "file_at s V ip \<longleftrightarrow> idle s V \<and> LkIcache \<notin> held s \<and> fs_ok (disksize s) (fs_sb s) V \<and> inode_at_rest (fs_sb s) V (icache s ip)
     \<and> (\<forall>b. fs_block (fs_sb s) b \<longrightarrow> off_log s b) \<and> card (bitmap_blocks (fs_sb s)) \<le> 1"

text \<open>All this depends only on the contents of blocks the file system uses.\<close>

lemma ptr_cong:
  assumes "\<And>b. fs_block sb b \<Longrightarrow> V' b = V b" "i_addrs i NDIRECT \<noteq> 0 \<Longrightarrow> data_block sb (i_addrs i NDIRECT)"
  shows "ptr V' i k = ptr V i k"
  using assms(1) [of "i_addrs i NDIRECT"] assms(2) by (simp add: ptr_def fs_block_def)

lemma free_cong: "(\<And>b. fs_block sb b \<Longrightarrow> V' b = V b) \<Longrightarrow> free_blocks sb V' = free_blocks sb V"
  by (auto simp: free_blocks_def used_def fs_block_def bitmap_blocks_def)

lemma wf_cong:
  assumes e: "\<And>b. fs_block sb b \<Longrightarrow> V' b = V b" and w: "file_wf sb V i"
  shows "file_wf sb V' i" "fs_ok dsz sb V' = fs_ok dsz sb V" "synced sb V' i = synced sb V i" "ptr V' i k = ptr V i k"
    "x < MAXSIZE \<Longrightarrow> ptr V i (x div BSIZE) \<noteq> 0 \<Longrightarrow> fbyte V' i x = fbyte V i x"
proof -
  have d: "i_addrs i NDIRECT \<noteq> 0 \<Longrightarrow> data_block sb (i_addrs i NDIRECT)" using file_wf_ptr(1) [OF w, of MAXFILE] by (simp add: ptr_indirect)
  have pe: "ptr V' i k = ptr V i k" for k by (rule ptr_cong [OF e d])
  then show "ptr V' i k = ptr V i k" .
  have "used sb V' c = used sb V c" if "c < sb_size sb" for c using e that by (auto simp: used_def fs_block_def bitmap_blocks_def)
  then show "file_wf sb V' i" using w by (auto simp: file_wf_def pe data_block_def)
  show "fs_ok dsz sb V' = fs_ok dsz sb V" by (simp add: fs_ok_def free_cong [OF e])
  have "fs_block sb (IBLOCK (i_inum i) sb)" using w by (auto simp: fs_block_def inode_blocks_def file_wf_def)
  then show "synced sb V' i = synced sb V i" using e by (simp add: synced_def)
  show "fbyte V' i x = fbyte V i x" if "x < MAXSIZE" "ptr V i (x div BSIZE) \<noteq> 0"
  proof -
    have "data_block sb (ptr V i (x div BSIZE))" using that by (intro file_wf_ptr(1) [OF w]) auto
    then show ?thesis using e by (simp add: fbyte_def pe fs_block_def)
  qed
qed

section \<open>One chunk\<close>

lemma nblocks_chunk: "n \<le> filewrite_max \<Longrightarrow> nblocks off n \<le> 14"
proof -
  assume n: "n \<le> filewrite_max"
  show ?thesis
  proof (cases "n = 0")
    case False
    have "(off + n - 1) div BSIZE \<le> (off + 13 * BSIZE) div BSIZE" using n by (intro div_le_mono) (simp add: filewrite_max_def)
    also have "\<dots> = off div BSIZE + 13" by simp
    finally show ?thesis using False by (simp add: nblocks_def)
  qed (simp add: nblocks_def)
qed

lemma flag_bits [simp]: "(2 :: uint) OR 1 = 3" "(2 :: uint) AND 1 = 0" "(3 :: uint) AND NOT 1 = 2" "(3 :: uint) AND 1 = 1" "(3 :: uint) AND 2 = 2"
  by simp_all

lemma ilock_valid:
  assumes "i_flags (icache s ip) = I_VALID" "1 \<le> i_ref (icache s ip)" "LkIcache \<notin> held s"
  shows "ilock ip s = Ret () (upd_inode ip (\<lambda>i. i\<lparr>i_flags := 3\<rparr>) s)"
  using assms by (simp add: ilock_def ilock_loop_def upd_inode_def)

lemma iunlock_valid:
  assumes "i_flags (icache s ip) = 3" "1 \<le> i_ref (icache s ip)" "LkIcache \<notin> held s" "LkPtable \<notin> held s"
  shows "iunlock ip s = Ret () (wakeup1 (ChInode ip) (upd_inode ip (\<lambda>i. i\<lparr>i_flags := I_VALID\<rparr>) s))"
  using assms by (simp add: iunlock_def wakeup_eq upd_inode_def) (simp add: wakeup1_def cong: if_cong)

lemma flags_irrelevant [simp]:
  "ptr V (i\<lparr>i_flags := fl\<rparr>) = ptr V i" "fbyte V (i\<lparr>i_flags := fl\<rparr>) = fbyte V i" "file_wf sb V (i\<lparr>i_flags := fl\<rparr>) = file_wf sb V i"
  "synced sb V (i\<lparr>i_flags := fl\<rparr>) = synced sb V i" "pot sb L (i\<lparr>i_flags := fl\<rparr>) = pot sb L i"
proof -
  show p: "ptr V (i\<lparr>i_flags := fl\<rparr>) = ptr V i" for V by (simp add: ptr_def fun_eq_iff)
  then show "fbyte V (i\<lparr>i_flags := fl\<rparr>) = fbyte V i" "file_wf sb V (i\<lparr>i_flags := fl\<rparr>) = file_wf sb V i"
    by (simp_all add: fbyte_def file_wf_def fun_eq_iff)
  show "synced sb V (i\<lparr>i_flags := fl\<rparr>) = synced sb V i" "pot sb L (i\<lparr>i_flags := fl\<rparr>) = pot sb L i" by (simp_all add: synced_def pot_def)
qed

lemma file_fields_more:
  "log_state.more x = log_state.more u \<Longrightarrow> fs_sb x = fs_sb u \<and> icache x = icache u \<and> ftable x = ftable u" for x u :: "'a file_state_scheme"
  by (cases x; cases u) simp

text \<open>What a chunk, or several, leave behind, with \<open>N\<close> blocks at most taken from the free ones.\<close>

definition chunks_done :: "nat \<Rightarrow> nat \<Rightarrow> nat \<Rightarrow> nat \<Rightarrow> nat \<Rightarrow> (nat \<Rightarrow> uchar) \<Rightarrow> 'a file_state_scheme \<Rightarrow> (uint \<Rightarrow> block) \<Rightarrow> 'a file_state_scheme \<Rightarrow> (uint \<Rightarrow> block) \<Rightarrow> bool" where
  "chunks_done N f ip off n src s V t V' \<longleftrightarrow> (let sb = fs_sb s; i = icache s ip; i' = icache t ip in
     file_at t V' ip \<and> fs_sb t = sb
     \<and> ftable t = (ftable s)(f := (ftable s f)\<lparr>f_off := of_nat (off + n)\<rparr>)
     \<and> unat (i_size i') = max (unat (i_size i)) (off + n)
     \<and> card (free_blocks sb V) + of_bool (i_addrs i' NDIRECT = 0) \<le> card (free_blocks sb V') + N + of_bool (i_addrs i NDIRECT = 0)
     \<and> (\<forall>x. off \<le> x \<and> x < off + n \<longrightarrow> fbyte V' i' x = src (x - off))
     \<and> (\<forall>x<unat (i_size i). \<not> (off \<le> x \<and> x < off + n) \<longrightarrow> fbyte V' i' x = fbyte V i x))"

lemma written_rest:
  assumes w: "written C ip off n src s V L t V' L'"
  obtains ad sz where "tx_same (upd_inode ip (\<lambda>i. i\<lparr>i_addrs := ad, i_size := sz\<rparr>) s) t"
proof -
  have "\<exists>ad sz. tx_same (upd_inode ip (\<lambda>i. i\<lparr>i_addrs := ad, i_size := sz\<rparr>) s) t" using w unfolding written_def Let_def by (elim conjE)
  then show thesis using that by blast
qed

lemma chunk_commit:
  fixes s :: "'a file_state_scheme" and f :: nat
  assumes s: "file_at s V ip" and w: "written 29 ip off n src (upd_inode ip (\<lambda>i. i\<lparr>i_flags := 3\<rparr>) (s\<lparr>lg_outstanding := 1\<rparr>)) V {} t V' L'" and n: "0 < n"
  defines "u \<equiv> wakeup1 (ChInode ip) (upd_inode ip (\<lambda>i. i\<lparr>i_flags := I_VALID\<rparr>) (upd_file f (\<lambda>k. k\<lparr>f_off := of_nat (off + n)\<rparr>) t))"
  shows "returns (end_op u) (\<lambda>_ x. \<exists>V''. chunks_done (nblocks off n) f ip off n src s V x V'')"
proof -
  let ?s = "upd_inode ip (\<lambda>i. i\<lparr>i_flags := 3\<rparr>) (s\<lparr>lg_outstanding := 1\<rparr>)" and ?sb = "fs_sb s" and ?i = "icache s ip" and ?i' = "icache t ip"
  obtain ad sz where tx: "tx_same (upd_inode ip (\<lambda>i. i\<lparr>i_addrs := ad, i_size := sz\<rparr>) ?s) t" by (rule written_rest [OF w])
  note T = tx_sameD [OF tx]
  have S: "idle s V" "LkIcache \<notin> held s" "fs_ok (disksize s) ?sb V" "inode_at_rest ?sb V ?i" "\<And>b. fs_block ?sb b \<Longrightarrow> off_log s b" "card (bitmap_blocks ?sb) \<le> 1"
    using s by (auto simp: file_at_def)
  have W: "file_ok t V' 29 L' ip" "synced ?sb V' ?i'" "unat (i_size ?i') = max (unat (i_size ?i)) (off + n)"
      "L' \<subseteq> bitmap_blocks ?sb \<union> inode_blocks ?sb \<union> {b. data_block ?sb b}"
      "card (free_blocks ?sb V) + of_bool (i_addrs ?i' NDIRECT = 0) \<le> card (free_blocks ?sb V') + nblocks off n + of_bool (i_addrs ?i NDIRECT = 0)"
      "\<And>x. off \<le> x \<Longrightarrow> x < off + n \<Longrightarrow> fbyte V' ?i' x = src (x - off)"
    using w n unfolding written_def Let_def by simp_all
  have old: "fbyte V' ?i' x = fbyte V ?i x" if "x < unat (i_size ?i)" "\<not> (off \<le> x \<and> x < off + n)" for x
    using w that unfolding written_def Let_def by (simp add: fbyte_def ptr_def)
  have ic: "icache t = (icache s)(ip := ?i\<lparr>i_flags := 3, i_addrs := ad, i_size := sz\<rparr>)" "fs_sb t = ?sb" "ftable t = ftable s"
    using tx by (auto simp: tx_same_def upd_inode_def)
  have u: "bufs u = bufs t" "disk u = disk s" "held u = held s" "lh_n u = lh_n t" "lh_block u = lh_block t" "lg_size u = lg_size s" "lg_outstanding u = 1"
      "lg_start u = lg_start s" "lg_committing u = lg_committing s" "lg_dev u = lg_dev s" "disksize u = disksize s"
      "icache u = (icache t)(ip := ?i'\<lparr>i_flags := I_VALID\<rparr>)" "fs_sb u = ?sb" "ftable u = (ftable s)(f := (ftable s f)\<lparr>f_off := of_nat (off + n)\<rparr>)"
    using T ic by (simp_all add: u_def wakeup1_def upd_inode_def upd_file_def)
  have "tview t V' [] 0 L'" using W(1) fview_tview by (auto simp: file_ok_def fstate_def)
  then have tv: "tview u V' [] 0 L'" using T u by (subst tview_cong [of u t]) (simp_all add: upd_inode_def)
  have ol: "off_log u b = off_log s b" for b by (simp add: off_log_def u)
  have fb: "fs_block ?sb b" if "b \<in> L'" for b using that W(4) by (auto simp: fs_block_def)
  have "returns (end_op u) (\<lambda>_ x. \<exists>V''. idle x V'' \<and> (\<forall>n. off_log u n \<longrightarrow> V'' n = V' n \<and> disk x (unat n) = V' n)
      \<and> held x = held u \<and> log_state.more x = log_state.more u \<and> disksize x = disksize u \<and> lg_start x = lg_start u)"
    by (rule end_op_commits [OF tv]) (use S fb in \<open>auto simp: ol u idle_def log_placed_def\<close>)
  then show ?thesis
  proof (rule returns_mono, elim exE conjE)
    fix x V''
    assume x: "idle x V''" "\<forall>n. off_log u n \<longrightarrow> V'' n = V' n \<and> disk x (unat n) = V' n" "held x = held u" "log_state.more x = log_state.more u"
      "disksize x = disksize u" "lg_start x = lg_start u"
    have e: "V'' b = V' b" if "fs_block ?sb b" for b using x(2) S(5) [OF that] by (simp add: ol)
    have xi: "fs_sb x = ?sb" "icache x ip = ?i'\<lparr>i_flags := I_VALID\<rparr>" "ftable x = ftable u"
      using file_fields_more [OF x(4)] u(12,13) by simp_all
    have wf: "file_wf ?sb V' ?i'" "fs_ok (disksize s) ?sb V'" using W(1) T(4) by (auto simp: file_ok_def fstate_def ic(2))
    note c = wf_cong [OF e wf(1)]
    note F = file_okD [OF W(1)]
    have ref: "1 \<le> i_ref ?i'" using S(4) by (simp add: ic(1) inode_at_rest_def)
    have "inode_at_rest ?sb V'' (?i'\<lparr>i_flags := I_VALID\<rparr>)"
      using c(1,3,4) W(2) F(2-4) S(4) ref by (simp add: inode_at_rest_def)
    then have "file_at x V'' ip"
      using x(1,3,5,6) S c(2) wf(2) u(3,8,11) by (simp add: file_at_def xi off_log_def)
    moreover have y: "fbyte V'' ?i' y = fbyte V' ?i' y" if "y < max (unat (i_size ?i)) (off + n)" for y
      using F(3,4) that W(3) by (intro c(5)) auto
    have "fbyte V'' ?i' y = src (y - off)" if "off \<le> y" "y < off + n" for y using y [of y] W(6) [of y] that by simp
    moreover have "fbyte V'' ?i' y = fbyte V ?i y" if "y < unat (i_size ?i)" "\<not> (off \<le> y \<and> y < off + n)" for y using y [of y] old [of y] that by simp
    moreover have "free_blocks ?sb V'' = free_blocks ?sb V'" using free_cong [of ?sb V'' V'] e by blast
    ultimately have "chunks_done (nblocks off n) f ip off n src s V x V''"
      unfolding chunks_done_def Let_def xi using W(3,5) by (simp add: u(14))
    then show "\<exists>V''. chunks_done (nblocks off n) f ip off n src s V x V''" by blast
  qed
qed

lemma chunk_spec:
  fixes s :: "'a file_state_scheme" and f :: nat
  assumes s: "file_at s V ip" and f: "f_ip (ftable s f) = ip" "f_off (ftable s f) = off" "off \<le> i_size (icache s ip)"
    and n: "0 < n" "n \<le> filewrite_max" "unat off + n \<le> MAXSIZE"
    and fr: "nblocks (unat off) n + of_bool (i_addrs (icache s ip) NDIRECT = 0) \<le> card (free_blocks (fs_sb s) V)"
  shows "returns (filewrite_chunk f src n s) (\<lambda>r t. r = int n \<and> (\<exists>V'. chunks_done (nblocks (unat off) n) f ip (unat off) n src s V t V'))"
proof -
  let ?s = "s\<lparr>lg_outstanding := 1\<rparr>" and ?i = "icache s ip" and ?sb = "fs_sb s"
  let ?t = "upd_inode ip (\<lambda>i. i\<lparr>i_flags := 3\<rparr>) ?s"
  have S: "idle s V" "LkIcache \<notin> held s" "fs_ok (disksize s) ?sb V" "inode_at_rest ?sb V ?i" "card (bitmap_blocks ?sb) \<le> 1"
    using s by (auto simp: file_at_def)
  have hp: "LkPtable \<notin> held s" using S(1) by (auto simp: idle_def bview_def)
  have I: "file_wf ?sb V ?i" "synced ?sb V ?i" "i_type ?i \<noteq> T_DEV" "i_flags ?i = I_VALID" "1 \<le> i_ref ?i" "unat (i_size ?i) \<le> MAXSIZE"
    "\<And>x. x < unat (i_size ?i) \<Longrightarrow> ptr V ?i (x div BSIZE) \<noteq> 0" using S(4) by (auto simp: inode_at_rest_def)
  have b: "begin_op s = Ret () ?s" "tview ?s V [] 29 {}" using begin_op_idle [OF S(1)] by (auto simp: returns_def)
  have l: "ilock ip ?s = Ret () ?t" using I(4,5) S(2) by (intro ilock_valid) simp_all
  have "fview ?s V [] 29 {}" using S(1) by (intro fviewI [OF b(2)]) (simp_all add: idle_def log_placed_def)
  then have ok: "file_ok ?t V 29 {} ip" using I S(3) by (simp add: file_ok_def fstate_def)
  have un: "unat (of_nat n :: uint) = n" using n(3) by (simp add: unat_of_nat take_bit_nat_eq_self)
  have "pot ?sb {} ?i \<le> card (bitmap_blocks ?sb) + 1"
    unfolding pot_def using card_insert_le_m1 [of _ "bitmap_blocks ?sb"] card_Un_le [of "bitmap_blocks ?sb" "{i_addrs ?i NDIRECT} - {0}"] by (cases "i_addrs ?i NDIRECT = 0") auto
  then have p: "pot ?sb {} ?i + nblocks (unat off) n < 29" using S(5) nblocks_chunk [OF n(2), of "unat off"] by linarith
  have w: "returns (writei ip src off (of_nat n) ?t) (\<lambda>r t. r = int (unat (of_nat n :: uint))
      \<and> (\<exists>V' L'. written 29 ip (unat off) (unat (of_nat n :: uint)) src ?t V {} t V' L'))"
    by (rule writei_spec [OF ok]) (use I(2) f(3) n(3) p fr in \<open>simp_all add: un\<close>)
  let ?tail = "\<lambda>r s. let s = (if r > 0 then upd_file f (\<lambda>k. k\<lparr>f_off := f_off k + of_int r\<rparr>) s else s) in
     andthen (iunlock (f_ip (ftable s f)) s) (\<lambda>_ s. andthen (end_op s) (\<lambda>_ s. Ret r s))"
  have "filewrite_chunk f src n s = andthen (writei ip src off (of_nat n) ?t) ?tail"
    unfolding filewrite_chunk_def b(1) andthen_simps using f l by (simp add: upd_inode_def)
  moreover have "returns (andthen (writei ip src off (of_nat n) ?t) ?tail) (\<lambda>r t. r = int n \<and> (\<exists>V'. chunks_done (nblocks (unat off) n) f ip (unat off) n src s V t V'))"
  proof (rule returns_andthenI [OF w [unfolded un]], elim conjE exE)
    fix r t V' L'
    assume r: "r = int n" and W: "written 29 ip (unat off) n src ?t V {} t V' L'"
    obtain ad sz where tx: "tx_same (upd_inode ip (\<lambda>i. i\<lparr>i_addrs := ad, i_size := sz\<rparr>) ?t) t" by (rule written_rest [OF W])
    have t: "ftable t = ftable s" "held t = held s" "icache t ip = ?i\<lparr>i_flags := 3, i_addrs := ad, i_size := sz\<rparr>"
      using tx tx_same_fs(2) [OF tx] tx_sameD(1) [OF tx] by (auto simp: tx_same_def upd_inode_def)
    let ?u = "upd_file f (\<lambda>k. k\<lparr>f_off := of_nat (unat off + n)\<rparr>) t"
    have "(ftable t f)\<lparr>f_off := f_off (ftable t f) + of_int r\<rparr> = (ftable t f)\<lparr>f_off := of_nat (unat off + n)\<rparr>" by (simp add: r t f)
    then have u: "(if r > 0 then upd_file f (\<lambda>k. k\<lparr>f_off := f_off k + of_int r\<rparr>) t else t) = ?u" using r n(1) by (simp add: upd_file_def)
    have iu: "iunlock (f_ip (ftable ?u f)) ?u = Ret () (wakeup1 (ChInode ip) (upd_inode ip (\<lambda>i. i\<lparr>i_flags := I_VALID\<rparr>) ?u))"
      using t f I(5) S(2) hp by (subst iunlock_valid) (simp_all add: upd_file_def)
    have "?tail r t = andthen (end_op (wakeup1 (ChInode ip) (upd_inode ip (\<lambda>i. i\<lparr>i_flags := I_VALID\<rparr>) ?u))) (\<lambda>_ s. Ret r s)"
      unfolding Let_def u iu by simp
    then show "returns (?tail r t) (\<lambda>r t. r = int n \<and> (\<exists>V'. chunks_done (nblocks (unat off) n) f ip (unat off) n src s V t V'))"
      using chunk_commit [OF s W n(1), of f] r by (auto elim!: returns_mono)
  qed
  ultimately show ?thesis by simp
qed

section \<open>All chunks\<close>

lemma chunks_doneD:
  assumes "chunks_done N f ip off n src s V t V'"
  shows "file_at t V' ip" "fs_sb t = fs_sb s" "ftable t = (ftable s)(f := (ftable s f)\<lparr>f_off := of_nat (off + n)\<rparr>)"
    "unat (i_size (icache t ip)) = max (unat (i_size (icache s ip))) (off + n)"
    "card (free_blocks (fs_sb s) V) + of_bool (i_addrs (icache t ip) NDIRECT = 0) \<le> card (free_blocks (fs_sb s) V') + N + of_bool (i_addrs (icache s ip) NDIRECT = 0)"
    "off \<le> x \<Longrightarrow> x < off + n \<Longrightarrow> fbyte V' (icache t ip) x = src (x - off)"
    "x < unat (i_size (icache s ip)) \<Longrightarrow> \<not> (off \<le> x \<and> x < off + n) \<Longrightarrow> fbyte V' (icache t ip) x = fbyte V (icache s ip) x"
  using assms unfolding chunks_done_def Let_def by blast+

lemma chunks_trans:
  assumes d: "chunks_done N f ip off m src s V t V'" and d': "chunks_done N' f ip (off + m) n (\<lambda>i. src (m + i)) t V' u V''" and "N + N' \<le> M"
  shows "chunks_done M f ip off (m + n) src s V u V''"
proof -
  note D = chunks_doneD [OF d] and D' = chunks_doneD [OF d']
  have "fbyte V'' (icache u ip) x = src (x - off)" if "off \<le> x" "x < off + (m + n)" for x
    using D(4) D(6) [of x] D'(6,7) [of x] that by (cases "x < off + m") auto
  moreover have "fbyte V'' (icache u ip) x = fbyte V (icache s ip) x" if "x < unat (i_size (icache s ip))" "\<not> (off \<le> x \<and> x < off + (m + n))" for x
    using D(4) D(7) [of x] D'(7) [of x] that by auto
  moreover have "card (free_blocks (fs_sb s) V) + of_bool (i_addrs (icache u ip) NDIRECT = 0) \<le> card (free_blocks (fs_sb s) V'') + M + of_bool (i_addrs (icache s ip) NDIRECT = 0)"
    using D(2,5) D'(5) assms(3) by simp
  ultimately show ?thesis
    unfolding chunks_done_def Let_def using D'(1-4) D(2-4) by (simp add: add.assoc)
qed

text \<open>Each chunk takes at most 14 free blocks; one more may become the indirect block.\<close>

definition chunk_need :: "nat \<Rightarrow> nat" where
  "chunk_need n = 14 * ((n + (filewrite_max - 1)) div filewrite_max)"

lemma chunk_need_step: "0 < n \<Longrightarrow> chunk_need n = 14 + chunk_need (n - min n filewrite_max)"
proof -
  assume n: "0 < n"
  show ?thesis
  proof (cases "n \<le> filewrite_max")
    case True
    then have "(n + (filewrite_max - 1)) div filewrite_max = 1" using n by (intro div_nat_eqI) auto
    then show ?thesis using True by (simp add: chunk_need_def filewrite_max_def)
  next
    case False
    then have "n + (filewrite_max - 1) = (n - filewrite_max + (filewrite_max - 1)) + filewrite_max" by simp
    then have "(n + (filewrite_max - 1)) div filewrite_max = Suc ((n - filewrite_max + (filewrite_max - 1)) div filewrite_max)"
      by (simp add: filewrite_max_def)
    then show ?thesis using False by (simp add: chunk_need_def)
  qed
qed

lemma filewrite_loop_spec:
  fixes s :: "'a file_state_scheme" and f :: nat
  assumes "file_at s V ip" "f_ip (ftable s f) = ip" "f_off (ftable s f) = of_nat off" "off \<le> unat (i_size (icache s ip))"
    "0 < n" "off + n \<le> MAXSIZE" "chunk_need n + of_bool (i_addrs (icache s ip) NDIRECT = 0) \<le> card (free_blocks (fs_sb s) V)"
  shows "returns (filewrite_loop f src n s) (\<lambda>r t. r \<and> (\<exists>V'. chunks_done (chunk_need n) f ip off n src s V t V'))"
  using assms
proof (induction n arbitrary: src off s V rule: less_induct)
  case (less n)
  define m where "m = min n filewrite_max"
  have m: "0 < m" "m \<le> n" "m \<le> filewrite_max" using less.prems(5) by (auto simp: m_def filewrite_max_def)
  have uo: "unat (of_nat off :: uint) = off" using less.prems(6) by (simp add: unat_of_nat take_bit_nat_eq_self)
  have cn: "chunk_need n = 14 + chunk_need (n - m)" using chunk_need_step less.prems(5) by (simp add: m_def)
  have nb: "nblocks off m \<le> 14" using m(3) by (rule nblocks_chunk)
  have c: "returns (filewrite_chunk f src m s) (\<lambda>r t. r = int m \<and> (\<exists>V'. chunks_done (nblocks off m) f ip off m src s V t V'))"
    using chunk_spec [OF less.prems(1-3), of m src] less.prems(4,6,7) m cn nb by (simp add: uo word_le_nat_alt)
  have e: "filewrite_loop f src n s = andthen (filewrite_chunk f src m s) (\<lambda>r s. if r < 0 then Ret False s
      else if r \<noteq> int m then Panic ''short filewrite'' else filewrite_loop f (\<lambda>i. src (m + i)) (n - m) s)"
    using less.prems(5) by (simp add: filewrite_loop.simps [of f src n s] m_def [symmetric] Let_def)
  show ?case unfolding e
  proof (rule returns_andthenI [OF c], elim conjE exE)
    fix r t V'
    assume r: "r = int m" and d: "chunks_done (nblocks off m) f ip off m src s V t V'"
    note D = chunks_doneD [OF d]
    have "returns (filewrite_loop f (\<lambda>i. src (m + i)) (n - m) t) (\<lambda>r u. r \<and> (\<exists>V''. chunks_done (chunk_need n) f ip off n src s V u V''))"
    proof (cases "m = n")
      case True
      have "chunks_done (chunk_need n) f ip off n src s V t V'"
        using d nb cn D(5) unfolding chunks_done_def Let_def True by simp
      then show ?thesis using True by (auto simp: filewrite_loop.simps [of f _ 0])
    next
      case False
      have "returns (filewrite_loop f (\<lambda>i. src (m + i)) (n - m) t)
          (\<lambda>r u. r \<and> (\<exists>V''. chunks_done (chunk_need (n - m)) f ip (off + m) (n - m) (\<lambda>i. src (m + i)) t V' u V''))"
        by (rule less.IH [OF _ D(1)]) (use D(2-5) m False less.prems cn nb in auto)
      then show ?thesis
      proof (rule returns_mono, elim conjE exE, intro conjI)
        fix b u V''
        assume "chunks_done (chunk_need (n - m)) f ip (off + m) (n - m) (\<lambda>i. src (m + i)) t V' u V''" "b"
        from chunks_trans [OF d this(1), of "chunk_need n"] show "\<exists>V''. chunks_done (chunk_need n) f ip off n src s V u V''"
          using cn nb m(2) by auto
      qed
    qed
    then show "returns (if r < 0 then Ret False t else if r \<noteq> int m then Panic ''short filewrite'' else filewrite_loop f (\<lambda>i. src (m + i)) (n - m) t)
        (\<lambda>r t. r \<and> (\<exists>V'. chunks_done (chunk_need n) f ip off n src s V t V'))" using r by simp
  qed
qed

text \<open>
  \<^bold>\<open>C2.\<close> A successful \<^verbatim>\<open>write\<close> is on the disk. Between system calls, for a writable open file at an offset within it,
  with enough free blocks: \<^verbatim>\<open>filewrite\<close> returns the number of bytes, having advanced the offset by it;
  the bytes that the block pointers of the disk inode select on the disk are the source's in the range
  written and the old ones elsewhere, the size in the disk inode covers the range, and the log is empty.
\<close>
theorem filewrite_durable:
  fixes s :: "'a file_state_scheme"
  assumes "file_at s V ip" "f_ip (ftable s f) = ip" "f_off (ftable s f) = of_nat off" "off \<le> unat (i_size (icache s ip))" "0 < n" "off + n \<le> MAXSIZE"
    "chunk_need n + of_bool (i_addrs (icache s ip) NDIRECT = 0) \<le> card (free_blocks (fs_sb s) V)"
    "f_type (ftable s f) = FD_INODE" "f_writable (ftable s f)"
  shows "returns (filewrite f src (int n) s) (\<lambda>r t. r = int n \<and> f_off (ftable t f) = of_nat (off + n)
    \<and> (let V' = (\<lambda>b. disk t (unat b)); i = icache t ip in idle t V' \<and> inode_at_rest (fs_sb s) V' i
       \<and> unat (i_size i) = max (unat (i_size (icache s ip))) (off + n)
       \<and> (\<forall>x<unat (i_size i). fbyte V' i x = (if off \<le> x \<and> x < off + n then src (x - off) else fbyte V (icache s ip) x))))"
proof -
  have "returns (filewrite_loop f src n s) (\<lambda>r t. r \<and> (\<exists>V'. chunks_done (chunk_need n) f ip off n src s V t V'))"
    by (rule filewrite_loop_spec [OF assms(1-7)])
  then have "returns (andthen (filewrite_loop f src n s) (\<lambda>ok s. Ret (if ok \<and> 0 \<le> int n then int n else - 1) s))
    (\<lambda>r t. r = int n \<and> f_off (ftable t f) = of_nat (off + n)
    \<and> (let V' = (\<lambda>b. disk t (unat b)); i = icache t ip in idle t V' \<and> inode_at_rest (fs_sb s) V' i
       \<and> unat (i_size i) = max (unat (i_size (icache s ip))) (off + n)
       \<and> (\<forall>x<unat (i_size i). fbyte V' i x = (if off \<le> x \<and> x < off + n then src (x - off) else fbyte V (icache s ip) x))))"
  proof (rule returns_andthenI, elim conjE exE)
    fix ok t V'
    assume ok: "ok" and d: "chunks_done (chunk_need n) f ip off n src s V t V'"
    note D = chunks_doneD [OF d]
    have a: "idle t V'" "inode_at_rest (fs_sb s) V' (icache t ip)" using D(1,2) by (auto simp: file_at_def)
    have "V' b = disk t (unat b)" for b using a(1) bview_clean [of t V' "{}" b] by (simp add: idle_def)
    then have v: "(\<lambda>b. disk t (unat b)) = V'" by auto
    have "fbyte V' (icache t ip) x = (if off \<le> x \<and> x < off + n then src (x - off) else fbyte V (icache s ip) x)" if "x < unat (i_size (icache t ip))" for x
      using D(6) [of x] D(7) [of x] D(4) that assms(4) by auto
    then show "returns (Ret (if ok \<and> 0 \<le> int n then int n else - 1) t) (\<lambda>r t. r = int n \<and> f_off (ftable t f) = of_nat (off + n)
      \<and> (let V' = (\<lambda>b. disk t (unat b)); i = icache t ip in idle t V' \<and> inode_at_rest (fs_sb s) V' i
       \<and> unat (i_size i) = max (unat (i_size (icache s ip))) (off + n)
       \<and> (\<forall>x<unat (i_size i). fbyte V' i x = (if off \<le> x \<and> x < off + n then src (x - off) else fbyte V (icache s ip) x))))"
      using ok a D(3,4) by (simp add: v Let_def)
  qed
  then show ?thesis using assms(8,9) by (simp add: filewrite_def Let_def)
qed

lemma booted_file: "file_at booted fresh_view ip"
proof -
  have "off_log booted b" if "fs_block fresh_sb b" for b
  proof -
    have "32 \<le> b \<and> b < 1000"
      using that fresh_meta(2) unfolding fs_block_def
    proof (elim disjE)
      assume "b \<in> inode_blocks fresh_sb"
      then have "32 \<le> b" "b < 58" using fresh_meta(2) by auto
      then show ?thesis by (simp add: word_less_nat_alt word_le_nat_alt)
    next
      assume "data_block fresh_sb b"
      then show ?thesis by (auto simp: data_block_def log_area_def fresh_sb_def word_less_nat_alt word_le_nat_alt word_unat_eq_iff)
    qed (simp add: fresh_meta(1))
    then show ?thesis by (simp add: off_log_def booted_fields word_less_nat_alt word_le_nat_alt)
  qed
  then show ?thesis
    using booted_idle fresh_ok by (simp add: file_at_def inode_at_rest_def booted_fields fresh_meta(1)) (simp add: fresh_inode_def)
qed

theorem filewrite_durable_witness:
  "returns (filewrite 0 (\<lambda>i. of_nat i) 2000 booted) (\<lambda>r t. r = 2000 \<and> f_off (ftable t 0) = 2000
     \<and> (\<forall>x<2000. fbyte (\<lambda>b. disk t (unat b)) (icache t 0) x = of_nat x))"
proof -
  have n: "chunk_need 2000 = 14" by (simp add: chunk_need_def filewrite_max_def)
  have "returns (filewrite 0 (\<lambda>i. of_nat i) (int 2000) booted) (\<lambda>r t. r = int 2000 \<and> f_off (ftable t 0) = of_nat (0 + 2000)
    \<and> (let V' = (\<lambda>b. disk t (unat b)); i = icache t 0 in idle t V' \<and> inode_at_rest (fs_sb booted) V' i
       \<and> unat (i_size i) = max (unat (i_size (icache booted 0))) (0 + 2000)
       \<and> (\<forall>x<unat (i_size i). fbyte V' i x = (if 0 \<le> x \<and> x < 0 + 2000 then of_nat (x - 0) else fbyte fresh_view (icache booted 0) x))))"
    by (rule filewrite_durable [OF booted_file]) (simp_all add: booted_fields n in_call_room fresh_fs_def)
  then show ?thesis by (simp add: Let_def booted_fields) (erule returns_mono, simp)
qed

end
