(* ===== verification/Xv6_Vm.thy ===== *)
theory Xv6_Vm
  imports Xv6_Dir
begin

text \<open>
  Virtual memory (\<^verbatim>\<open>vm.c\<close>): two-level page tables kept in memory, the kernel's mappings, and the
  creation, growth, copying and release of user address spaces. A page directory is the kernel
  address of its page; a pointer to a page-table entry is its address, 0 for null.

  Loops over addresses below \<^verbatim>\<open>KERNBASE\<close> run over natural numbers: no address computation there
  wraps around.
\<close>

section \<open>Page tables\<close>

definition pde_addr :: "uint \<Rightarrow> uint \<Rightarrow> uint" where
  "pde_addr pgdir va = pgdir + 4 * PDX va"

definition walkpgdir :: "uint \<Rightarrow> uint \<Rightarrow> bool \<Rightarrow> 'a kmem_state_scheme \<Rightarrow> ('a kmem_state_scheme, uint) outcome" where
  "walkpgdir pgdir va alloc s =
     (let pde = load32 (mem s) (pde_addr pgdir va) in
      if pde AND PTE_P \<noteq> 0 then Ret (P2V (PTE_ADDR pde) + 4 * PTX va) s
      else if \<not> alloc then Ret 0 s
      else
        andthen (kalloc s) (\<lambda>pgtab s.
        if pgtab = 0 then Ret 0 s
        else
          let s = s\<lparr>mem := memset pgtab 0 PGSIZE (mem s)\<rparr>;
              s = s\<lparr>mem := store32 (pde_addr pgdir va) (V2P pgtab OR PTE_P OR PTE_W OR PTE_U) (mem s)\<rparr> in
          Ret (pgtab + 4 * PTX va) s))"

text \<open>
  \<^verbatim>\<open>mappages\<close>: the loop visits the page-aligned addresses from \<^verbatim>\<open>a\<close> to \<^verbatim>\<open>last\<close>, both included; the result
  says whether a page table could not be allocated.
\<close>

definition mappages_one :: "uint \<Rightarrow> uint \<Rightarrow> uint \<Rightarrow> uint \<Rightarrow> 'a kmem_state_scheme \<Rightarrow> ('a kmem_state_scheme, unit option) outcome" where
  "mappages_one pgdir a pa perm s =
     andthen (walkpgdir pgdir a True s) (\<lambda>pte s.
     if pte = 0 then Ret (Some ()) s
     else if load32 (mem s) pte AND PTE_P \<noteq> 0 then Panic ''remap''
     else Ret None (s\<lparr>mem := store32 pte (pa OR perm OR PTE_P) (mem s)\<rparr>))"

definition mappages :: "uint \<Rightarrow> uint \<Rightarrow> uint \<Rightarrow> uint \<Rightarrow> uint \<Rightarrow> 'a kmem_state_scheme \<Rightarrow> ('a kmem_state_scheme, int) outcome" where
  "mappages pgdir va sz pa perm s =
     (let a = PGROUNDDOWN va; last = PGROUNDDOWN (va + sz - 1) in
      andthen (for_until [0..<Suc (unat (last - a) div 4096)]
                 (\<lambda>i. mappages_one pgdir (a + of_nat i * PGSIZE) (pa + of_nat i * PGSIZE) perm) s) (\<lambda>r s.
      Ret (if r = None then 0 else - 1) s))"

text \<open>The table \<^verbatim>\<open>kmap\<close>: virtual start, physical range, permissions.\<close>

definition kmap :: "symbols \<Rightarrow> (uint \<times> uint \<times> uint \<times> uint) list" where
  "kmap sy = [(KERNBASE, 0, EXTMEM, PTE_W), (KERNLINK, V2P KERNLINK, V2P (sym_data sy), 0),
     (sym_data sy, V2P (sym_data sy), PHYSTOP, PTE_W), (DEVSPACE, DEVSPACE, 0, PTE_W)]"

definition setupkvm :: "'a kmem_state_scheme \<Rightarrow> ('a kmem_state_scheme, uint) outcome" where
  "setupkvm s =
     andthen (kalloc s) (\<lambda>pgdir s.
     if pgdir = 0 then Ret 0 s
     else
       let s = s\<lparr>mem := memset pgdir 0 PGSIZE (mem s)\<rparr> in
       if P2V PHYSTOP > DEVSPACE then Panic ''PHYSTOP too high''
       else
         andthen (for_until (kmap (syms s)) (\<lambda>(virt, pstart, pend, perm) s.
                    andthen (mappages pgdir virt (pend - pstart) pstart perm s) (\<lambda>r s.
                    Ret (if r < 0 then Some () else None) s)) s) (\<lambda>r s.
         Ret (if r = None then pgdir else 0) s))"

definition switchkvm :: "'a kstate_scheme \<Rightarrow> 'a kstate_scheme" where
  "switchkvm s = s\<lparr>cr3 := V2P (kpgdir s)\<rparr>"

definition kvmalloc :: "'a kmem_state_scheme \<Rightarrow> ('a kmem_state_scheme, unit) outcome" where
  "kvmalloc s = andthen (setupkvm s) (\<lambda>d s. Ret () (switchkvm (s\<lparr>kpgdir := d\<rparr>)))"

text \<open>
  \<^verbatim>\<open>switchuvm\<close>: the stack for traps is that of the running process; the segment descriptors it also
  loads are constants. Interrupts are off and on again around it.
\<close>

definition switchuvm :: "nat \<Rightarrow> 'a kstate_scheme \<Rightarrow> ('a kstate_scheme, unit) outcome" where
  "switchuvm p s =
     (case curproc s of
        None \<Rightarrow> Undef ''switchuvm: proc''
      | Some q \<Rightarrow>
          let s = s\<lparr>ts_esp0 := p_kstack (ptable s q) + of_nat KSTACKSIZE\<rparr> in
          if p_pgdir (ptable s p) = 0 then Panic ''switchuvm: no pgdir''
          else Ret () (s\<lparr>cr3 := V2P (p_pgdir (ptable s p))\<rparr>))"

section \<open>User memory\<close>

text \<open>A copy of bytes into memory, as \<^verbatim>\<open>memmove\<close> makes it from another object.\<close>

definition put_bytes :: "uint \<Rightarrow> uchar list \<Rightarrow> memory \<Rightarrow> memory" where
  "put_bytes a bs m = (\<lambda>x. if unat (x - a) < length bs then bs ! unat (x - a) else m x)"

definition inituvm :: "uint \<Rightarrow> uchar list \<Rightarrow> 'a kmem_state_scheme \<Rightarrow> ('a kmem_state_scheme, unit) outcome" where
  "inituvm pgdir init s =
     (if length init \<ge> 4096 then Panic ''inituvm: more than a page''
      else
        andthen (kalloc s) (\<lambda>m s.
        let s = s\<lparr>mem := memset m 0 PGSIZE (mem s)\<rparr> in
        andthen (mappages pgdir 0 PGSIZE (V2P m) (PTE_W OR PTE_U) s) (\<lambda>_ s.
        Ret () (s\<lparr>mem := put_bytes m init (mem s)\<rparr>))))"

function deallocuvm_loop :: "uint \<Rightarrow> nat \<Rightarrow> nat \<Rightarrow> 'a kmem_state_scheme \<Rightarrow> ('a kmem_state_scheme, unit) outcome" where
  "deallocuvm_loop pgdir a oldsz s =
     (if a < oldsz then
        andthen (walkpgdir pgdir (of_nat a) False s) (\<lambda>pte s.
        if pte = 0 then deallocuvm_loop pgdir (a + (NPTENTRIES - 1) * 4096 + 4096) oldsz s
        else if load32 (mem s) pte AND PTE_P \<noteq> 0 then
          let pa = PTE_ADDR (load32 (mem s) pte) in
          if pa = 0 then Panic ''kfree''
          else
            andthen (kfree (P2V pa) s) (\<lambda>_ s.
            deallocuvm_loop pgdir (a + 4096) oldsz (s\<lparr>mem := store32 pte 0 (mem s)\<rparr>))
        else deallocuvm_loop pgdir (a + 4096) oldsz s)
      else Ret () s)"
  by pat_completeness auto
termination by (relation "measure (\<lambda>(pgdir, a, oldsz, s). oldsz - a)") auto

declare deallocuvm_loop.simps [simp del]

definition deallocuvm :: "uint \<Rightarrow> uint \<Rightarrow> uint \<Rightarrow> 'a kmem_state_scheme \<Rightarrow> ('a kmem_state_scheme, uint) outcome" where
  "deallocuvm pgdir oldsz newsz s =
     (if newsz \<ge> oldsz then Ret oldsz s
      else andthen (deallocuvm_loop pgdir (unat (PGROUNDUP newsz)) (unat oldsz) s) (\<lambda>_ s. Ret newsz s))"

text \<open>The loop of \<^verbatim>\<open>allocuvm\<close>; its result says whether memory ran out, after the cleanup.\<close>

function allocuvm_loop :: "uint \<Rightarrow> uint \<Rightarrow> nat \<Rightarrow> uint \<Rightarrow> 'a kmem_state_scheme \<Rightarrow> ('a kmem_state_scheme, bool) outcome" where
  "allocuvm_loop pgdir oldsz a newsz s =
     (if a < unat newsz then
        andthen (kalloc s) (\<lambda>m s.
        if m = 0 then
          andthen (deallocuvm pgdir newsz oldsz (cputs (''allocuvm out of memory'' @ [CHR 0x0A]) s)) (\<lambda>_ s. Ret False s)
        else
          let s = s\<lparr>mem := memset m 0 PGSIZE (mem s)\<rparr> in
          andthen (mappages pgdir (of_nat a) PGSIZE (V2P m) (PTE_W OR PTE_U) s) (\<lambda>r s.
          if r < 0 then
            andthen (deallocuvm pgdir newsz oldsz (cputs (''allocuvm out of memory (2)'' @ [CHR 0x0A]) s)) (\<lambda>_ s.
            andthen (kfree m s) (\<lambda>_ s. Ret False s))
          else allocuvm_loop pgdir oldsz (a + 4096) newsz s))
      else Ret True s)"
  by pat_completeness auto
termination by (relation "measure (\<lambda>(pgdir, oldsz, a, newsz, s). unat newsz - a)") auto

declare allocuvm_loop.simps [simp del]

definition allocuvm :: "uint \<Rightarrow> uint \<Rightarrow> uint \<Rightarrow> 'a kmem_state_scheme \<Rightarrow> ('a kmem_state_scheme, uint) outcome" where
  "allocuvm pgdir oldsz newsz s =
     (if newsz \<ge> KERNBASE then Ret 0 s
      else if newsz < oldsz then Ret oldsz s
      else
        andthen (allocuvm_loop pgdir oldsz (unat (PGROUNDUP oldsz)) newsz s) (\<lambda>ok s.
        Ret (if ok then newsz else 0) s))"

definition freevm_pgtab :: "uint \<Rightarrow> nat \<Rightarrow> 'a kmem_state_scheme \<Rightarrow> ('a kmem_state_scheme, unit) outcome" where
  "freevm_pgtab pgdir i s =
     (let pde = load32 (mem s) (pgdir + 4 * of_nat i) in
      if pde AND PTE_P \<noteq> 0 then kfree (P2V (PTE_ADDR pde)) s else Ret () s)"

definition freevm :: "uint \<Rightarrow> 'a kmem_state_scheme \<Rightarrow> ('a kmem_state_scheme, unit) outcome" where
  "freevm pgdir s =
     (if pgdir = 0 then Panic ''freevm: no pgdir''
      else
        andthen (deallocuvm pgdir KERNBASE 0 s) (\<lambda>_ s.
        andthen (for_each [0..<NPDENTRIES] (freevm_pgtab pgdir) s) (\<lambda>_ s.
        kfree pgdir s)))"

definition clearpteu :: "uint \<Rightarrow> uint \<Rightarrow> 'a kmem_state_scheme \<Rightarrow> ('a kmem_state_scheme, unit) outcome" where
  "clearpteu pgdir uva s =
     andthen (walkpgdir pgdir uva False s) (\<lambda>pte s.
     if pte = 0 then Panic ''clearpteu''
     else Ret () (s\<lparr>mem := store32 pte (load32 (mem s) pte AND NOT PTE_U) (mem s)\<rparr>))"

text \<open>The copying loop of \<^verbatim>\<open>copyuvm\<close>; its result says whether it ran to the end.\<close>

function copyuvm_loop :: "uint \<Rightarrow> uint \<Rightarrow> nat \<Rightarrow> nat \<Rightarrow> 'a kmem_state_scheme \<Rightarrow> ('a kmem_state_scheme, bool) outcome" where
  "copyuvm_loop pgdir d i sz s =
     (if i < sz then
        andthen (walkpgdir pgdir (of_nat i) False s) (\<lambda>pte s.
        if pte = 0 then Panic ''copyuvm: pte should exist''
        else if load32 (mem s) pte AND PTE_P = 0 then Panic ''copyuvm: page not present''
        else
          let pa = PTE_ADDR (load32 (mem s) pte); flags = PTE_FLAGS (load32 (mem s) pte) in
          andthen (kalloc s) (\<lambda>m s.
          if m = 0 then Ret False s
          else
            let s = s\<lparr>mem := memmove m (P2V pa) PGSIZE (mem s)\<rparr> in
            andthen (mappages d (of_nat i) PGSIZE (V2P m) flags s) (\<lambda>r s.
            if r < 0 then Ret False s else copyuvm_loop pgdir d (i + 4096) sz s)))
      else Ret True s)"
  by pat_completeness auto
termination by (relation "measure (\<lambda>(pgdir, d, i, sz, s). sz - i)") auto

declare copyuvm_loop.simps [simp del]

definition copyuvm :: "uint \<Rightarrow> uint \<Rightarrow> 'a kmem_state_scheme \<Rightarrow> ('a kmem_state_scheme, uint) outcome" where
  "copyuvm pgdir sz s =
     andthen (setupkvm s) (\<lambda>d s.
     if d = 0 then Ret 0 s
     else
       andthen (copyuvm_loop pgdir d 4096 (unat sz) s) (\<lambda>ok s.
       if ok then Ret d s else andthen (freevm d s) (\<lambda>_ s. Ret 0 s)))"

text \<open>\<^verbatim>\<open>uva2ka\<close> does not test the pointer \<^verbatim>\<open>walkpgdir\<close> returns; address 0 is not mapped in the kernel.\<close>

definition uva2ka :: "uint \<Rightarrow> uint \<Rightarrow> 'a kmem_state_scheme \<Rightarrow> ('a kmem_state_scheme, uint) outcome" where
  "uva2ka pgdir uva s =
     andthen (walkpgdir pgdir uva False s) (\<lambda>pte s.
     if pte = 0 then Undef ''uva2ka: null pte''
     else if load32 (mem s) pte AND PTE_P = 0 then Ret 0 s
     else if load32 (mem s) pte AND PTE_U = 0 then Ret 0 s
     else Ret (P2V (PTE_ADDR (load32 (mem s) pte))) s)"

definition copyout_size :: "uint \<Rightarrow> nat" where
  "copyout_size va = unat (PGSIZE + 1 - (va - PGROUNDDOWN va))"

lemma page_offset: "unat (va - PGROUNDDOWN va) = unat va mod 4096"
proof -
  have "unat (PGROUNDDOWN va) \<le> unat va" by (simp add: unat_PGROUNDDOWN)
  then have "unat (va - PGROUNDDOWN va) = unat va - unat (PGROUNDDOWN va)" by (simp add: unat_sub word_le_nat_alt)
  then show ?thesis by (simp add: unat_PGROUNDDOWN minus_div_mult_eq_mod)
qed

lemma copyout_size: "copyout_size va = 4097 - unat va mod 4096"
proof -
  have "unat va mod 4096 < 4096" by simp
  then have "va - PGROUNDDOWN va \<le> 4097" using page_offset [of va] by (simp add: word_le_nat_alt)
  then show ?thesis by (simp add: copyout_size_def unat_sub page_offset)
qed

function copyout :: "uint \<Rightarrow> uint \<Rightarrow> uchar list \<Rightarrow> 'a kmem_state_scheme \<Rightarrow> ('a kmem_state_scheme, int) outcome" where
  "copyout pgdir va buf s =
     (if length buf > 0 then
        let va0 = PGROUNDDOWN va in
        andthen (uva2ka pgdir va0 s) (\<lambda>pa0 s.
        if pa0 = 0 then Ret (- 1) s
        else
          let n = min (copyout_size va) (length buf) in
          copyout pgdir (va0 + PGSIZE) (drop n buf) (s\<lparr>mem := put_bytes (pa0 + (va - va0)) (take n buf) (mem s)\<rparr>))
      else Ret 0 s)"
  by pat_completeness auto
termination
  by (relation "measure (\<lambda>(pgdir, va, buf, s). length buf)") (auto simp: copyout_size)

declare copyout.simps [simp del]

definition loaduvm_one :: "uint \<Rightarrow> uint \<Rightarrow> nat \<Rightarrow> uint \<Rightarrow> uint \<Rightarrow> nat \<Rightarrow> 'a con_state_scheme \<Rightarrow> ('a con_state_scheme, unit option) outcome" where
  "loaduvm_one pgdir addr ip offset sz i s =
     andthen (walkpgdir pgdir (addr + of_nat i) False s) (\<lambda>pte s.
     if pte = 0 then Panic ''loaduvm: address should exist''
     else
       let pa = PTE_ADDR (load32 (mem s) pte);
           n = (if sz - of_nat i < PGSIZE then sz - of_nat i else PGSIZE) in
       andthen (readi ip (offset + of_nat i) n s) (\<lambda>(r, bs) s.
       let s = s\<lparr>mem := put_bytes (P2V pa) bs (mem s)\<rparr> in
       Ret (if of_int r \<noteq> n then Some () else None) s))"

definition loaduvm :: "uint \<Rightarrow> uint \<Rightarrow> nat \<Rightarrow> uint \<Rightarrow> uint \<Rightarrow> 'a con_state_scheme \<Rightarrow> ('a con_state_scheme, int) outcome" where
  "loaduvm pgdir addr ip offset sz s =
     (if addr mod PGSIZE \<noteq> 0 then Panic ''loaduvm: addr must be page aligned''
      else
        andthen (for_until (map (\<lambda>k. k * 4096) [0..<(unat sz + 4095) div 4096]) (loaduvm_one pgdir addr ip offset sz) s) (\<lambda>r s.
        Ret (if r = None then 0 else - 1) s))"

section \<open>Memory as the processor sees it\<close>

text \<open>
  The translation of the paging hardware: the kernel address behind a virtual address, or \<open>None\<close>
  where an access faults. In kernel mode the user bit is not tested.
\<close>

definition pte_at :: "memory \<Rightarrow> uint \<Rightarrow> uint \<Rightarrow> uint" where
  "pte_at m pgdir va =
     (let pde = load32 m (pde_addr pgdir va) in
      if pde AND PTE_P \<noteq> 0 then load32 m (P2V (PTE_ADDR pde) + 4 * PTX va) else 0)"

definition translate :: "memory \<Rightarrow> uint \<Rightarrow> uint \<Rightarrow> uint option" where
  "translate m pgdir va =
     (let pte = pte_at m pgdir va in
      if pte AND PTE_P \<noteq> 0 then Some (P2V (PTE_ADDR pte) + va mod PGSIZE) else None)"

definition user_load :: "memory \<Rightarrow> uint \<Rightarrow> uint \<Rightarrow> uchar option" where
  "user_load m pgdir va = map_option m (translate m pgdir va)"

fun user_store :: "uint \<Rightarrow> uint \<Rightarrow> uchar list \<Rightarrow> memory \<Rightarrow> memory option" where
  "user_store pgdir va [] m = Some m"
| "user_store pgdir va (b # bs) m =
     (case translate m pgdir va of None \<Rightarrow> None | Some a \<Rightarrow> user_store pgdir (va + 1) bs (m(a := b)))"

end
