(* ===== verification/Xv6_Proc.thy ===== *)
theory Xv6_Proc
  imports Xv6_File Xv6_Vm
begin

text \<open>
  Processes (\<^verbatim>\<open>proc.c\<close>): creation, exit and reaping, killing, and the scheduler. A pointer to a
  process is its index in \<^verbatim>\<open>ptable.proc\<close>. The trap frame and the saved context, which the kernel
  keeps on the process's kernel stack, are fields of the process; of the words on a new stack
  only the return address \<^verbatim>\<open>trapret\<close> is stored in memory.
\<close>

section \<open>Creation\<close>

definition zero_context :: kcontext where
  "zero_context = \<lparr>c_edi = 0, c_esi = 0, c_ebx = 0, c_ebp = 0, c_eip = 0\<rparr>"

definition allocproc :: "'a kmem_state_scheme \<Rightarrow> ('a kmem_state_scheme, nat option) outcome" where
  "allocproc s =
     (case find (\<lambda>p. p_state (ptable s p) = UNUSED) [0..<NPROC] of
        None \<Rightarrow> Ret None s
      | Some p \<Rightarrow>
          let s = upd_proc p (\<lambda>q. q\<lparr>p_state := EMBRYO, p_pid := nextpid s\<rparr>) s;
              s = s\<lparr>nextpid := nextpid s + 1\<rparr> in
          andthen (kalloc s) (\<lambda>stk s.
          let s = upd_proc p (\<lambda>q. q\<lparr>p_kstack := stk\<rparr>) s in
          if stk = 0 then Ret None (upd_proc p (\<lambda>q. q\<lparr>p_state := UNUSED\<rparr>) s)
          else
            let sp = stk + of_nat KSTACKSIZE - 76 - 4;
                s = s\<lparr>mem := store32 sp (sym_trapret (syms s)) (mem s)\<rparr>;
                s = upd_proc p (\<lambda>q. q\<lparr>p_context := zero_context\<lparr>c_eip := sym_forkret (syms s)\<rparr>, p_priority := 1, p_timecpu := 0\<rparr>) s in
            Ret (Some p) s))"

definition zero_tf :: trapframe where
  "zero_tf = \<lparr>tf_edi = 0, tf_esi = 0, tf_ebp = 0, tf_oesp = 0, tf_ebx = 0, tf_edx = 0, tf_ecx = 0, tf_eax = 0,
     tf_gs = 0, tf_fs = 0, tf_es = 0, tf_ds = 0, tf_trapno = 0, tf_err = 0, tf_eip = 0, tf_cs = 0, tf_eflags = 0, tf_esp = 0, tf_ss = 0\<rparr>"

abbreviation "DPL_USER \<equiv> (3::ushort)"
abbreviation "FL_IF \<equiv> (0x200::uint)"

definition user_tf :: trapframe where
  "user_tf = zero_tf\<lparr>tf_cs := push_bit 3 4 OR DPL_USER, tf_ds := push_bit 3 5 OR DPL_USER, tf_es := push_bit 3 5 OR DPL_USER,
     tf_ss := push_bit 3 5 OR DPL_USER, tf_eflags := FL_IF, tf_esp := PGSIZE, tf_eip := 0\<rparr>"

text \<open>The first process; its code, linked into the kernel as a binary file, is an argument.\<close>

definition userinit :: "uchar list \<Rightarrow> 'a con_state_scheme \<Rightarrow> ('a con_state_scheme, unit) outcome" where
  "userinit initcode s =
     andthen (acquire LkPtable s) (\<lambda>_ s.
     andthen (allocproc s) (\<lambda>p s.
     let s = s\<lparr>initproc := p\<rparr> in
     case p of None \<Rightarrow> Undef ''userinit: p''
     | Some p \<Rightarrow>
         andthen (setupkvm s) (\<lambda>d s.
         let s = upd_proc p (\<lambda>q. q\<lparr>p_pgdir := d\<rparr>) s in
         if d = 0 then Panic ''userinit: out of memory?''
         else
           andthen (inituvm d initcode s) (\<lambda>_ s.
           let s = upd_proc p (\<lambda>q. q\<lparr>p_sz := PGSIZE, p_tf := user_tf, p_name := ''initcode''\<rparr>) s in
           andthen (namei [47] s) (\<lambda>ip s.
           release LkPtable (upd_proc p (\<lambda>q. q\<lparr>p_cwd := ip, p_state := RUNNABLE\<rparr>) s))))))"

definition growproc :: "int \<Rightarrow> 'a kmem_state_scheme \<Rightarrow> ('a kmem_state_scheme, int) outcome" where
  "growproc n s =
     (case curproc s of
        None \<Rightarrow> Undef ''growproc: proc''
      | Some p \<Rightarrow>
          let sz = p_sz (ptable s p); d = p_pgdir (ptable s p) in
          andthen (if n > 0 then allocuvm d sz (sz + of_int n) s
                   else if n < 0 then deallocuvm d sz (sz + of_int n) s
                   else Ret sz s) (\<lambda>sz s.
          if n \<noteq> 0 \<and> sz = 0 then Ret (- 1) s
          else andthen (switchuvm p (upd_proc p (\<lambda>q. q\<lparr>p_sz := sz\<rparr>) s)) (\<lambda>_ s. Ret 0 s)))"

definition fork_file :: "nat \<Rightarrow> nat \<Rightarrow> nat \<Rightarrow> 'a file_state_scheme \<Rightarrow> ('a file_state_scheme, unit) outcome" where
  "fork_file p np i s =
     (case p_ofile (ptable s p) i of
        None \<Rightarrow> Ret () s
      | Some f \<Rightarrow> andthen (filedup f s) (\<lambda>f s. Ret () (upd_proc np (\<lambda>q. q\<lparr>p_ofile := (p_ofile q)(i := Some f)\<rparr>) s)))"

text \<open>\<^verbatim>\<open>fork\<close> compares the result of \<^verbatim>\<open>copyuvm\<close> with the address \<^verbatim>\<open>0x1000\<close>.\<close>

definition fork :: "'a file_state_scheme \<Rightarrow> ('a file_state_scheme, int) outcome" where
  "fork s =
     andthen (acquire LkPtable s) (\<lambda>_ s.
     andthen (allocproc s) (\<lambda>np s.
     case np of
       None \<Rightarrow> andthen (release LkPtable s) (\<lambda>_ s. Ret (- 1) s)
     | Some np \<Rightarrow>
         (case curproc s of
            None \<Rightarrow> Undef ''fork: proc''
          | Some p \<Rightarrow>
              andthen (copyuvm (p_pgdir (ptable s p)) (p_sz (ptable s p)) s) (\<lambda>d s.
              let s = upd_proc np (\<lambda>q. q\<lparr>p_pgdir := d\<rparr>) s in
              if d = 0x1000 then
                andthen (kfree (p_kstack (ptable s np)) s) (\<lambda>_ s.
                andthen (release LkPtable (upd_proc np (\<lambda>q. q\<lparr>p_kstack := 0, p_state := UNUSED\<rparr>) s)) (\<lambda>_ s.
                Ret (- 1) s))
              else
                let s = upd_proc np (\<lambda>q. q\<lparr>p_sz := p_sz (ptable s p), p_parent := Some p, p_tf := (p_tf (ptable s p))\<lparr>tf_eax := 0\<rparr>\<rparr>) s in
                andthen (for_each [0..<NOFILE] (fork_file p np) s) (\<lambda>_ s.
                case p_cwd (ptable s p) of
                  None \<Rightarrow> Undef ''fork: cwd''
                | Some cwd \<Rightarrow>
                    andthen (idup cwd s) (\<lambda>cwd s.
                    let s = upd_proc np (\<lambda>q. q\<lparr>p_cwd := Some cwd, p_name := take 15 (p_name (ptable s p))\<rparr>) s;
                        pid = p_pid (ptable s np) in
                    andthen (release LkPtable (upd_proc np (\<lambda>q. q\<lparr>p_state := RUNNABLE\<rparr>) s)) (\<lambda>_ s.
                    Ret pid s)))))))"

section \<open>Exit, wait and kill\<close>

text \<open>\<^verbatim>\<open>wakeup1\<close> for a channel that may be a null pointer: the parent of a process.\<close>

definition wakeup1_ptr :: "chan option \<Rightarrow> 'a kstate_scheme \<Rightarrow> 'a kstate_scheme" where
  "wakeup1_ptr ch s = s\<lparr>ptable := (\<lambda>i.
     if i < NPROC \<and> p_state (ptable s i) = SLEEPING \<and> p_chan (ptable s i) = ch
     then (ptable s i)\<lparr>p_state := RUNNABLE\<rparr> else ptable s i)\<rparr>"

definition exit_close :: "nat \<Rightarrow> nat \<Rightarrow> 'a file_state_scheme \<Rightarrow> ('a file_state_scheme, unit) outcome" where
  "exit_close p fd s =
     (case p_ofile (ptable s p) fd of
        None \<Rightarrow> Ret () s
      | Some f \<Rightarrow> andthen (fileclose f s) (\<lambda>_ s. Ret () (upd_proc p (\<lambda>q. q\<lparr>p_ofile := (p_ofile q)(fd := None)\<rparr>) s)))"

definition abandon :: "nat \<Rightarrow> nat \<Rightarrow> 'a kstate_scheme \<Rightarrow> 'a kstate_scheme" where
  "abandon me p s =
     (if p_parent (ptable s p) = Some me then
        let s = upd_proc p (\<lambda>q. q\<lparr>p_parent := initproc s\<rparr>) s in
        if p_state (ptable s p) = ZOMBIE then wakeup1_ptr (map_option ChProc (initproc s)) s else s
      else s)"

definition exit :: "'a file_state_scheme \<Rightarrow> ('a file_state_scheme, unit) outcome" where
  "exit s =
     (case curproc s of
        None \<Rightarrow> Undef ''exit: proc''
      | Some p \<Rightarrow>
          if curproc s = initproc s then Panic ''init exiting''
          else
            andthen (for_each [0..<NOFILE] (exit_close p) s) (\<lambda>_ s.
            andthen (begin_op s) (\<lambda>_ s.
            case p_cwd (ptable s p) of
              None \<Rightarrow> Undef ''exit: cwd''
            | Some cwd \<Rightarrow>
                andthen (iput cwd s) (\<lambda>_ s.
                andthen (end_op s) (\<lambda>_ s.
                andthen (acquire LkPtable (upd_proc p (\<lambda>q. q\<lparr>p_cwd := None\<rparr>) s)) (\<lambda>_ s.
                let s = wakeup1_ptr (map_option ChProc (p_parent (ptable s p))) s;
                    s = fold (abandon p) [0..<NPROC] s in
                andthen (sched (upd_proc p (\<lambda>q. q\<lparr>p_state := ZOMBIE\<rparr>) s)) (\<lambda>_ _. Panic ''zombie exit'')))))))"

text \<open>The body of the loop of \<^verbatim>\<open>wait\<close>, entered again when the parent is woken up.\<close>

definition wait_loop :: "'a kmem_state_scheme \<Rightarrow> ('a kmem_state_scheme, int) outcome" where
  "wait_loop s =
     (case curproc s of
        None \<Rightarrow> Undef ''wait: proc''
      | Some me \<Rightarrow>
          (case find (\<lambda>p. p_parent (ptable s p) = Some me \<and> p_state (ptable s p) = ZOMBIE) [0..<NPROC] of
             Some p \<Rightarrow>
               let pid = p_pid (ptable s p) in
               andthen (kfree (p_kstack (ptable s p)) s) (\<lambda>_ s.
               let s = upd_proc p (\<lambda>q. q\<lparr>p_kstack := 0\<rparr>) s in
               andthen (freevm (p_pgdir (ptable s p)) s) (\<lambda>_ s.
               andthen (release LkPtable (upd_proc p (\<lambda>q. q\<lparr>p_pid := 0, p_parent := None, p_name := [], p_killed := False, p_state := UNUSED\<rparr>) s)) (\<lambda>_ s.
               Ret pid s)))
           | None \<Rightarrow>
               if (\<forall>p<NPROC. p_parent (ptable s p) \<noteq> Some me) \<or> p_killed (ptable s me)
               then andthen (release LkPtable s) (\<lambda>_ s. Ret (- 1) s)
               else andthen (sleep (ChProc me) LkPtable s) (\<lambda>_ _. Undef ''wait: sleep'')))"

definition wait :: "'a kmem_state_scheme \<Rightarrow> ('a kmem_state_scheme, int) outcome" where
  "wait s = andthen (acquire LkPtable s) (\<lambda>_ s. wait_loop s)"

definition wait_resume :: "'a kmem_state_scheme \<Rightarrow> ('a kmem_state_scheme, int) outcome" where
  "wait_resume s = andthen (sleep_resume LkPtable s) (\<lambda>_ s. wait_loop s)"

definition kill :: "int \<Rightarrow> 'a kstate_scheme \<Rightarrow> ('a kstate_scheme, int) outcome" where
  "kill pid s =
     andthen (acquire LkPtable s) (\<lambda>_ s.
     case find (\<lambda>p. p_pid (ptable s p) = pid) [0..<NPROC] of
       Some p \<Rightarrow>
         andthen (release LkPtable (upd_proc p (\<lambda>q. q\<lparr>p_killed := True, p_state := (if p_state q = SLEEPING then RUNNABLE else p_state q)\<rparr>) s)) (\<lambda>_ s.
         Ret 0 s)
     | None \<Rightarrow> andthen (release LkPtable s) (\<lambda>_ s. Ret (- 1) s))"

section \<open>The scheduler\<close>

text \<open>The work at the head of each round: every 600000000 rounds, runnable processes get priority 1.\<close>

definition raise_priority :: "nat \<Rightarrow> 'a kstate_scheme \<Rightarrow> 'a kstate_scheme" where
  "raise_priority p s =
     (if p_state (ptable s p) = RUNNABLE \<and> p_priority (ptable s p) = 0
      then upd_proc p (\<lambda>q. q\<lparr>p_priority := 1\<rparr>) s else s)"

definition scheduler_head :: "'a kstate_scheme \<Rightarrow> 'a kstate_scheme" where
  "scheduler_head s =
     (let s = s\<lparr>prioritybump := prioritybump s + 1\<rparr> in
      if prioritybump s \<ge> 600000000
      then fold raise_priority [0..<NPROC] ((cputs (''Priority Shift!'' @ [CHR 0x0A]) s)\<lparr>prioritybump := 0\<rparr>)
      else s)"

definition dispatch :: "nat \<Rightarrow> 'a kstate_scheme \<Rightarrow> ('a kstate_scheme, unit) outcome" where
  "dispatch p s =
     andthen (switchuvm p (s\<lparr>curproc := Some p\<rparr>)) (\<lambda>_ s. Ret () (upd_proc p (\<lambda>q. q\<lparr>p_state := RUNNING\<rparr>) s))"

text \<open>
  One round of the scheduler's loop. What a process does from its dispatch until it switches back
  is the argument \<open>run\<close>. The list collects the processes dispatched.
\<close>

primrec scheduler_pass :: "(nat \<Rightarrow> 'a kstate_scheme \<Rightarrow> 'a kstate_scheme) \<Rightarrow> nat list \<Rightarrow> nat list \<Rightarrow> 'a kstate_scheme \<Rightarrow> ('a kstate_scheme, nat list) outcome" where
  "scheduler_pass run [] ds s = Ret ds s"
| "scheduler_pass run (p # ps) ds s =
     (if p_state (ptable s p) = RUNNABLE then
        andthen (dispatch p s) (\<lambda>_ s.
        let s = (switchkvm (run p s))\<lparr>curproc := None\<rparr> in
        scheduler_pass run ps (ds @ [p]) s)
      else scheduler_pass run ps ds s)"

definition scheduler_round :: "(nat \<Rightarrow> 'a kstate_scheme \<Rightarrow> 'a kstate_scheme) \<Rightarrow> 'a kstate_scheme \<Rightarrow> ('a kstate_scheme, nat list) outcome" where
  "scheduler_round run s =
     andthen (acquire LkPtable (scheduler_head s)) (\<lambda>_ s.
     andthen (scheduler_pass run [0..<NPROC] [] s) (\<lambda>ds s.
     andthen (release LkPtable s) (\<lambda>_ s. Ret ds s)))"

text \<open>\<^verbatim>\<open>forkret\<close>: its static variable \<^verbatim>\<open>first\<close> is an argument and part of the result.\<close>

definition forkret :: "bool \<Rightarrow> 'a con_state_scheme \<Rightarrow> ('a con_state_scheme, bool) outcome" where
  "forkret first s =
     andthen (release LkPtable s) (\<lambda>_ s.
     if first then andthen (iinit ROOTDEV s) (\<lambda>_ s. andthen (initlog ROOTDEV s) (\<lambda>_ s. Ret False s))
     else Ret False s)"

end
