(* ===== verification/Xv6_Sched.thy ===== *)
theory Xv6_Sched
  imports Xv6_Proc "HOL-Library.Sublist"
begin

text \<open>
  Properties of processes and of the scheduler: each round of the scheduler runs every process that
  stays runnable, exactly once and in table order; and two places where process creation goes wrong.
\<close>

section \<open>Rounds of the scheduler\<close>

text \<open>
  What the scheduler relies on about the execution of a process between its dispatch and its
  switch back: it does not make another runnable process stop being runnable, no runnable process
  is without a page table, and it comes back holding \<^verbatim>\<open>ptable.lock\<close> again.
\<close>

definition has_pgdirs :: "'a kstate_scheme \<Rightarrow> bool" where
  "has_pgdirs s \<longleftrightarrow> (\<forall>i<NPROC. p_state (ptable s i) = RUNNABLE \<longrightarrow> p_pgdir (ptable s i) \<noteq> 0)"

definition well_behaved :: "(nat \<Rightarrow> 'a kstate_scheme \<Rightarrow> 'a kstate_scheme) \<Rightarrow> bool" where
  "well_behaved run \<longleftrightarrow> (\<forall>p s. (\<forall>i. i \<noteq> p \<longrightarrow> p_state (ptable s i) = RUNNABLE \<longrightarrow> p_state (ptable (run p s) i) = RUNNABLE)
     \<and> (has_pgdirs s \<longrightarrow> has_pgdirs (run p s)) \<and> held (run p s) = held s)"

lemma dispatch_ready:
  assumes "p_pgdir (ptable s p) \<noteq> 0"
  shows "dispatch p s = Ret () (upd_proc p (\<lambda>q. q\<lparr>p_state := RUNNING\<rparr>)
    (s\<lparr>curproc := Some p, ts_esp0 := p_kstack (ptable s p) + of_nat KSTACKSIZE, cr3 := V2P (p_pgdir (ptable s p))\<rparr>))"
  using assms by (simp add: dispatch_def switchuvm_def Let_def)

lemma scheduler_pass_runs:
  assumes "well_behaved run" "has_pgdirs s" "distinct ps" "set ps \<subseteq> {..<NPROC}"
  shows "returns (scheduler_pass run ps ds s) (\<lambda>es t. held t = held s \<and> (\<exists>new. es = ds @ new \<and> subseq new ps
     \<and> (\<forall>q\<in>set ps. p_state (ptable s q) = RUNNABLE \<longrightarrow> q \<in> set new)))"
  using assms(2-4)
proof (induction ps arbitrary: ds s)
  case (Cons p ps)
  show ?case
  proof (cases "p_state (ptable s p) = RUNNABLE")
    case True
    have "p_pgdir (ptable s p) \<noteq> 0" using Cons.prems True by (simp add: has_pgdirs_def)
    from dispatch_ready [OF this] obtain u where d: "dispatch p s = Ret () u"
      and u: "\<And>i. ptable u i = (if i = p then (ptable s p)\<lparr>p_state := RUNNING\<rparr> else ptable s i)" by auto
    let ?t = "(switchkvm (run p u))\<lparr>curproc := None\<rparr>"
    have pt: "ptable ?t = ptable (run p u)" by (simp add: switchkvm_def)
    have "has_pgdirs u" using Cons.prems(1) u by (simp add: has_pgdirs_def)
    then have t: "has_pgdirs ?t" using assms(1) unfolding has_pgdirs_def [of ?t] pt by (simp add: well_behaved_def has_pgdirs_def)
    have h: "held ?t = held s" using assms(1) d \<open>p_pgdir (ptable s p) \<noteq> 0\<close> dispatch_ready [of s p] by (auto simp: switchkvm_def well_behaved_def)
    have keep: "p_state (ptable ?t q) = RUNNABLE" if "q \<in> set ps" "p_state (ptable s q) = RUNNABLE" for q
    proof -
      have n: "q \<noteq> p" using that(1) Cons.prems(2) by auto
      then have "p_state (ptable u q) = RUNNABLE" using that(2) u by simp
      then show ?thesis using assms(1) n unfolding pt well_behaved_def by blast
    qed
    have "scheduler_pass run (p # ps) ds s = scheduler_pass run ps (ds @ [p]) ?t" using True d by (simp add: Let_def)
    moreover have "returns (scheduler_pass run ps (ds @ [p]) ?t) (\<lambda>es t. held t = held ?t \<and> (\<exists>new. es = (ds @ [p]) @ new \<and> subseq new ps
       \<and> (\<forall>q\<in>set ps. p_state (ptable ?t q) = RUNNABLE \<longrightarrow> q \<in> set new)))"
      using Cons.prems by (intro Cons.IH t) auto
    ultimately show ?thesis
      unfolding h by (auto elim!: returns_mono) (use keep in \<open>auto intro!: exI [of _ "p # _"]\<close>)
  next
    case False
    then have "scheduler_pass run (p # ps) ds s = scheduler_pass run ps ds s" by simp
    moreover have "returns (scheduler_pass run ps ds s) (\<lambda>es t. held t = held s \<and> (\<exists>new. es = ds @ new \<and> subseq new ps
       \<and> (\<forall>q\<in>set ps. p_state (ptable s q) = RUNNABLE \<longrightarrow> q \<in> set new)))"
      using Cons.prems by (intro Cons.IH) auto
    ultimately show ?thesis using False by (auto elim!: returns_mono)
  qed
qed auto

lemma scheduler_head_fields:
  "p_state (ptable (scheduler_head s) i) = p_state (ptable s i)" "p_pgdir (ptable (scheduler_head s) i) = p_pgdir (ptable s i)"
  "held (scheduler_head s) = held s"
proof -
  have "p_state (ptable (fold raise_priority ps s) i) = p_state (ptable s i) \<and> p_pgdir (ptable (fold raise_priority ps s) i) = p_pgdir (ptable s i)
    \<and> held (fold raise_priority ps s) = held s" for ps and s :: "'a kstate_scheme"
    by (induction ps arbitrary: s) (auto simp: raise_priority_def)
  then show "p_state (ptable (scheduler_head s) i) = p_state (ptable s i)" "p_pgdir (ptable (scheduler_head s) i) = p_pgdir (ptable s i)"
    "held (scheduler_head s) = held s" by (simp_all add: scheduler_head_def Let_def cputs_def)
qed

text \<open>
  \<^bold>\<open>C19.\<close> No runnable process is passed over. Provided processes, once dispatched, come back and leave
  each other runnable, a round of the scheduler terminates without panicking, dispatches processes in
  the order of the table, each at most once, and dispatches every process that was runnable when
  the round began.
\<close>
theorem scheduler_runs_every_process:
  assumes "well_behaved run" "has_pgdirs s" "LkPtable \<notin> held s"
  shows "returns (scheduler_round run s) (\<lambda>ds t. subseq ds [0..<NPROC] \<and> held t = held s
     \<and> (\<forall>q<NPROC. p_state (ptable s q) = RUNNABLE \<longrightarrow> q \<in> set ds))"
proof -
  let ?s = "(scheduler_head s)\<lparr>held := insert LkPtable (held s)\<rparr>"
  have h: "has_pgdirs ?s" using assms(2) by (simp add: has_pgdirs_def scheduler_head_fields)
  have a: "acquire LkPtable (scheduler_head s) = Ret () ?s" using assms(3) by (simp add: scheduler_head_fields)
  have "returns (scheduler_pass run [0..<NPROC] [] ?s) (\<lambda>es t. held t = held ?s \<and> (\<exists>new. es = [] @ new \<and> subseq new [0..<NPROC]
     \<and> (\<forall>q\<in>set [0..<NPROC]. p_state (ptable ?s q) = RUNNABLE \<longrightarrow> q \<in> set new)))"
    by (rule scheduler_pass_runs [OF assms(1) h]) auto
  then show ?thesis unfolding scheduler_round_def a andthen_simps
    by (rule returns_andthenI) (use assms(3) in \<open>auto simp: scheduler_head_fields\<close>)
qed

text \<open>A process that yields at once; three of them.\<close>

definition yields_at_once :: "nat \<Rightarrow> kstate \<Rightarrow> kstate" where
  "yields_at_once p s = upd_proc p (\<lambda>q. if p_pgdir q \<noteq> 0 then q\<lparr>p_state := RUNNABLE\<rparr> else q) s"

definition three_ready :: kstate where
  "three_ready = undefined\<lparr>held := {}, ptable := (\<lambda>i. (undefined :: proc)\<lparr>p_state := (if i \<in> {3, 7, 40} then RUNNABLE else UNUSED), p_pgdir := 0x80400000, p_priority := 0\<rparr>)\<rparr>"

theorem scheduler_runs_every_process_witness:
  "returns (scheduler_round yields_at_once three_ready) (\<lambda>ds t. {3, 7, 40} \<subseteq> set ds)"
proof -
  have "well_behaved yields_at_once" by (auto simp: well_behaved_def yields_at_once_def has_pgdirs_def)
  moreover have "has_pgdirs three_ready" "LkPtable \<notin> held three_ready" by (simp_all add: has_pgdirs_def three_ready_def)
  ultimately have "returns (scheduler_round yields_at_once three_ready) (\<lambda>ds t. subseq ds [0..<NPROC] \<and> held t = held three_ready
     \<and> (\<forall>q<NPROC. p_state (ptable three_ready q) = RUNNABLE \<longrightarrow> q \<in> set ds))"
    by (rule scheduler_runs_every_process)
  then show ?thesis by (rule returns_mono) (simp add: three_ready_def)
qed

section \<open>Creating processes\<close>

lemma upd_proc_more [simp]:
  "freelist (upd_proc i f s) = freelist s" "use_lock (upd_proc i f s) = use_lock s" "kmem_state.more (upd_proc i f s) = kmem_state.more s"
  "ftable (upd_proc i f u) = ftable u" "icache (upd_proc i f v) = icache v"
  by (simp_all add: upd_proc_def)

lemma ftable_more: "kmem_state.more t = kmem_state.more s \<Longrightarrow> ftable t = ftable s"
  by (cases s, cases t) simp

lemma allocproc_last_page:
  assumes "free_pages s (k # ks)" "find (\<lambda>p. p_state (ptable s p) = UNUSED) [0..<NPROC] = Some np"
  shows "\<exists>t. allocproc s = Ret (Some np) t \<and> free_pages t ks \<and> held t = held s \<and> curproc t = curproc s \<and> (\<forall>i. i \<noteq> np \<longrightarrow> ptable t i = ptable s i)
    \<and> p_state (ptable t np) = EMBRYO \<and> p_pid (ptable t np) = nextpid s \<and> p_killed (ptable t np) = p_killed (ptable s np)
    \<and> kmem_state.more t = kmem_state.more s"
proof -
  define s1 where "s1 = (upd_proc np (\<lambda>q. q\<lparr>p_state := EMBRYO, p_pid := nextpid s\<rparr>) s)\<lparr>nextpid := nextpid s + 1\<rparr>"
  have f: "free_pages s1 (k # ks)" using assms(1) by (simp add: s1_def free_pages_def page_ok_def upd_proc_def)
  have k: "page_ok s k" "k \<notin> set ks" "k \<noteq> 0" using assms(1) page_ok_nonzero by (auto simp: free_pages_def)
  define s2 where "s2 = s1\<lparr>freelist := load32 (mem s1) k\<rparr>"
  have e: "kalloc s1 = Ret k s2" using kalloc_pop [OF f] by (simp add: s2_def)
  define sp where "sp = k + of_nat KSTACKSIZE - 76 - 4"
  define t where "t = upd_proc np (\<lambda>q. q\<lparr>p_context := zero_context\<lparr>c_eip := sym_forkret (syms s)\<rparr>, p_priority := 1, p_timecpu := 0\<rparr>)
    ((upd_proc np (\<lambda>q. q\<lparr>p_kstack := k\<rparr>) s2)\<lparr>mem := store32 sp (sym_trapret (syms s)) (mem s)\<rparr>)"
  have r: "allocproc s = Ret (Some np) t"
    using assms(2) e k(3) unfolding allocproc_def Let_def s1_def [symmetric]
    by (simp add: t_def s2_def sp_def) (simp add: s1_def)
  have ld: "load32 (store32 sp w (mem s)) q = load32 (mem s) q" if "q \<in> set ks" for q w
  proof (rule load32_other_page [of k])
    have "page_ok s q" using assms(1) that by (simp add: free_pages_def)
    then show "k mod PGSIZE = 0" "q mod PGSIZE = 0" "k \<noteq> q" using k that by (auto simp: page_ok_def)
    fix x assume x: "page_no x \<noteq> page_no k"
    have "x \<noteq> sp + i" if "unat i < 4" for i
    proof -
      have "sp + i = k + (4016 + i)" by (simp add: sp_def algebra_simps)
      moreover have "unat (4016 + i) < 4096" using that by (simp add: unat_word_ariths)
      ultimately show ?thesis using x page_no_offset [of k "4016 + i"] k(1) by (auto simp: page_ok_def add.assoc)
    qed
    from this [of 0] this [of 1] this [of 2] this [of 3] show "store32 sp w (mem s) x = mem s x" by (simp add: store32_def)
  qed
  have "free_pages s2 ks" using free_pages_tail [OF f] by (simp add: s2_def)
  then have "free_pages t ks"
    using chain_cong [of ks "mem s" "store32 sp (sym_trapret (syms s)) (mem s)"] ld
    by (simp add: free_pages_def t_def s2_def s1_def page_ok_def)
  then show ?thesis using r by (intro exI [of _ t]) (simp add: t_def s2_def s1_def upd_proc_def)
qed

lemma copyuvm_no_memory: "free_pages s [] \<Longrightarrow> copyuvm pgdir sz s = Ret 0 s"
  by (simp add: copyuvm_def setupkvm_def kalloc_empty)

lemma fork_files:
  assumes "LkFtable \<notin> held s" "np \<noteq> p" "\<And>i f. p_ofile (ptable s p) i = Some f \<Longrightarrow> 1 \<le> f_ref (ftable s f)"
  shows "returns (for_each [0..<NOFILE] (fork_file p np) s) (\<lambda>_ t. held t = held s \<and> (\<forall>i. i \<noteq> np \<longrightarrow> ptable t i = ptable s i)
     \<and> p_pgdir (ptable t np) = p_pgdir (ptable s np) \<and> p_pid (ptable t np) = p_pid (ptable s np))"
proof -
  let ?P = "\<lambda>(_::nat) t. held t = held s \<and> (\<forall>i. i \<noteq> np \<longrightarrow> ptable t i = ptable s i)
     \<and> p_pgdir (ptable t np) = p_pgdir (ptable s np) \<and> p_pid (ptable t np) = p_pid (ptable s np) \<and> (\<forall>f. f_ref (ftable s f) \<le> f_ref (ftable t f))"
  have "returns (for_each [0..<NOFILE] (fork_file p np) s) (\<lambda>_. ?P NOFILE)"
  proof (rule returns_for_upto)
    fix i and t :: "'a file_state_scheme"
    assume t: "?P i t"
    show "returns (fork_file p np i t) (\<lambda>_. ?P (Suc i))"
    proof (cases "p_ofile (ptable t p) i")
      case None
      then show ?thesis using t by (simp add: fork_file_def)
    next
      case (Some f)
      then have f: "p_ofile (ptable s p) i = Some f" using t assms(2) by auto
      then have "1 \<le> f_ref (ftable t f)" using assms(3) [OF f] t by (meson order_trans)
      then show ?thesis using t Some assms(1) by (auto simp: fork_file_def filedup_def upd_file_def upd_proc_def intro: add_increasing2)
    qed
  qed auto
  then show ?thesis by (rule returns_mono) blast
qed

text \<open>
  \<^bold>\<open>C38.\<close> \<^verbatim>\<open>fork\<close> does not notice that memory ran out. With a single free page, which becomes the child's
  kernel stack, copying the address space fails with 0; \<^verbatim>\<open>fork\<close> compares that result with \<^verbatim>\<open>0x1000\<close>,
  returns the child's number as if it had succeeded, and leaves the child runnable without a page
  table; the scheduler panics as soon as it dispatches it.
\<close>
theorem fork_out_of_memory:
  assumes fp: "free_pages s [k]" and np: "find (\<lambda>p. p_state (ptable s p) = UNUSED) [0..<NPROC] = Some np"
    and p: "curproc s = Some p" "p_state (ptable s p) = RUNNING" "p_cwd (ptable s p) = Some c"
    and files: "\<And>i f. p_ofile (ptable s p) i = Some f \<Longrightarrow> 1 \<le> f_ref (ftable s f)"
    and lk: "LkPtable \<notin> held s" "LkFtable \<notin> held s" "LkIcache \<notin> held s"
  shows "returns (fork s) (\<lambda>r t. r = nextpid s \<and> p_state (ptable t np) = RUNNABLE \<and> p_pgdir (ptable t np) = 0
    \<and> dispatch np t = Panic ''switchuvm: no pgdir'')"
proof -
  let ?s = "s\<lparr>held := insert LkPtable (held s)\<rparr>"
  have "free_pages ?s [k]" using fp by (auto simp: free_pages_def page_ok_def)
  moreover have "find (\<lambda>p. p_state (ptable ?s p) = UNUSED) [0..<NPROC] = Some np" using np by simp
  ultimately obtain t where t: "allocproc ?s = Ret (Some np) t" "free_pages t []" "held t = held ?s" "curproc t = curproc ?s"
    "\<forall>i. i \<noteq> np \<longrightarrow> ptable t i = ptable ?s i" "p_pid (ptable t np) = nextpid ?s" "kmem_state.more t = kmem_state.more ?s"
    using allocproc_last_page by blast
  have n: "np \<noteq> p" using np p(2) by (auto simp: find_Some_iff)
  have ft: "ftable t = ftable s" using ftable_more [OF t(7)] by simp
  define u where "u = upd_proc np (\<lambda>q. q\<lparr>p_sz := p_sz (ptable s p), p_parent := Some p, p_tf := (p_tf (ptable s p))\<lparr>tf_eax := 0\<rparr>\<rparr>)
     (upd_proc np (\<lambda>q. q\<lparr>p_pgdir := 0\<rparr>) t)"
  have u: "held u = insert LkPtable (held s)" "\<forall>i. i \<noteq> np \<longrightarrow> ptable u i = ptable s i" "p_pgdir (ptable u np) = 0"
    "p_pid (ptable u np) = nextpid s" "ftable u = ftable s"
    using t ft n by (simp_all add: u_def)
  have loop: "returns (for_each [0..<NOFILE] (fork_file p np) u) (\<lambda>_ v. held v = held u \<and> (\<forall>i. i \<noteq> np \<longrightarrow> ptable v i = ptable u i)
     \<and> p_pgdir (ptable v np) = p_pgdir (ptable u np) \<and> p_pid (ptable v np) = p_pid (ptable u np))"
    by (rule fork_files) (use u n files lk in auto)
  then obtain v where v: "for_each [0..<NOFILE] (fork_file p np) u = Ret () v" "held v = held u" "\<forall>i. i \<noteq> np \<longrightarrow> ptable v i = ptable u i"
     "p_pgdir (ptable v np) = p_pgdir (ptable u np)" "p_pid (ptable v np) = p_pid (ptable u np)" by (auto simp: returns_def)
  have pv: "ptable v p = ptable s p" using v(3) u(2) n by auto
  have "returns (fork s) (\<lambda>r t. r = nextpid s \<and> p_state (ptable t np) = RUNNABLE \<and> p_pgdir (ptable t np) = 0)"
    unfolding fork_def using lk t p n copyuvm_no_memory [OF t(2)] v u pv
    by (simp add: Let_def u_def [symmetric] idup_def) (simp add: upd_inode_def)
  then show ?thesis by (rule returns_mono) (auto simp: dispatch_def switchuvm_def)
qed

text \<open>A process about to fork, with one page left.\<close>

definition one_page_left :: file_state where
  "one_page_left = undefined\<lparr>held := {}, curproc := Some 0, nextpid := 2, mem := (\<lambda>_. 0), syms := undefined\<lparr>sym_end := 0x80200000\<rparr>,
     use_lock := True, freelist := 0x80400000,
     ptable := (\<lambda>i. (undefined :: proc)\<lparr>p_state := (if i = 0 then RUNNING else UNUSED), p_pid := (if i = 0 then 1 else 0),
       p_ofile := (\<lambda>_. None), p_cwd := Some 0, p_killed := False\<rparr>)\<rparr>"

lemma one_page_left: "free_pages one_page_left [0x80400000]" "find (\<lambda>p. p_state (ptable one_page_left p) = UNUSED) [0..<NPROC] = Some 1"
  by (simp_all add: free_pages_def one_page_left_def load32_def page_ok_def V2P_def upt_rec)

theorem fork_out_of_memory_witness:
  "returns (fork one_page_left) (\<lambda>r t. r = 2 \<and> dispatch 1 t = Panic ''switchuvm: no pgdir'')"
proof -
  have "returns (fork one_page_left) (\<lambda>r t. r = nextpid one_page_left \<and> p_state (ptable t 1) = RUNNABLE \<and> p_pgdir (ptable t 1) = 0
    \<and> dispatch 1 t = Panic ''switchuvm: no pgdir'')"
    by (rule fork_out_of_memory [OF one_page_left, of 0 0]) (simp_all add: one_page_left_def)
  then show ?thesis by (rule returns_mono) (simp add: one_page_left_def)
qed

text \<open>
  \<^bold>\<open>C39.\<close> \<^verbatim>\<open>kill(0)\<close> hits a free slot. Slots that are not in use have the number 0, so \<^verbatim>\<open>kill\<close> with number 0
  reports success and marks such a slot; creating a process does not clear the mark, so the next
  process that gets the slot is born killed.
\<close>
theorem kill_zero_poisons_slot:
  assumes fp: "free_pages s (k # ks)" and lk: "LkPtable \<notin> held s"
    and i: "find (\<lambda>p. p_pid (ptable s p) = 0) [0..<NPROC] = Some i" "find (\<lambda>p. p_state (ptable s p) = UNUSED) [0..<NPROC] = Some i"
  shows "\<exists>t. kill 0 s = Ret 0 t \<and> returns (allocproc t) (\<lambda>r u. r = Some i \<and> p_killed (ptable u i))"
proof -
  let ?t = "upd_proc i (\<lambda>q. q\<lparr>p_killed := True, p_state := (if p_state q = SLEEPING then RUNNABLE else p_state q)\<rparr>) s"
  have "kill 0 s = Ret 0 ?t" using lk i(1) by (simp add: kill_def upd_proc_def)
  have st: "p_state (ptable ?t p) = p_state (ptable s p)" for p using i(2) by (auto simp: find_Some_iff)
  have "free_pages ?t (k # ks)" using fp by (simp add: free_pages_def page_ok_def)
  moreover have "find (\<lambda>p. p_state (ptable ?t p) = UNUSED) [0..<NPROC] = Some i" unfolding st by (rule i(2))
  ultimately obtain u where "allocproc ?t = Ret (Some i) u" "p_killed (ptable u i) = p_killed (ptable ?t i)"
    using allocproc_last_page by blast
  then show ?thesis using \<open>kill 0 s = Ret 0 ?t\<close> by auto
qed

theorem kill_zero_poisons_slot_witness:
  "\<exists>t. kill 0 one_page_left = Ret 0 t \<and> returns (allocproc t) (\<lambda>r u. r = Some 1 \<and> p_killed (ptable u 1))"
proof (rule kill_zero_poisons_slot [OF one_page_left(1)])
  show "LkPtable \<notin> held one_page_left" by (simp add: one_page_left_def)
  show "find (\<lambda>p. p_pid (ptable one_page_left p) = 0) [0..<NPROC] = Some 1"
    "find (\<lambda>p. p_state (ptable one_page_left p) = UNUSED) [0..<NPROC] = Some 1"
    by (simp_all add: one_page_left_def upt_rec)
qed

end
