(* ===== verification/Xv6_Sysfile.thy ===== *)
theory Xv6_Sysfile
  imports Xv6_Proc
begin

text \<open>
  Fetching system-call arguments (\<^verbatim>\<open>syscall.c\<close>) and the system calls on files (\<^verbatim>\<open>sysfile.c\<close>). The
  kernel reads and writes user memory through the page table of the running process; an access to
  an address that is not mapped is a page fault in the kernel. A result of -1 from a helper is
  \<open>None\<close>.
\<close>

section \<open>Arguments (syscall.c)\<close>

definition cur_pgdir :: "nat \<Rightarrow> 'a kstate_scheme \<Rightarrow> uint" where
  "cur_pgdir p s = p_pgdir (ptable s p)"

definition fetchint :: "uint \<Rightarrow> 'a kstate_scheme \<Rightarrow> ('a kstate_scheme, uint option) outcome" where
  "fetchint addr s =
     (case curproc s of
        None \<Rightarrow> Undef ''fetchint: proc''
      | Some p \<Rightarrow>
          if addr \<ge> p_sz (ptable s p) \<or> addr + 4 > p_sz (ptable s p) then Ret None s
          else
            case those (map (\<lambda>i. user_load (mem s) (cur_pgdir p s) (addr + of_nat i)) [0..<4]) of
              None \<Rightarrow> Undef ''page fault''
            | Some bs \<Rightarrow> Ret (Some (load32 (nth bs) 0)) s)"

text \<open>The string at \<open>addr\<close>: its characters up to the terminator, searched for below \<^verbatim>\<open>proc->sz\<close>.\<close>

primrec fetchstr_scan :: "nat \<Rightarrow> memory \<Rightarrow> uint \<Rightarrow> uint \<Rightarrow> uchar list \<Rightarrow> uchar list option option" where
  "fetchstr_scan 0 m pgdir a cs = Some None"
| "fetchstr_scan (Suc n) m pgdir a cs =
     (case user_load m pgdir a of
        None \<Rightarrow> None
      | Some c \<Rightarrow> if c = 0 then Some (Some cs) else fetchstr_scan n m pgdir (a + 1) (cs @ [c]))"

definition fetchstr :: "uint \<Rightarrow> 'a kstate_scheme \<Rightarrow> ('a kstate_scheme, uchar list option) outcome" where
  "fetchstr addr s =
     (case curproc s of
        None \<Rightarrow> Undef ''fetchstr: proc''
      | Some p \<Rightarrow>
          if addr \<ge> p_sz (ptable s p) then Ret None s
          else
            case fetchstr_scan (unat (p_sz (ptable s p)) - unat addr) (mem s) (cur_pgdir p s) addr [] of
              None \<Rightarrow> Undef ''page fault''
            | Some r \<Rightarrow> Ret r s)"

definition argint :: "nat \<Rightarrow> 'a kstate_scheme \<Rightarrow> ('a kstate_scheme, uint option) outcome" where
  "argint n s =
     (case curproc s of
        None \<Rightarrow> Undef ''argint: proc''
      | Some p \<Rightarrow> fetchint (tf_esp (p_tf (ptable s p)) + 4 + 4 * of_nat n) s)"

definition argptr :: "nat \<Rightarrow> uint \<Rightarrow> 'a kstate_scheme \<Rightarrow> ('a kstate_scheme, uint option) outcome" where
  "argptr n len s =
     andthen (argint n s) (\<lambda>r s.
     case (r, curproc s) of
       (Some i, Some p) \<Rightarrow>
         Ret (if i \<ge> p_sz (ptable s p) \<or> i + len > p_sz (ptable s p) then None else Some i) s
     | _ \<Rightarrow> Ret None s)"

definition argstr :: "nat \<Rightarrow> 'a kstate_scheme \<Rightarrow> ('a kstate_scheme, uchar list option) outcome" where
  "argstr n s = andthen (argint n s) (\<lambda>r s. case r of None \<Rightarrow> Ret None s | Some addr \<Rightarrow> fetchstr addr s)"

text \<open>Copying to the user memory of the running process.\<close>

definition put_user :: "uint \<Rightarrow> uchar list \<Rightarrow> 'a kstate_scheme \<Rightarrow> ('a kstate_scheme, unit) outcome" where
  "put_user va bs s =
     (case curproc s of
        None \<Rightarrow> Undef ''put_user: proc''
      | Some p \<Rightarrow> (case user_store (cur_pgdir p s) va bs (mem s) of None \<Rightarrow> Undef ''page fault'' | Some m \<Rightarrow> Ret () (s\<lparr>mem := m\<rparr>)))"

section \<open>Descriptors (sysfile.c)\<close>

definition argfd :: "nat \<Rightarrow> 'a kstate_scheme \<Rightarrow> ('a kstate_scheme, (nat \<times> nat) option) outcome" where
  "argfd n s =
     andthen (argint n s) (\<lambda>r s.
     case (r, curproc s) of
       (Some fd, Some p) \<Rightarrow>
         if sint fd < 0 \<or> sint fd \<ge> int NOFILE then Ret None s
         else (case p_ofile (ptable s p) (unat fd) of None \<Rightarrow> Ret None s | Some f \<Rightarrow> Ret (Some (unat fd, f)) s)
     | _ \<Rightarrow> Ret None s)"

definition fdalloc :: "nat \<Rightarrow> 'a kstate_scheme \<Rightarrow> ('a kstate_scheme, nat option) outcome" where
  "fdalloc f s =
     (case curproc s of
        None \<Rightarrow> Undef ''fdalloc: proc''
      | Some p \<Rightarrow>
          (case find (\<lambda>fd. p_ofile (ptable s p) fd = None) [0..<NOFILE] of
             None \<Rightarrow> Ret None s
           | Some fd \<Rightarrow> Ret (Some fd) (upd_proc p (\<lambda>q. q\<lparr>p_ofile := (p_ofile q)(fd := Some f)\<rparr>) s)))"

definition clear_fd :: "nat \<Rightarrow> 'a kstate_scheme \<Rightarrow> 'a kstate_scheme" where
  "clear_fd fd s = (case curproc s of None \<Rightarrow> s | Some p \<Rightarrow> upd_proc p (\<lambda>q. q\<lparr>p_ofile := (p_ofile q)(fd := None)\<rparr>) s)"

definition sys_dup :: "'a file_state_scheme \<Rightarrow> ('a file_state_scheme, int) outcome" where
  "sys_dup s =
     andthen (argfd 0 s) (\<lambda>r s.
     case r of None \<Rightarrow> Ret (- 1) s
     | Some (_, f) \<Rightarrow>
         andthen (fdalloc f s) (\<lambda>r s.
         case r of None \<Rightarrow> Ret (- 1) s
         | Some fd \<Rightarrow> andthen (filedup f s) (\<lambda>_ s. Ret (int fd) s)))"

definition sys_read :: "'a file_state_scheme \<Rightarrow> ('a file_state_scheme, int) outcome" where
  "sys_read s =
     andthen (argfd 0 s) (\<lambda>r s.
     case r of None \<Rightarrow> Ret (- 1) s
     | Some (_, f) \<Rightarrow>
         andthen (argint 2 s) (\<lambda>r s.
         case r of None \<Rightarrow> Ret (- 1) s
         | Some n \<Rightarrow>
             andthen (argptr 1 n s) (\<lambda>r s.
             case r of None \<Rightarrow> Ret (- 1) s
             | Some p \<Rightarrow>
                 andthen (fileread f (sint n) s) (\<lambda>(r, bs) s.
                 andthen (put_user p bs s) (\<lambda>_ s. Ret r s)))))"

text \<open>The source of a write is read byte by byte; a byte that is not mapped is a fault when the file is writable.\<close>

definition sys_write :: "'a file_state_scheme \<Rightarrow> ('a file_state_scheme, int) outcome" where
  "sys_write s =
     andthen (argfd 0 s) (\<lambda>r s.
     case r of None \<Rightarrow> Ret (- 1) s
     | Some (_, f) \<Rightarrow>
         andthen (argint 2 s) (\<lambda>r s.
         case r of None \<Rightarrow> Ret (- 1) s
         | Some n \<Rightarrow>
             andthen (argptr 1 n s) (\<lambda>r s.
             case (r, curproc s) of
               (Some a, Some p) \<Rightarrow>
                 let src = (\<lambda>i. user_load (mem s) (cur_pgdir p s) (a + of_nat i)) in
                 if f_writable (ftable s f) \<and> (\<exists>i<nat (sint n). src i = None) then Undef ''page fault''
                 else filewrite f (\<lambda>i. case src i of None \<Rightarrow> 0 | Some c \<Rightarrow> c) (sint n) s
             | _ \<Rightarrow> Ret (- 1) s)))"

definition sys_close :: "'a file_state_scheme \<Rightarrow> ('a file_state_scheme, int) outcome" where
  "sys_close s =
     andthen (argfd 0 s) (\<lambda>r s.
     case r of None \<Rightarrow> Ret (- 1) s
     | Some (fd, f) \<Rightarrow> andthen (fileclose f (clear_fd fd s)) (\<lambda>_ s. Ret 0 s))"

text \<open>The fields of \<^verbatim>\<open>struct stat\<close> are stored at their offsets; the padding is left alone.\<close>

definition put_stat :: "uint \<Rightarrow> stat \<Rightarrow> 'a kstate_scheme \<Rightarrow> ('a kstate_scheme, unit) outcome" where
  "put_stat a st s =
     andthen (put_user (a + 4) (map (\<lambda>i. byte i (st_dev st)) [0..<4]) s) (\<lambda>_ s.
     andthen (put_user (a + 8) (map (\<lambda>i. byte i (st_ino st)) [0..<4]) s) (\<lambda>_ s.
     andthen (put_user a (map (\<lambda>i. byte i (st_type st)) [0..<2]) s) (\<lambda>_ s.
     andthen (put_user (a + 12) (map (\<lambda>i. byte i (st_nlink st)) [0..<2]) s) (\<lambda>_ s.
     put_user (a + 16) (map (\<lambda>i. byte i (st_size st)) [0..<4]) s))))"

definition sys_fstat :: "'a file_state_scheme \<Rightarrow> ('a file_state_scheme, int) outcome" where
  "sys_fstat s =
     andthen (argfd 0 s) (\<lambda>r s.
     case r of None \<Rightarrow> Ret (- 1) s
     | Some (_, f) \<Rightarrow>
         andthen (argptr 1 20 s) (\<lambda>r s.
         case r of None \<Rightarrow> Ret (- 1) s
         | Some a \<Rightarrow>
             andthen (filestat f s) (\<lambda>r s.
             case r of None \<Rightarrow> Ret (- 1) s
             | Some st \<Rightarrow> andthen (put_stat a st s) (\<lambda>_ s. Ret 0 s))))"

section \<open>Links\<close>

text \<open>Leaving a system call with -1, at the end of its transaction.\<close>

definition fail_op :: "'a log_state_scheme \<Rightarrow> ('a log_state_scheme, int) outcome" where
  "fail_op s = andthen (end_op s) (\<lambda>_ s. Ret (- 1) s)"

definition sys_link_bad :: "nat \<Rightarrow> 'a fs_state_scheme \<Rightarrow> ('a fs_state_scheme, int) outcome" where
  "sys_link_bad ip s =
     andthen (ilock ip s) (\<lambda>_ s.
     andthen (iupdate ip (upd_inode ip (\<lambda>i. i\<lparr>i_nlink := i_nlink i - 1\<rparr>) s)) (\<lambda>_ s.
     andthen (iunlockput ip s) (\<lambda>_ s. fail_op s)))"

definition sys_link :: "'a con_state_scheme \<Rightarrow> ('a con_state_scheme, int) outcome" where
  "sys_link s =
     andthen (argstr 0 s) (\<lambda>old s.
     case old of None \<Rightarrow> Ret (- 1) s
     | Some old \<Rightarrow>
     andthen (argstr 1 s) (\<lambda>new s.
     case new of None \<Rightarrow> Ret (- 1) s
     | Some new \<Rightarrow>
     andthen (begin_op s) (\<lambda>_ s.
     andthen (namei old s) (\<lambda>r s.
     case r of None \<Rightarrow> fail_op s
     | Some ip \<Rightarrow>
     andthen (ilock ip s) (\<lambda>_ s.
     if i_type (icache s ip) = T_DIR then andthen (iunlockput ip s) (\<lambda>_ s. fail_op s)
     else
       andthen (iupdate ip (upd_inode ip (\<lambda>i. i\<lparr>i_nlink := i_nlink i + 1\<rparr>) s)) (\<lambda>_ s.
       andthen (iunlock ip s) (\<lambda>_ s.
       andthen (nameiparent new s) (\<lambda>r s.
       case r of None \<Rightarrow> sys_link_bad ip s
       | Some (dp, name) \<Rightarrow>
           andthen (ilock dp s) (\<lambda>_ s.
           andthen (if i_dev (icache s dp) \<noteq> i_dev (icache s ip) then Ret (- 1) s
                    else dirlink dp name (i_inum (icache s ip)) s) (\<lambda>r s.
           if r < 0 then andthen (iunlockput dp s) (\<lambda>_ s. sys_link_bad ip s)
           else
             andthen (iunlockput dp s) (\<lambda>_ s.
             andthen (iput ip s) (\<lambda>_ s.
             andthen (end_op s) (\<lambda>_ s. Ret 0 s)))))))))))))"

definition isdirempty_one :: "nat \<Rightarrow> nat \<Rightarrow> 'a con_state_scheme \<Rightarrow> ('a con_state_scheme, unit option) outcome" where
  "isdirempty_one dp off s =
     andthen (readi dp (of_nat off) 16 s) (\<lambda>(r, de) s.
     if r \<noteq> 16 then Panic ''isdirempty: readi'' else Ret (if de_inum de \<noteq> 0 then Some () else None) s)"

definition isdirempty :: "nat \<Rightarrow> 'a con_state_scheme \<Rightarrow> ('a con_state_scheme, bool) outcome" where
  "isdirempty dp s =
     andthen (for_until (drop 2 (dir_offs (i_size (icache s dp)))) (isdirempty_one dp) s) (\<lambda>r s. Ret (r = None) s)"

definition dot :: "nat \<Rightarrow> uchar" where
  "dot = cstr ''.''"

definition dotdot :: "nat \<Rightarrow> uchar" where
  "dotdot = cstr ''..''"

definition sys_unlink_bad :: "nat \<Rightarrow> 'a fs_state_scheme \<Rightarrow> ('a fs_state_scheme, int) outcome" where
  "sys_unlink_bad dp s = andthen (iunlockput dp s) (\<lambda>_ s. fail_op s)"

definition sys_unlink :: "'a con_state_scheme \<Rightarrow> ('a con_state_scheme, int) outcome" where
  "sys_unlink s =
     andthen (argstr 0 s) (\<lambda>path s.
     case path of None \<Rightarrow> Ret (- 1) s
     | Some path \<Rightarrow>
     andthen (begin_op s) (\<lambda>_ s.
     andthen (nameiparent path s) (\<lambda>r s.
     case r of None \<Rightarrow> fail_op s
     | Some (dp, name) \<Rightarrow>
     andthen (ilock dp s) (\<lambda>_ s.
     if namecmp name dot = 0 \<or> namecmp name dotdot = 0 then sys_unlink_bad dp s
     else
       andthen (dirlookup dp name s) (\<lambda>r s.
       case r of None \<Rightarrow> sys_unlink_bad dp s
       | Some (ip, off) \<Rightarrow>
           andthen (ilock ip s) (\<lambda>_ s.
           if sint (i_nlink (icache s ip)) < 1 then Panic ''unlink: nlink < 1''
           else
             andthen (if i_type (icache s ip) = T_DIR then isdirempty ip s else Ret True s) (\<lambda>empty s.
             if i_type (icache s ip) = T_DIR \<and> \<not> empty then
               andthen (iunlockput ip s) (\<lambda>_ s. sys_unlink_bad dp s)
             else
               andthen (writei dp (\<lambda>_. 0) off 16 s) (\<lambda>r s.
               if r \<noteq> 16 then Panic ''unlink: writei''
               else
                 andthen (if i_type (icache s ip) = T_DIR
                          then iupdate dp (upd_inode dp (\<lambda>i. i\<lparr>i_nlink := i_nlink i - 1\<rparr>) s) else Ret () s) (\<lambda>_ s.
                 andthen (iunlockput dp s) (\<lambda>_ s.
                 andthen (iupdate ip (upd_inode ip (\<lambda>i. i\<lparr>i_nlink := i_nlink i - 1\<rparr>) s)) (\<lambda>_ s.
                 andthen (iunlockput ip s) (\<lambda>_ s.
                 andthen (end_op s) (\<lambda>_ s. Ret 0 s)))))))))))))"

section \<open>Creating and opening\<close>

definition create :: "uchar list \<Rightarrow> ushort \<Rightarrow> ushort \<Rightarrow> ushort \<Rightarrow> 'a con_state_scheme \<Rightarrow> ('a con_state_scheme, nat option) outcome" where
  "create path ty major minor s =
     andthen (nameiparent path s) (\<lambda>r s.
     case r of None \<Rightarrow> Ret None s
     | Some (dp, name) \<Rightarrow>
     andthen (ilock dp s) (\<lambda>_ s.
     andthen (dirlookup dp name s) (\<lambda>r s.
     case r of
       Some (ip, _) \<Rightarrow>
         andthen (iunlockput dp s) (\<lambda>_ s.
         andthen (ilock ip s) (\<lambda>_ s.
         if ty = T_FILE \<and> i_type (icache s ip) = T_FILE then Ret (Some ip) s
         else andthen (iunlockput ip s) (\<lambda>_ s. Ret None s)))
     | None \<Rightarrow>
         andthen (ialloc (i_dev (icache s dp)) ty s) (\<lambda>ip s.
         andthen (ilock ip s) (\<lambda>_ s.
         andthen (iupdate ip (upd_inode ip (\<lambda>i. i\<lparr>i_major := major, i_minor := minor, i_nlink := 1\<rparr>) s)) (\<lambda>_ s.
         andthen
          (if ty = T_DIR then
             andthen (iupdate dp (upd_inode dp (\<lambda>i. i\<lparr>i_nlink := i_nlink i + 1\<rparr>) s)) (\<lambda>_ s.
             andthen (dirlink ip dot (i_inum (icache s ip)) s) (\<lambda>r s.
             if r < 0 then Panic ''create dots''
             else
               andthen (dirlink ip dotdot (i_inum (icache s dp)) s) (\<lambda>r s.
               if r < 0 then Panic ''create dots'' else Ret () s)))
           else Ret () s) (\<lambda>_ s.
         andthen (dirlink dp name (i_inum (icache s ip)) s) (\<lambda>r s.
         if r < 0 then Panic ''create: dirlink''
         else andthen (iunlockput dp s) (\<lambda>_ s. Ret (Some ip) s)))))))))"

abbreviation "O_RDONLY \<equiv> (0x000::uint)"
abbreviation "O_WRONLY \<equiv> (0x001::uint)"
abbreviation "O_RDWR \<equiv> (0x002::uint)"
abbreviation "O_CREATE \<equiv> (0x200::uint)"

text \<open>The first half of \<^verbatim>\<open>sys_open\<close>: the locked inode, or \<open>None\<close> when the call has failed and ended its transaction.\<close>

definition open_inode :: "uchar list \<Rightarrow> uint \<Rightarrow> 'a con_state_scheme \<Rightarrow> ('a con_state_scheme, nat option) outcome" where
  "open_inode path omode s =
     (if omode AND O_CREATE \<noteq> 0 then
        andthen (create path T_FILE 0 0 s) (\<lambda>r s.
        case r of None \<Rightarrow> andthen (end_op s) (\<lambda>_ s. Ret None s) | Some ip \<Rightarrow> Ret (Some ip) s)
      else
        andthen (namei path s) (\<lambda>r s.
        case r of None \<Rightarrow> andthen (end_op s) (\<lambda>_ s. Ret None s)
        | Some ip \<Rightarrow>
            andthen (ilock ip s) (\<lambda>_ s.
            if i_type (icache s ip) = T_DIR \<and> omode \<noteq> O_RDONLY
            then andthen (iunlockput ip s) (\<lambda>_ s. andthen (end_op s) (\<lambda>_ s. Ret None s))
            else Ret (Some ip) s)))"

definition open_bad :: "nat option \<Rightarrow> nat \<Rightarrow> 'a file_state_scheme \<Rightarrow> ('a file_state_scheme, int) outcome" where
  "open_bad f ip s =
     andthen (close_opt f s) (\<lambda>_ s.
     andthen (iunlockput ip s) (\<lambda>_ s. fail_op s))"

definition sys_open :: "'a file_state_scheme \<Rightarrow> ('a file_state_scheme, int) outcome" where
  "sys_open s =
     andthen (argstr 0 s) (\<lambda>path s.
     case path of None \<Rightarrow> Ret (- 1) s
     | Some path \<Rightarrow>
     andthen (argint 1 s) (\<lambda>omode s.
     case omode of None \<Rightarrow> Ret (- 1) s
     | Some omode \<Rightarrow>
     andthen (begin_op s) (\<lambda>_ s.
     andthen (open_inode path omode s) (\<lambda>r s.
     case r of None \<Rightarrow> Ret (- 1) s
     | Some ip \<Rightarrow>
     andthen (filealloc s) (\<lambda>f s.
     case f of None \<Rightarrow> open_bad None ip s
     | Some f \<Rightarrow>
     andthen (fdalloc f s) (\<lambda>fd s.
     case fd of None \<Rightarrow> open_bad (Some f) ip s
     | Some fd \<Rightarrow>
         andthen (iunlock ip s) (\<lambda>_ s.
         andthen (end_op s) (\<lambda>_ s.
         Ret (int fd) (upd_file f (\<lambda>k. k\<lparr>f_type := FD_INODE, f_ip := ip, f_off := 0, f_readable := (omode AND O_WRONLY = 0),
           f_writable := (omode AND O_WRONLY \<noteq> 0 \<or> omode AND O_RDWR \<noteq> 0)\<rparr>) s)))))))))"

definition sys_mkdir :: "'a con_state_scheme \<Rightarrow> ('a con_state_scheme, int) outcome" where
  "sys_mkdir s =
     andthen (begin_op s) (\<lambda>_ s.
     andthen (argstr 0 s) (\<lambda>path s.
     case path of None \<Rightarrow> fail_op s
     | Some path \<Rightarrow>
         andthen (create path T_DIR 0 0 s) (\<lambda>r s.
         case r of None \<Rightarrow> fail_op s
         | Some ip \<Rightarrow> andthen (iunlockput ip s) (\<lambda>_ s. andthen (end_op s) (\<lambda>_ s. Ret 0 s)))))"

definition sys_mknod :: "'a con_state_scheme \<Rightarrow> ('a con_state_scheme, int) outcome" where
  "sys_mknod s =
     andthen (begin_op s) (\<lambda>_ s.
     andthen (argstr 0 s) (\<lambda>path s.
     case path of None \<Rightarrow> fail_op s
     | Some path \<Rightarrow>
     andthen (argint 1 s) (\<lambda>major s.
     case major of None \<Rightarrow> fail_op s
     | Some major \<Rightarrow>
     andthen (argint 2 s) (\<lambda>minor s.
     case minor of None \<Rightarrow> fail_op s
     | Some minor \<Rightarrow>
         andthen (create path T_DEV (ucast major) (ucast minor) s) (\<lambda>r s.
         case r of None \<Rightarrow> fail_op s
         | Some ip \<Rightarrow> andthen (iunlockput ip s) (\<lambda>_ s. andthen (end_op s) (\<lambda>_ s. Ret 0 s)))))))"

definition sys_chdir :: "'a con_state_scheme \<Rightarrow> ('a con_state_scheme, int) outcome" where
  "sys_chdir s =
     andthen (begin_op s) (\<lambda>_ s.
     andthen (argstr 0 s) (\<lambda>path s.
     case path of None \<Rightarrow> fail_op s
     | Some path \<Rightarrow>
     andthen (namei path s) (\<lambda>r s.
     case r of None \<Rightarrow> fail_op s
     | Some ip \<Rightarrow>
     andthen (ilock ip s) (\<lambda>_ s.
     if i_type (icache s ip) \<noteq> T_DIR then andthen (iunlockput ip s) (\<lambda>_ s. fail_op s)
     else
       andthen (iunlock ip s) (\<lambda>_ s.
       case curproc s of None \<Rightarrow> Undef ''sys_chdir: proc''
       | Some p \<Rightarrow>
           (case p_cwd (ptable s p) of None \<Rightarrow> Undef ''sys_chdir: cwd''
            | Some cwd \<Rightarrow>
                andthen (iput cwd s) (\<lambda>_ s.
                andthen (end_op s) (\<lambda>_ s.
                Ret 0 (upd_proc p (\<lambda>q. q\<lparr>p_cwd := Some ip\<rparr>) s)))))))))"

definition sys_pipe :: "'a file_state_scheme \<Rightarrow> ('a file_state_scheme, int) outcome" where
  "sys_pipe s =
     andthen (argptr 0 8 s) (\<lambda>r s.
     case r of None \<Rightarrow> Ret (- 1) s
     | Some a \<Rightarrow>
     andthen (pipealloc s) (\<lambda>r s.
     case r of None \<Rightarrow> Ret (- 1) s
     | Some (rfile, wfile) \<Rightarrow>
     andthen (fdalloc rfile s) (\<lambda>fd0 s.
     case fd0 of None \<Rightarrow> andthen (fileclose rfile s) (\<lambda>_ s. andthen (fileclose wfile s) (\<lambda>_ s. Ret (- 1) s))
     | Some fd0 \<Rightarrow>
     andthen (fdalloc wfile s) (\<lambda>fd1 s.
     case fd1 of None \<Rightarrow> andthen (fileclose rfile (clear_fd fd0 s)) (\<lambda>_ s. andthen (fileclose wfile s) (\<lambda>_ s. Ret (- 1) s))
     | Some fd1 \<Rightarrow>
         andthen (put_user a (map (\<lambda>i. byte i (of_nat fd0 :: uint)) [0..<4]) s) (\<lambda>_ s.
         andthen (put_user (a + 4) (map (\<lambda>i. byte i (of_nat fd1 :: uint)) [0..<4]) s) (\<lambda>_ s. Ret 0 s))))))"

end
