(* ===== verification/Xv6_Exec.thy ===== *)
theory Xv6_Exec
  imports Xv6_Sysfile
begin

text \<open>
  Loading a program (\<^verbatim>\<open>exec.c\<close>) and the system calls of \<^verbatim>\<open>sysproc.c\<close>, with the dispatch of system
  calls (\<^verbatim>\<open>syscall.c\<close>) and of traps (\<^verbatim>\<open>trap.c\<close>).
\<close>

section \<open>ELF headers (elf.h)\<close>

abbreviation "ELF_MAGIC \<equiv> (0x464C457F::uint)"
abbreviation "ELF_PROG_LOAD \<equiv> (1::uint)"

record elfhdr =
  e_magic :: uint
  e_elf :: "uchar list"
  e_type :: ushort
  e_machine :: ushort
  e_version :: uint
  e_entry :: uint
  e_phoff :: uint
  e_shoff :: uint
  e_flags :: uint
  e_ehsize :: ushort
  e_phentsize :: ushort
  e_phnum :: ushort
  e_shentsize :: ushort
  e_shnum :: ushort
  e_shstrndx :: ushort

record proghdr =
  ph_type :: uint
  ph_off :: uint
  ph_vaddr :: uint
  ph_paddr :: uint
  ph_filesz :: uint
  ph_memsz :: uint
  ph_flags :: uint
  ph_align :: uint

text \<open>The fields at their offsets in the 52 and 32 bytes of the headers.\<close>

definition decode_elf :: "uchar list \<Rightarrow> elfhdr" where
  "decode_elf bs = \<lparr>e_magic = load32 (nth bs) 0, e_elf = take 12 (drop 4 bs), e_type = load16 (nth bs) 16, e_machine = load16 (nth bs) 18,
     e_version = load32 (nth bs) 20, e_entry = load32 (nth bs) 24, e_phoff = load32 (nth bs) 28, e_shoff = load32 (nth bs) 32,
     e_flags = load32 (nth bs) 36, e_ehsize = load16 (nth bs) 40, e_phentsize = load16 (nth bs) 42, e_phnum = load16 (nth bs) 44,
     e_shentsize = load16 (nth bs) 46, e_shnum = load16 (nth bs) 48, e_shstrndx = load16 (nth bs) 50\<rparr>"

definition decode_ph :: "uchar list \<Rightarrow> proghdr" where
  "decode_ph bs = \<lparr>ph_type = load32 (nth bs) 0, ph_off = load32 (nth bs) 4, ph_vaddr = load32 (nth bs) 8, ph_paddr = load32 (nth bs) 12,
     ph_filesz = load32 (nth bs) 16, ph_memsz = load32 (nth bs) 20, ph_flags = load32 (nth bs) 24, ph_align = load32 (nth bs) 28\<rparr>"

section \<open>exec\<close>

text \<open>
  The loop over program headers. It yields the new size, or \<open>None\<close> for the jumps to \<^verbatim>\<open>bad\<close>.
\<close>

primrec exec_load :: "nat list \<Rightarrow> uint \<Rightarrow> nat \<Rightarrow> uint \<Rightarrow> uint \<Rightarrow> 'a con_state_scheme \<Rightarrow> ('a con_state_scheme, uint option) outcome" where
  "exec_load [] phoff ip pgdir sz s = Ret (Some sz) s"
| "exec_load (i # is) phoff ip pgdir sz s =
     andthen (readi ip (phoff + 32 * of_nat i) 32 s) (\<lambda>(r, bs) s.
     if r \<noteq> 32 then Ret None s
     else
       let ph = decode_ph bs in
       if ph_type ph \<noteq> ELF_PROG_LOAD then exec_load is phoff ip pgdir sz s
       else if ph_memsz ph < ph_filesz ph then Ret None s
       else if ph_vaddr ph + ph_memsz ph < ph_vaddr ph then Ret None s
       else
         andthen (allocuvm pgdir sz (ph_vaddr ph + ph_memsz ph) s) (\<lambda>sz s.
         if sz = 0 then Ret None s
         else if ph_vaddr ph mod PGSIZE \<noteq> 0 then Ret None s
         else
           andthen (loaduvm pgdir (ph_vaddr ph) ip (ph_off ph) (ph_filesz ph) s) (\<lambda>r s.
           if r < 0 then Ret None s else exec_load is phoff ip pgdir sz s)))"

text \<open>The loop that pushes the argument strings: the stack pointer and the strings' addresses.\<close>

primrec exec_args :: "uchar list list \<Rightarrow> uint list \<Rightarrow> uint \<Rightarrow> uint \<Rightarrow> 'a kmem_state_scheme \<Rightarrow> ('a kmem_state_scheme, (uint \<times> uint list) option) outcome" where
  "exec_args [] ptrs pgdir sp s = Ret (Some (sp, ptrs)) s"
| "exec_args (arg # args) ptrs pgdir sp s =
     (if length ptrs \<ge> MAXARG then Ret None s
      else
        let sp = (sp - (of_nat (length arg) + 1)) AND NOT 3 in
        andthen (copyout pgdir sp (arg @ [0]) s) (\<lambda>r s.
        if r < 0 then Ret None s else exec_args args (ptrs @ [sp]) pgdir sp s))"

definition ustack :: "uint \<Rightarrow> uint list \<Rightarrow> uint list" where
  "ustack sp ptrs = [0xFFFFFFFF, of_nat (length ptrs), sp - (of_nat (length ptrs) + 1) * 4] @ ptrs @ [0]"

definition words_bytes :: "uint list \<Rightarrow> uchar list" where
  "words_bytes ws = concat (map (\<lambda>w. map (\<lambda>i. byte i w) [0..<4]) ws)"

definition last_elem :: "uchar list \<Rightarrow> uchar list" where
  "last_elem path = rev (takeWhile (\<lambda>c. c \<noteq> 47) (rev path))"

text \<open>The jumps to \<^verbatim>\<open>bad\<close>, with and without the inode.\<close>

definition exec_bad :: "uint \<Rightarrow> nat option \<Rightarrow> 'a fs_state_scheme \<Rightarrow> ('a fs_state_scheme, int) outcome" where
  "exec_bad pgdir ip s =
     andthen (if pgdir \<noteq> 0 then freevm pgdir s else Ret () s) (\<lambda>_ s.
     case ip of
       None \<Rightarrow> Ret (- 1) s
     | Some ip \<Rightarrow> andthen (iunlockput ip s) (\<lambda>_ s. fail_op s))"

text \<open>The second half: the stack, the arguments and the switch to the new image.\<close>

definition exec_commit :: "uchar list \<Rightarrow> uchar list list \<Rightarrow> elfhdr \<Rightarrow> uint \<Rightarrow> uint \<Rightarrow> 'a fs_state_scheme \<Rightarrow> ('a fs_state_scheme, int) outcome" where
  "exec_commit path argv elf pgdir sz s =
     (let sz = PGROUNDUP sz in
      andthen (allocuvm pgdir sz (sz + 2 * PGSIZE) s) (\<lambda>sz s.
      if sz = 0 then exec_bad pgdir None s
      else
        andthen (clearpteu pgdir (sz - 2 * PGSIZE) s) (\<lambda>_ s.
        andthen (exec_args argv [] pgdir sz s) (\<lambda>r s.
        case r of None \<Rightarrow> exec_bad pgdir None s
        | Some (sp, ptrs) \<Rightarrow>
            let ws = ustack sp ptrs; sp = sp - of_nat (length ws) * 4 in
            andthen (copyout pgdir sp (words_bytes ws) s) (\<lambda>r s.
            if r < 0 then exec_bad pgdir None s
            else
              (case curproc s of
                 None \<Rightarrow> Undef ''exec: proc''
               | Some p \<Rightarrow>
                   let oldpgdir = p_pgdir (ptable s p);
                       s = upd_proc p (\<lambda>q. q\<lparr>p_name := take 15 (map (\<lambda>c. char_of (unat c)) (last_elem path)), p_pgdir := pgdir, p_sz := sz,
                             p_tf := (p_tf q)\<lparr>tf_eip := e_entry elf, tf_esp := sp\<rparr>\<rparr>) s in
                   andthen (switchuvm p s) (\<lambda>_ s.
                   andthen (freevm oldpgdir s) (\<lambda>_ s. Ret 0 s))))))))"

text \<open>
  The test \<^verbatim>\<open>readi(...) < sizeof(elf)\<close> compares unsigned numbers: a result of -1 passes it, and the
  header that is then examined was never read.
\<close>

definition exec :: "uchar list \<Rightarrow> uchar list list \<Rightarrow> 'a con_state_scheme \<Rightarrow> ('a con_state_scheme, int) outcome" where
  "exec path argv s =
     andthen (begin_op s) (\<lambda>_ s.
     andthen (namei path s) (\<lambda>r s.
     case r of None \<Rightarrow> fail_op s
     | Some ip \<Rightarrow>
     andthen (ilock ip s) (\<lambda>_ s.
     andthen (readi ip 0 52 s) (\<lambda>(r, bs) s.
     if r < 0 then Undef ''exec: elf header''
     else if r < 52 then exec_bad 0 (Some ip) s
     else
       let elf = decode_elf bs in
       if e_magic elf \<noteq> ELF_MAGIC then exec_bad 0 (Some ip) s
       else
         andthen (setupkvm s) (\<lambda>pgdir s.
         if pgdir = 0 then exec_bad 0 (Some ip) s
         else
           andthen (exec_load [0..<unat (e_phnum elf)] (e_phoff elf) ip pgdir PGSIZE s) (\<lambda>r s.
           case r of None \<Rightarrow> exec_bad pgdir (Some ip) s
           | Some sz \<Rightarrow>
               andthen (iunlockput ip s) (\<lambda>_ s.
               andthen (end_op s) (\<lambda>_ s. exec_commit path argv elf pgdir sz s))))))))"

text \<open>
  \<^verbatim>\<open>sys_exec\<close> (\<^verbatim>\<open>sysfile.c\<close>): the argument vector is fetched from user memory, up to its null pointer;
  \<open>k\<close> is the number of entries of \<^verbatim>\<open>argv\<close> still free.
\<close>

primrec fetch_argv :: "nat \<Rightarrow> uint \<Rightarrow> uchar list list \<Rightarrow> 'a kstate_scheme \<Rightarrow> ('a kstate_scheme, uchar list list option) outcome" where
  "fetch_argv 0 uargv argv s = Ret None s"
| "fetch_argv (Suc k) uargv argv s =
     andthen (fetchint (uargv + 4 * of_nat (length argv)) s) (\<lambda>r s.
     case r of None \<Rightarrow> Ret None s
     | Some uarg \<Rightarrow>
         if uarg = 0 then Ret (Some argv) s
         else
           andthen (fetchstr uarg s) (\<lambda>r s.
           case r of None \<Rightarrow> Ret None s | Some arg \<Rightarrow> fetch_argv k uargv (argv @ [arg]) s))"

definition sys_exec :: "'a con_state_scheme \<Rightarrow> ('a con_state_scheme, int) outcome" where
  "sys_exec s =
     andthen (argstr 0 s) (\<lambda>path s.
     case path of None \<Rightarrow> Ret (- 1) s
     | Some path \<Rightarrow>
     andthen (argint 1 s) (\<lambda>uargv s.
     case uargv of None \<Rightarrow> Ret (- 1) s
     | Some uargv \<Rightarrow>
     andthen (fetch_argv MAXARG uargv [] s) (\<lambda>argv s.
     case argv of None \<Rightarrow> Ret (- 1) s
     | Some argv \<Rightarrow> exec path argv s)))"

section \<open>System calls on processes (sysproc.c)\<close>

definition cur :: "(nat \<Rightarrow> proc \<Rightarrow> 'a kstate_scheme \<Rightarrow> ('a kstate_scheme, int) outcome) \<Rightarrow> 'a kstate_scheme \<Rightarrow> ('a kstate_scheme, int) outcome" where
  "cur f s = (case curproc s of None \<Rightarrow> Undef ''proc'' | Some p \<Rightarrow> f p (ptable s p) s)"

definition sys_getprocessinfo :: "'a con_state_scheme \<Rightarrow> ('a con_state_scheme, int) outcome" where
  "sys_getprocessinfo s = andthen (processinfo s) (\<lambda>_ s. Ret 0 s)"

definition sys_increasepriority :: "'a con_state_scheme \<Rightarrow> ('a con_state_scheme, int) outcome" where
  "sys_increasepriority s = cur (\<lambda>p q s.
     andthen (if p_priority q = 0 then
                andthen (cprintf (''Priority has increased from 0 to 1 for process %s'' @ [CHR 0x0A]) [ArgStr (Some (p_name q))] s) (\<lambda>_ s.
                Ret () (upd_proc p (\<lambda>q. q\<lparr>p_priority := 1\<rparr>) s))
              else Ret () s) (\<lambda>_ s. Ret (p_priority (ptable s p)) s)) s"

definition sys_fork :: "'a file_state_scheme \<Rightarrow> ('a file_state_scheme, int) outcome" where
  "sys_fork s = fork s"

definition sys_exit :: "'a file_state_scheme \<Rightarrow> ('a file_state_scheme, int) outcome" where
  "sys_exit s = andthen (exit s) (\<lambda>_ s. Ret 0 s)"

definition sys_wait :: "'a kmem_state_scheme \<Rightarrow> ('a kmem_state_scheme, int) outcome" where
  "sys_wait s = wait s"

definition sys_kill :: "'a kstate_scheme \<Rightarrow> ('a kstate_scheme, int) outcome" where
  "sys_kill s = andthen (argint 0 s) (\<lambda>r s. case r of None \<Rightarrow> Ret (- 1) s | Some pid \<Rightarrow> kill (sint pid) s)"

definition sys_getpid :: "'a kstate_scheme \<Rightarrow> ('a kstate_scheme, int) outcome" where
  "sys_getpid s = cur (\<lambda>p q s. Ret (p_pid q) s) s"

definition sys_getcount :: "'a kstate_scheme \<Rightarrow> ('a kstate_scheme, int) outcome" where
  "sys_getcount s = Ret (if syscount s < 0 then - 1 else syscount s) s"

definition sys_sbrk :: "'a kmem_state_scheme \<Rightarrow> ('a kmem_state_scheme, int) outcome" where
  "sys_sbrk s =
     andthen (argint 0 s) (\<lambda>r s.
     case r of None \<Rightarrow> Ret (- 1) s
     | Some n \<Rightarrow> cur (\<lambda>p q s.
         let addr = sint (p_sz q) in
         andthen (growproc (sint n) s) (\<lambda>r s. Ret (if r < 0 then - 1 else addr) s)) s)"

text \<open>\<^verbatim>\<open>sys_sleep\<close>: \<^verbatim>\<open>ticks - ticks0 < n\<close> is an unsigned comparison.\<close>

definition sys_sleep_loop :: "uint \<Rightarrow> uint \<Rightarrow> 'a kstate_scheme \<Rightarrow> ('a kstate_scheme, int) outcome" where
  "sys_sleep_loop ticks0 n s =
     (if ticks s - ticks0 < n then
        cur (\<lambda>p q s.
          if p_killed q then andthen (release LkTicks s) (\<lambda>_ s. Ret (- 1) s)
          else andthen (sleep ChTicks LkTicks s) (\<lambda>_ _. Undef ''sys_sleep: sleep'')) s
      else andthen (release LkTicks s) (\<lambda>_ s. Ret 0 s))"

definition sys_sleep :: "'a kstate_scheme \<Rightarrow> ('a kstate_scheme, int) outcome" where
  "sys_sleep s =
     andthen (argint 0 s) (\<lambda>r s.
     case r of None \<Rightarrow> Ret (- 1) s
     | Some n \<Rightarrow> andthen (acquire LkTicks s) (\<lambda>_ s. sys_sleep_loop (ticks s) n s))"

definition sys_sleep_resume :: "uint \<Rightarrow> uint \<Rightarrow> 'a kstate_scheme \<Rightarrow> ('a kstate_scheme, int) outcome" where
  "sys_sleep_resume ticks0 n s = andthen (sleep_resume LkTicks s) (\<lambda>_ s. sys_sleep_loop ticks0 n s)"

definition sys_uptime :: "'a kstate_scheme \<Rightarrow> ('a kstate_scheme, int) outcome" where
  "sys_uptime s =
     andthen (acquire LkTicks s) (\<lambda>_ s.
     let xticks = ticks s in andthen (release LkTicks s) (\<lambda>_ s. Ret (sint xticks) s))"

section \<open>Dispatch (syscall.c)\<close>

text \<open>The table \<^verbatim>\<open>syscalls\<close>, indexed by the numbers of \<^verbatim>\<open>syscall.h\<close>; entry 0 is empty.\<close>

definition syscalls :: "(('a file_state_scheme \<Rightarrow> ('a file_state_scheme, int) outcome) option) list" where
  "syscalls = [None, Some sys_fork, Some sys_exit, Some sys_wait, Some sys_pipe, Some sys_read, Some sys_kill, Some sys_exec,
     Some sys_fstat, Some sys_chdir, Some sys_dup, Some sys_getpid, Some sys_sbrk, Some sys_sleep, Some sys_uptime, Some sys_open,
     Some sys_write, Some sys_mknod, Some sys_unlink, Some sys_link, Some sys_mkdir, Some sys_close, Some sys_getcount,
     Some sys_getprocessinfo, Some sys_increasepriority]"

definition set_eax :: "nat \<Rightarrow> int \<Rightarrow> 'a kstate_scheme \<Rightarrow> 'a kstate_scheme" where
  "set_eax p r s = upd_proc p (\<lambda>q. q\<lparr>p_tf := (p_tf q)\<lparr>tf_eax := of_int r\<rparr>\<rparr>) s"

definition syscall :: "'a file_state_scheme \<Rightarrow> ('a file_state_scheme, unit) outcome" where
  "syscall s =
     (case curproc s of
        None \<Rightarrow> Undef ''syscall: proc''
      | Some p \<Rightarrow>
          let num = sint (tf_eax (p_tf (ptable s p))); tab = syscalls in
          case (if num > 0 \<and> num < int (length tab) then tab ! nat num else None) of
            Some f \<Rightarrow>
              andthen (f (s\<lparr>syscount := syscount s + 1\<rparr>)) (\<lambda>r s. Ret () (set_eax p r s))
          | None \<Rightarrow>
              andthen (cprintf (''%d %s: unknown sys call %d'' @ [CHR 0x0A])
                         [ArgInt (of_int (p_pid (ptable s p))), ArgStr (Some (p_name (ptable s p))), ArgInt (of_int num)] s) (\<lambda>_ s.
              Ret () (set_eax p (- 1) s)))"

end
