(* ===== verification/Xv6_Kbd.thy ===== *)
theory Xv6_Kbd
  imports Xv6_Console
begin

text \<open>
  The keyboard (\<^verbatim>\<open>kbd.h\<close>, \<^verbatim>\<open>kbd.c\<close>): the translation of scan codes into characters, with the state
  of the modifier keys, and the interrupt handler that feeds the console.
\<close>

section \<open>Tables (kbd.h)\<close>

abbreviation "SHIFT \<equiv> (1::uint)"
abbreviation "CTL \<equiv> (2::uint)"
abbreviation "ALT \<equiv> (4::uint)"
abbreviation "CAPSLOCK \<equiv> (8::uint)"
abbreviation "NUMLOCK \<equiv> (16::uint)"
abbreviation "SCROLLLOCK \<equiv> (32::uint)"
abbreviation "E0ESC \<equiv> (64::uint)"

definition shiftcode :: "nat \<Rightarrow> uint" where
  "shiftcode = (\<lambda>_. 0)(0x1D := CTL, 0x2A := SHIFT, 0x36 := SHIFT, 0x38 := ALT, 0x9D := CTL, 0xB8 := ALT)"

definition togglecode :: "nat \<Rightarrow> uint" where
  "togglecode = (\<lambda>_. 0)(0x3A := CAPSLOCK, 0x45 := NUMLOCK, 0x46 := SCROLLLOCK)"

text \<open>An array initialised with a list, the rest zero; and the cursor and keypad keys all maps share.\<close>

definition keys :: "string \<Rightarrow> nat \<Rightarrow> uint" where
  "keys cs = (\<lambda>i. if i < length cs then of_char (cs ! i) else 0)"

definition cursor_keys :: "(nat \<Rightarrow> uint) \<Rightarrow> nat \<Rightarrow> uint" where
  "cursor_keys m = m(0xC8 := 0xE2, 0xD0 := 0xE3, 0xC9 := 0xE6, 0xD1 := 0xE7, 0xCB := 0xE4, 0xCD := 0xE5,
     0x97 := 0xE0, 0xCF := 0xE1, 0xD2 := 0xE8, 0xD3 := 0xE9)"

definition normalmap :: "nat \<Rightarrow> uint" where
  "normalmap = cursor_keys ((keys
    ([CHR 0x00, CHR 0x1B] @ ''123456'' @
     ''7890-='' @ [CHR 0x08, CHR 0x09] @
     ''qwertyui'' @
     ''op[]'' @ [CHR 0x0A, CHR 0x00] @ ''as'' @
     ''dfghjkl;'' @
     [CHR 0x27, CHR 0x60, CHR 0x00, CHR 0x5C] @ ''zxcv'' @
     ''bnm,./'' @ [CHR 0x00] @ ''*'' @
     [CHR 0x00] @ '' '' @ replicate 6 (CHR 0x00) @
     replicate 7 (CHR 0x00) @ ''7'' @
     ''89-456+1'' @
     ''230.'' @ replicate 4 (CHR 0x00)))(0x9C := 10, 0xB5 := 47))"

definition shiftmap :: "nat \<Rightarrow> uint" where
  "shiftmap = cursor_keys ((keys
    ([CHR 0x00, CHR 0x1B] @ ''!@#$%^'' @
     ''&*()_+'' @ [CHR 0x08, CHR 0x09] @
     ''QWERTYUI'' @
     ''OP{}'' @ [CHR 0x0A, CHR 0x00] @ ''AS'' @
     ''DFGHJKL:'' @
     [CHR 0x22, CHR 0x7E, CHR 0x00, CHR 0x7C] @ ''ZXCV'' @
     ''BNM<>?'' @ [CHR 0x00] @ ''*'' @
     [CHR 0x00] @ '' '' @ replicate 6 (CHR 0x00) @
     replicate 7 (CHR 0x00) @ ''7'' @
     ''89-456+1'' @
     ''230.'' @ replicate 4 (CHR 0x00)))(0x9C := 10, 0xB5 := 47))"

text \<open>
  Control characters: \<^verbatim>\<open>C(x)\<close> is \<^verbatim>\<open>x - '@'\<close>, in an unsigned byte; a dot marks a key without one. The
  slash lies below \<^verbatim>\<open>'@'\<close>, so its code wraps around to 239.
\<close>

definition ctl_row :: "string \<Rightarrow> string" where
  "ctl_row cs = map (\<lambda>c. if c = CHR ''.'' then CHR 0x00 else char_of ((of_char c + 192 :: nat) mod 256)) cs"

definition ctlmap :: "nat \<Rightarrow> uint" where
  "ctlmap = cursor_keys ((keys
    (replicate 16 (CHR 0x00) @
     ctl_row ''QWERTYUI'' @
     ctl_row ''OP..'' @ [CHR 0x0D, CHR 0x00] @ ctl_row ''AS'' @
     ctl_row ''DFGHJKL.'' @
     ctl_row ''...'' @ ctl_row [CHR 0x5C] @ ctl_row ''ZXCV'' @
     ctl_row ''BNM../..''))(0x9C := 13, 0xB5 := 239))"

section \<open>Reading a key (kbd.c)\<close>

text \<open>
  \<^verbatim>\<open>kbdgetc\<close> as a function of the two ports it reads and its static variable \<^verbatim>\<open>shift\<close>; it yields the
  character, 0 for none, -1 when the controller has no data, and the new value of \<^verbatim>\<open>shift\<close>.
\<close>

definition charcode :: "uint \<Rightarrow> nat \<Rightarrow> uint" where
  "charcode shift = [normalmap, shiftmap, ctlmap, ctlmap] ! unat (shift AND (CTL OR SHIFT))"

definition kbd_case :: "uint \<Rightarrow> uint \<Rightarrow> uint" where
  "kbd_case shift c =
     (if shift AND CAPSLOCK \<noteq> 0 then
        if 97 \<le> c \<and> c \<le> 122 then c + (65 - 97)
        else if 65 \<le> c \<and> c \<le> 90 then c + (97 - 65)
        else c
      else c)"

definition kbdgetc :: "uint \<Rightarrow> uint \<Rightarrow> uint \<Rightarrow> int \<times> uint" where
  "kbdgetc st data shift =
     (if st AND 1 = 0 then (- 1, shift)
      else if data = 0xE0 then (0, shift OR E0ESC)
      else if data AND 0x80 \<noteq> 0 then
        let data = (if shift AND E0ESC \<noteq> 0 then data else data AND 0x7F) in
        (0, shift AND NOT (shiftcode (unat data) OR E0ESC))
      else
        let (data, shift) = (if shift AND E0ESC \<noteq> 0 then (data OR 0x80, shift AND NOT E0ESC) else (data, shift));
            shift = shift OR shiftcode (unat data);
            shift = shift XOR togglecode (unat data);
            c = kbd_case shift (charcode shift (unat data)) in
        (uint c, shift))"

text \<open>
  \<^verbatim>\<open>kbdintr\<close>: \<^verbatim>\<open>consoleintr\<close> calls \<^verbatim>\<open>kbdgetc\<close> until the controller has no more data. The argument is the
  sequence of scan codes it has.
\<close>

fun kbd_chars :: "uint list \<Rightarrow> uint \<Rightarrow> int list \<times> uint" where
  "kbd_chars [] shift = ([], shift)"
| "kbd_chars (d # ds) shift =
     (let (c, shift) = kbdgetc 1 d shift; (cs, shift) = kbd_chars ds shift in (c # cs, shift))"

definition kbdintr :: "uint list \<Rightarrow> uint \<Rightarrow> 'a con_state_scheme \<Rightarrow> ('a con_state_scheme, uint) outcome" where
  "kbdintr ds shift s =
     (let (cs, shift) = kbd_chars ds shift in andthen (consoleintr cs s) (\<lambda>_ s. Ret shift s))"

section \<open>Every scan code yields a character\<close>




end
