(* ===== verification/Xv6_Trap.thy ===== *)
theory Xv6_Trap
  imports Xv6_Exec Xv6_Kbd
begin

text \<open>
  Traps (\<^verbatim>\<open>trap.c\<close>): system calls, device interrupts, faults, and the clock tick with its two-level
  priority scheme. What the devices hold when the trap is handled is an argument.
\<close>

section \<open>The trap handler\<close>

abbreviation "T_PGFLT \<equiv> (14::uint)"
abbreviation "T_SYSCALL \<equiv> (64::uint)"
abbreviation "T_IRQ0 \<equiv> (32::uint)"

record trap_state = file_state +
  kbd_shift :: uint

text \<open>The processor's number, the keyboard's scan codes, the serial port's characters, the fault address.\<close>

record hw =
  hw_cpuid :: nat
  hw_scan :: "uint list"
  hw_uart :: "int list"
  hw_cr2 :: uint

definition timer_tick :: "hw \<Rightarrow> 'a kstate_scheme \<Rightarrow> ('a kstate_scheme, unit) outcome" where
  "timer_tick h s =
     (if hw_cpuid h = 0 then
        andthen (acquire LkTicks s) (\<lambda>_ s.
        andthen (wakeup ChTicks (s\<lparr>ticks := ticks s + 1\<rparr>)) (\<lambda>_ s.
        release LkTicks s))
      else Ret () s)"

definition user_mode :: "trapframe \<Rightarrow> bool" where
  "user_mode tf \<longleftrightarrow> tf_cs tf AND 3 = DPL_USER"

definition set_killed :: "nat \<Rightarrow> 'a kstate_scheme \<Rightarrow> 'a kstate_scheme" where
  "set_killed p s = upd_proc p (\<lambda>q. q\<lparr>p_killed := True\<rparr>) s"

definition trap_default :: "trapframe \<Rightarrow> hw \<Rightarrow> 'a con_state_scheme \<Rightarrow> ('a con_state_scheme, unit) outcome" where
  "trap_default tf h s =
     (case curproc s of
        Some p \<Rightarrow>
          if tf_cs tf AND 3 = 0 then Panic ''trap''
          else
            andthen (cprintf (''pid %d %s: trap %d err %d on cpu %d eip 0x%x addr 0x%x--kill proc'' @ [CHR 0x0A])
                       [ArgInt (of_int (p_pid (ptable s p))), ArgStr (Some (p_name (ptable s p))), ArgInt (tf_trapno tf), ArgInt (tf_err tf),
                        ArgInt (of_nat (hw_cpuid h)), ArgInt (tf_eip tf), ArgInt (hw_cr2 h)] s) (\<lambda>_ s.
            Ret () (set_killed p s))
      | None \<Rightarrow> Panic ''trap'')"

text \<open>The switch on the trap number. The memory disk raises no interrupts, and its \<^verbatim>\<open>ideintr\<close> does nothing.\<close>

definition trap_switch :: "trapframe \<Rightarrow> hw \<Rightarrow> 'a trap_state_scheme \<Rightarrow> ('a trap_state_scheme, unit) outcome" where
  "trap_switch tf h s =
     (let n = tf_trapno tf in
      if n = T_IRQ0 then timer_tick h s
      else if n = T_IRQ0 + 14 then Ret () s
      else if n = T_IRQ0 + 15 then Ret () s
      else if n = T_IRQ0 + 1 then
        andthen (kbdintr (hw_scan h) (kbd_shift s) s) (\<lambda>shift s. Ret () (s\<lparr>kbd_shift := shift\<rparr>))
      else if n = T_IRQ0 + 4 then consoleintr (hw_uart h) s
      else if n = T_IRQ0 + 7 \<or> n = T_IRQ0 + 31 then
        cprintf (''cpu%d: spurious interrupt at %x:%x'' @ [CHR 0x0A]) [ArgInt (of_nat (hw_cpuid h)), ArgInt (ucast (tf_cs tf)), ArgInt (tf_eip tf)] s
      else if n = T_PGFLT then
        andthen (cprintf (''Your process was just murdered.'' @ [CHR 0x0A]) [] s) (\<lambda>_ s.
        case curproc s of None \<Rightarrow> Undef ''trap: proc'' | Some p \<Rightarrow> Ret () (set_killed p s))
      else trap_default tf h s)"

definition exit_if_killed :: "trapframe \<Rightarrow> 'a file_state_scheme \<Rightarrow> ('a file_state_scheme, unit) outcome" where
  "exit_if_killed tf s = (if proc_killed s \<and> user_mode tf then exit s else Ret () s)"

text \<open>The clock tick of the running process: its time, its priority, and whether it yields.\<close>

definition trap_preempt :: "trapframe \<Rightarrow> 'a con_state_scheme \<Rightarrow> ('a con_state_scheme, unit) outcome" where
  "trap_preempt tf s =
     (case curproc s of
        None \<Rightarrow> Ret () s
      | Some p \<Rightarrow>
          if p_state (ptable s p) = RUNNING \<and> tf_trapno tf = T_IRQ0 then
            let s = upd_proc p (\<lambda>q. q\<lparr>p_timecpu := p_timecpu q + 1\<rparr>) s in
            andthen (if prioritybump s = 10 then cprintf (''RESETTING TO 0'' @ [CHR 0x0A]) [] (s\<lparr>prioritybump := 0\<rparr>) else Ret () s) (\<lambda>_ s.
            if p_priority (ptable s p) = 1 \<and> p_timecpu (ptable s p) = 1 then
              yield (upd_proc p (\<lambda>q. q\<lparr>p_timecpu := p_timecpu q - 1, p_priority := p_priority q - 1\<rparr>) s)
            else if p_priority (ptable s p) = 0 \<and> p_timecpu (ptable s p) = 2 then
              yield (upd_proc p (\<lambda>q. q\<lparr>p_timecpu := 0\<rparr>) s)
            else Ret () s)
          else Ret () s)"

definition trap_syscall :: "trapframe \<Rightarrow> 'a file_state_scheme \<Rightarrow> ('a file_state_scheme, unit) outcome" where
  "trap_syscall tf s =
     (case curproc s of
        None \<Rightarrow> Undef ''trap: proc''
      | Some p \<Rightarrow>
          andthen (if p_killed (ptable s p) then exit s else Ret () s) (\<lambda>_ s.
          andthen (syscall (upd_proc p (\<lambda>q. q\<lparr>p_tf := tf\<rparr>) s)) (\<lambda>_ s.
          if p_killed (ptable s p) then exit s else Ret () s)))"

definition trap :: "trapframe \<Rightarrow> hw \<Rightarrow> 'a trap_state_scheme \<Rightarrow> ('a trap_state_scheme, unit) outcome" where
  "trap tf h s =
     (if tf_trapno tf = T_SYSCALL then trap_syscall tf s
      else
        andthen (trap_switch tf h s) (\<lambda>_ s.
        andthen (exit_if_killed tf s) (\<lambda>_ s.
        andthen (trap_preempt tf s) (\<lambda>_ s.
        exit_if_killed tf s))))"

section \<open>Preemption\<close>

text \<open>A process that the clock interrupts in user mode, with the kernel otherwise quiet.\<close>

definition interrupted :: "nat \<Rightarrow> 'a con_state_scheme \<Rightarrow> bool" where
  "interrupted p s \<longleftrightarrow> held s = {} \<and> curproc s = Some p \<and> p_state (ptable s p) = RUNNING \<and> \<not> p_killed (ptable s p)"

lemma timer_tick_quiet:
  assumes "interrupted p s"
  shows "returns (timer_tick h s) (\<lambda>_ t. interrupted p t \<and> p_priority (ptable t p) = p_priority (ptable s p) \<and> p_timecpu (ptable t p) = p_timecpu (ptable s p))"
  using assms by (auto simp: timer_tick_def interrupted_def wakeup_eq wakeup1_def)

lemma cprintf_quiet:
  assumes "held s = {}" "cprintf_text fmt args = Some x"
  shows "cprintf fmt args s = Ret () (cputs x s)"
  using assms by (simp add: cprintf_def Let_def cputs_def)

lemma cprintf_plain: "CHR ''%'' \<notin> set fmt \<Longrightarrow> cprintf_text fmt [] = Some fmt"
  by (induction fmt) auto

text \<open>The preemption code up to the choice it makes.\<close>

lemma trap_preempt_eq:
  assumes i: "interrupted p s" and n: "tf_trapno tf = T_IRQ0"
  shows "\<exists>u. trap_preempt tf s =
      (if p_priority (ptable s p) = 1 \<and> p_timecpu (ptable s p) = 0 then
         yield (upd_proc p (\<lambda>q. q\<lparr>p_timecpu := p_timecpu q - 1, p_priority := p_priority q - 1\<rparr>) u)
       else if p_priority (ptable s p) = 0 \<and> p_timecpu (ptable s p) = 1 then yield (upd_proc p (\<lambda>q. q\<lparr>p_timecpu := 0\<rparr>) u)
       else Ret () u)
    \<and> interrupted p u \<and> p_priority (ptable u p) = p_priority (ptable s p) \<and> p_timecpu (ptable u p) = p_timecpu (ptable s p) + 1"
proof -
  let ?s = "upd_proc p (\<lambda>q. q\<lparr>p_timecpu := p_timecpu q + 1\<rparr>) s"
  have c: "cprintf_text (''RESETTING TO 0'' @ [CHR 0x0A]) [] = Some (''RESETTING TO 0'' @ [CHR 0x0A])" by (rule cprintf_plain) simp
  let ?u = "if prioritybump ?s = 10 then cputs (''RESETTING TO 0'' @ [CHR 0x0A]) (?s\<lparr>prioritybump := 0\<rparr>) else ?s"
  have pr: "(if prioritybump ?s = 10 then cprintf (''RESETTING TO 0'' @ [CHR 0x0A]) [] (?s\<lparr>prioritybump := 0\<rparr>) else Ret () ?s) = Ret () ?u"
    using i cprintf_quiet [OF _ c, of "?s\<lparr>prioritybump := 0\<rparr>"] by (simp add: interrupted_def)
  have pt: "ptable ?u = ptable ?s" "held ?u = held s" "curproc ?u = curproc s" by (simp_all add: cputs_def)
  have f: "interrupted p ?u" "p_priority (ptable ?u p) = p_priority (ptable s p)" "p_timecpu (ptable ?u p) = p_timecpu (ptable s p) + 1"
    unfolding interrupted_def pt using i by (simp_all add: interrupted_def)
  have "trap_preempt tf s =
      (if p_priority (ptable ?u p) = 1 \<and> p_timecpu (ptable ?u p) = 1 then
         yield (upd_proc p (\<lambda>q. q\<lparr>p_timecpu := p_timecpu q - 1, p_priority := p_priority q - 1\<rparr>) ?u)
       else if p_priority (ptable ?u p) = 0 \<and> p_timecpu (ptable ?u p) = 2 then yield (upd_proc p (\<lambda>q. q\<lparr>p_timecpu := 0\<rparr>) ?u)
       else Ret () ?u)"
    unfolding trap_preempt_def Let_def using i n by (simp only: interrupted_def option.case simp_thms if_True pr andthen_simps)
  then have "trap_preempt tf s =
      (if p_priority (ptable s p) = 1 \<and> p_timecpu (ptable s p) = 0 then
         yield (upd_proc p (\<lambda>q. q\<lparr>p_timecpu := p_timecpu q - 1, p_priority := p_priority q - 1\<rparr>) ?u)
       else if p_priority (ptable s p) = 0 \<and> p_timecpu (ptable s p) = 1 then yield (upd_proc p (\<lambda>q. q\<lparr>p_timecpu := 0\<rparr>) ?u)
       else Ret () ?u)"
    unfolding f(2,3) by simp
  then show ?thesis using f by blast
qed

lemma yield_switches:
  assumes "interrupted p s"
  shows "yield s = Switch (upd_proc p (\<lambda>q. q\<lparr>p_state := RUNNABLE\<rparr>) (s\<lparr>held := {LkPtable}\<rparr>))"
  using assms by (simp add: yield_def sched_def interrupted_def)

lemma interrupted_upd:
  "interrupted p s \<Longrightarrow> interrupted p (upd_proc p (\<lambda>q. q\<lparr>p_timecpu := a q, p_priority := b q\<rparr>) s)"
  "interrupted p s \<Longrightarrow> interrupted p (upd_proc p (\<lambda>q. q\<lparr>p_timecpu := a q\<rparr>) s)"
  by (simp_all add: interrupted_def)

lemma trap_tick:
  assumes i: "interrupted p s" and n: "tf_trapno tf = T_IRQ0"
  shows "\<exists>u. interrupted p u \<and> p_priority (ptable u p) = p_priority (ptable s p) \<and> p_timecpu (ptable u p) = p_timecpu (ptable s p)
    \<and> trap tf h s = andthen (trap_preempt tf u) (\<lambda>_ s. exit_if_killed tf s)"
proof -
  obtain u where u: "timer_tick h s = Ret () u" "interrupted p u" "p_priority (ptable u p) = p_priority (ptable s p)"
    "p_timecpu (ptable u p) = p_timecpu (ptable s p)" using timer_tick_quiet [OF i, of h] by (auto simp: returns_def)
  have "exit_if_killed tf u = Ret () u" using u(2) by (simp add: exit_if_killed_def proc_killed_def interrupted_def)
  then have "trap tf h s = andthen (trap_preempt tf u) (\<lambda>_ s. exit_if_killed tf s)"
    using n u(1) by (simp add: trap_def trap_switch_def)
  then show ?thesis using u by blast
qed

text \<open>
  \<^bold>\<open>C32.\<close> The clock preempts processes at the two levels the scheme intends. At a tick, a process of
  priority 1 that has used no tick drops to priority 0 and gives up the processor; a process of
  priority 0 keeps it for its first tick and gives it up at the second, its count starting over.
\<close>
theorem clock_preempts:
  assumes "interrupted p s" "tf_trapno tf = T_IRQ0"
  shows "((p_priority (ptable s p), p_timecpu (ptable s p)) \<in> {(1, 0), (0, 1)} \<longrightarrow>
      (\<exists>t. trap tf h s = Switch t \<and> p_state (ptable t p) = RUNNABLE \<and> p_priority (ptable t p) = 0 \<and> p_timecpu (ptable t p) = 0))
    \<and> ((p_priority (ptable s p), p_timecpu (ptable s p)) = (0, 0) \<longrightarrow>
      (\<exists>t. trap tf h s = Ret () t \<and> interrupted p t \<and> p_priority (ptable t p) = 0 \<and> p_timecpu (ptable t p) = 1))"
proof -
  from trap_tick [OF assms] obtain u where u: "interrupted p u" "p_priority (ptable u p) = p_priority (ptable s p)"
    "p_timecpu (ptable u p) = p_timecpu (ptable s p)" "trap tf h s = andthen (trap_preempt tf u) (\<lambda>_ s. exit_if_killed tf s)" by blast
  from trap_preempt_eq [OF u(1) assms(2)] obtain v where v: "interrupted p v" "p_priority (ptable v p) = p_priority (ptable u p)"
    "p_timecpu (ptable v p) = p_timecpu (ptable u p) + 1"
    "trap_preempt tf u = (if p_priority (ptable u p) = 1 \<and> p_timecpu (ptable u p) = 0 then
         yield (upd_proc p (\<lambda>q. q\<lparr>p_timecpu := p_timecpu q - 1, p_priority := p_priority q - 1\<rparr>) v)
       else if p_priority (ptable u p) = 0 \<and> p_timecpu (ptable u p) = 1 then yield (upd_proc p (\<lambda>q. q\<lparr>p_timecpu := 0\<rparr>) v)
       else Ret () v)" by blast
  note y = yield_switches [OF interrupted_upd(1) [OF v(1)]] yield_switches [OF interrupted_upd(2) [OF v(1)]]
  have "exit_if_killed tf v = Ret () v" using v(1) by (simp add: exit_if_killed_def proc_killed_def interrupted_def)
  then show ?thesis using u v y by auto
qed


definition idle_proc :: proc where
  "idle_proc = \<lparr>p_sz = 0, p_pgdir = 0, p_kstack = 0, p_state = UNUSED, p_pid = 0, p_parent = None, p_tf = zero_tf, p_context = zero_context,
     p_chan = None, p_killed = False, p_ofile = (\<lambda>_. None), p_cwd = None, p_name = [], p_priority = 0, p_timecpu = 0\<rparr>"

definition running_at :: "int \<Rightarrow> int \<Rightarrow> trap_state" where
  "running_at pr tc = undefined\<lparr>held := {}, curproc := Some 5, ptable := (\<lambda>_. idle_proc)(5 := idle_proc\<lparr>p_state := RUNNING, p_priority := pr, p_timecpu := tc\<rparr>)\<rparr>"

lemma running_at: "interrupted 5 (running_at pr tc)" "p_priority (ptable (running_at pr tc) 5) = pr" "p_timecpu (ptable (running_at pr tc) 5) = tc"
  by (simp_all add: interrupted_def running_at_def idle_proc_def)

definition tick_frame :: trapframe where
  "tick_frame = user_tf\<lparr>tf_trapno := T_IRQ0\<rparr>"

definition no_input :: hw where
  "no_input = \<lparr>hw_cpuid = 0, hw_scan = [], hw_uart = [], hw_cr2 = 0\<rparr>"

theorem clock_preempts_witness:
  "\<exists>t. trap tick_frame no_input (running_at 1 0) = Switch t \<and> p_priority (ptable t 5) = 0"
  using clock_preempts [OF running_at(1), of tick_frame 1 0 no_input] by (auto simp: running_at(2,3) tick_frame_def)


end
