(* ===== verification/Xv6_Grep.thy ===== *)
theory Xv6_Grep
  imports Xv6_Prelude
begin

text \<open>
  The pattern search of the user program \<^verbatim>\<open>grep.c\<close>. A C string is the list of its characters before
  the terminator, so \<^verbatim>\<open>re[0] == 0\<close> is the empty list and \<^verbatim>\<open>re+1\<close> the tail. The matcher is compared with
  a semantics of patterns as sets of strings, and the buffering loop with the filter on lines it
  stands for. \<^verbatim>\<open>read\<close> is a parameter of the loop: it takes the state of the file and a count and
  returns the bytes read and the new state.
\<close>

section \<open>The matcher\<close>

text \<open>\<^verbatim>\<open>matchhere\<close> and \<^verbatim>\<open>matchstar\<close>; the do-while loop of \<^verbatim>\<open>matchstar\<close> is its tail call.\<close>

function matchhere :: "string \<Rightarrow> string \<Rightarrow> bool"
  and matchstar :: "char \<Rightarrow> string \<Rightarrow> string \<Rightarrow> bool" where
  "matchhere [] str = True"
| "matchhere (c # re) str =
     (if re \<noteq> [] \<and> hd re = CHR ''*'' then matchstar c (tl re) str
      else if c = CHR ''$'' \<and> re = [] then str = []
      else if str \<noteq> [] \<and> (c = CHR ''.'' \<or> c = hd str) then matchhere re (tl str)
      else False)"
| "matchstar c re str =
     (if matchhere re str then True
      else if str \<noteq> [] \<and> (hd str = c \<or> c = CHR ''.'') then matchstar c re (tl str)
      else False)"
  by pat_completeness auto
termination
  by (relation "measure (case_sum (\<lambda>(re, str). 2 * (length re + length str))
                                  (\<lambda>(c, re, str). 2 * (length re + length str) + 1))")
    (auto simp: less_Suc_eq_le neq_Nil_conv)

text \<open>The do-while loop of \<^verbatim>\<open>match\<close> looks at every suffix of the text, the empty one included.\<close>

function match_loop :: "string \<Rightarrow> string \<Rightarrow> bool" where
  "match_loop re str =
     (if matchhere re str then True
      else if str \<noteq> [] then match_loop re (tl str) else False)"
  by pat_completeness auto
termination by (relation "measure (\<lambda>(_, str). length str)") auto

declare match_loop.simps [simp del] matchhere.simps [simp del] matchstar.simps [simp del]

definition match :: "string \<Rightarrow> string \<Rightarrow> bool" where
  "match re str =
     (if re \<noteq> [] \<and> hd re = CHR ''^'' then matchhere (tl re) str else match_loop re str)"


section \<open>The line loop\<close>

text \<open>
  \<^verbatim>\<open>strchr(p, '\n')\<close>: the text before the newline and the text after it, when a newline comes before
  the first NUL byte.
\<close>

fun next_line :: "string \<Rightarrow> (string \<times> string) option" where
  "next_line [] = None"
| "next_line (c # p) =
     (if c = CHR 0x00 then None
      else if c = CHR 0x0A then Some ([], p)
      else map_option (\<lambda>(l, q). (c # l, q)) (next_line p))"

lemma next_line_shorter [dest]: "next_line p = Some (l, q) \<Longrightarrow> length q < length p"
  by (induction p arbitrary: l rule: next_line.induct) (auto split: if_splits)

text \<open>The inner loop: what it writes and the rest of the buffer, at \<^verbatim>\<open>p\<close>.\<close>

function grep_lines :: "string \<Rightarrow> string \<Rightarrow> string \<Rightarrow> string \<times> string" where
  "grep_lines pattern p out =
     (case next_line p of None \<Rightarrow> (out, p)
      | Some (l, q) \<Rightarrow>
          grep_lines pattern q (if match pattern l then out @ l @ [CHR 0x0A] else out))"
  by pat_completeness auto
termination by (relation "measure (\<lambda>(_, p, _). length p)") auto

declare grep_lines.simps [simp del]

text \<open>
  The outer loop. \<open>kept\<close> is \<^verbatim>\<open>buf[0..m)\<close>. After the lines of the buffer have been written, the rest
  moves to its front, unless no line was found (\<^verbatim>\<open>p == buf\<close>), when \<^verbatim>\<open>m = 0\<close> drops the whole buffer.
\<close>

definition BUFSIZE :: nat where
  "BUFSIZE = 1024"

partial_function (option) grep_loop ::
  "('f \<Rightarrow> nat \<Rightarrow> string \<times> 'f) \<Rightarrow> string \<Rightarrow> string \<Rightarrow> 'f \<Rightarrow> string \<Rightarrow> (string \<times> 'f) option" where
  "grep_loop rd pattern kept fd out =
     (let (bytes, fd) = rd fd (BUFSIZE - length kept - 1) in
      if bytes = [] then Some (out, fd)
      else
        let buf = kept @ bytes;
            (out, p) = grep_lines pattern buf out
        in grep_loop rd pattern (if length p = length buf then [] else p) fd out)"

definition grep :: "('f \<Rightarrow> nat \<Rightarrow> string \<times> 'f) \<Rightarrow> string \<Rightarrow> 'f \<Rightarrow> (string \<times> 'f) option" where
  "grep rd pattern fd = grep_loop rd pattern [] fd []"


section \<open>Patterns as languages\<close>

text \<open>
  A pattern denotes a list of items, each a set of strings, and possibly a final \<^verbatim>\<open>$\<close>. The language of
  a pattern is the concatenation of the languages of its items.
\<close>

datatype item = One char | Many char

fun items :: "string \<Rightarrow> item list" where
  "items [] = []"
| "items [c] = (if c = CHR ''$'' then [] else [One c])"
| "items (c # d # re) = (if d = CHR ''*'' then Many c # items re else One c # items (d # re))"

fun anchored :: "string \<Rightarrow> bool" where
  "anchored [] = False"
| "anchored [c] = (c = CHR ''$'')"
| "anchored (c # d # re) = (if d = CHR ''*'' then anchored re else anchored (d # re))"

definition covers :: "char \<Rightarrow> char \<Rightarrow> bool" where
  "covers c x \<longleftrightarrow> c = CHR ''.'' \<or> x = c"

primrec item_lang :: "item \<Rightarrow> string set" where
  "item_lang (One c) = {[x] |x. covers c x}"
| "item_lang (Many c) = {xs. \<forall>x \<in> set xs. covers c x}"

primrec lang :: "item list \<Rightarrow> string set" where
  "lang [] = {[]}"
| "lang (i # is) = {u @ v |u v. u \<in> item_lang i \<and> v \<in> lang is}"

text \<open>A pattern occurs at the front of a text.\<close>

definition at_front :: "string \<Rightarrow> string \<Rightarrow> bool" where
  "at_front re str \<longleftrightarrow> (\<exists>u v. str = u @ v \<and> u \<in> lang (items re) \<and> (anchored re \<longrightarrow> v = []))"

lemma at_front_Nil: "at_front [] str"
  by (simp add: at_front_def)

lemma at_front_end: "at_front [CHR ''$''] str \<longleftrightarrow> str = []"
  by (simp add: at_front_def)

lemma at_front_item:
  assumes "items re = i # items re'" "anchored re = anchored re'"
  shows "at_front re str \<longleftrightarrow> (\<exists>u w. str = u @ w \<and> u \<in> item_lang i \<and> at_front re' w)"
  unfolding at_front_def assms lang.simps mem_Collect_eq by (metis append.assoc)

lemma at_front_One:
  assumes "\<not> (re \<noteq> [] \<and> hd re = CHR ''*'')" "\<not> (c = CHR ''$'' \<and> re = [])"
  shows "at_front (c # re) str \<longleftrightarrow> str \<noteq> [] \<and> covers c (hd str) \<and> at_front re (tl str)"
proof -
  have "items (c # re) = One c # items re" "anchored (c # re) = anchored re"
    using assms by (cases re; auto)+
  from at_front_item [OF this, of str] show ?thesis
    by (cases str) (auto, metis append_Cons append_Nil)
qed

lemma at_front_star:
  "at_front (c # CHR ''*'' # re) str \<longleftrightarrow>
     (\<exists>u w. str = u @ w \<and> (\<forall>x \<in> set u. covers c x) \<and> at_front re w)"
  using at_front_item [of "c # CHR ''*'' # re" "Many c" re str] by simp

lemma at_front_Many:
  "at_front (c # CHR ''*'' # re) str \<longleftrightarrow>
     at_front re str \<or> str \<noteq> [] \<and> covers c (hd str) \<and> at_front (c # CHR ''*'' # re) (tl str)"
  (is "?l \<longleftrightarrow> ?r")
proof
  assume ?l
  then obtain u w where u: "str = u @ w" "\<forall>x \<in> set u. covers c x" "at_front re w"
    unfolding at_front_star by blast
  then show ?r
    unfolding at_front_star by (cases u) auto
next
  assume ?r
  then consider "at_front re str"
    | x u w where "str = x # u @ w" "covers c x" "\<forall>x \<in> set u. covers c x" "at_front re w"
    unfolding at_front_star by (cases str) auto
  then show ?l
    unfolding at_front_star
  proof cases
    case 1
    then show "\<exists>u w. str = u @ w \<and> (\<forall>x \<in> set u. covers c x) \<and> at_front re w"
      by (intro exI [of _ "[]"] exI [of _ str]) simp
  next
    case (2 x u w)
    then show "\<exists>u w. str = u @ w \<and> (\<forall>x \<in> set u. covers c x) \<and> at_front re w"
      by (intro exI [of _ "x # u"] exI [of _ w]) simp
  qed
qed

lemma matchhere_at_front:
  "matchhere re str \<longleftrightarrow> at_front re str"
  "matchstar c re str \<longleftrightarrow> at_front (c # CHR ''*'' # re) str"
proof (induction re str and c re str rule: matchhere_matchstar.induct)
  case (2 c re str)
  show ?case
  proof (cases "re \<noteq> [] \<and> hd re = CHR ''*''")
    case True
    then show ?thesis
      using 2(1) by (cases re) (simp_all add: matchhere.simps)
  next
    case False
    then show ?thesis
      using 2(2) at_front_One [OF False, of c str] at_front_end [of str]
      by (subst matchhere.simps) (auto simp: covers_def)
  qed
next
  case (3 c re str)
  then show ?case
    by (subst matchstar.simps, subst at_front_Many) (auto simp: covers_def)
qed (simp add: at_front_Nil matchhere.simps)

lemma match_loop_suffix: "match_loop re str \<longleftrightarrow> (\<exists>w v. str = w @ v \<and> at_front re v)"
proof (induction str)
  case Nil
  show ?case
    by (subst match_loop.simps) (simp add: matchhere_at_front)
next
  case (Cons a str)
  show ?case
    by (subst match_loop.simps) (auto simp: matchhere_at_front Cons Cons_eq_append_conv)
qed

text \<open>
  \<^bold>\<open>C11.\<close> The matcher of \<^verbatim>\<open>grep\<close> decides its pattern language: a pattern that starts with \<^verbatim>\<open>^\<close> matches
  a text exactly when a string of the language of the rest is a prefix of it, any other pattern when
  such a string occurs somewhere in the text, and a final \<^verbatim>\<open>$\<close> asks that the occurrence ends the text.
\<close>

theorem match_language:
  "match re str \<longleftrightarrow>
     (if re \<noteq> [] \<and> hd re = CHR ''^''
      then \<exists>u v. str = u @ v \<and> u \<in> lang (items (tl re)) \<and> (anchored (tl re) \<longrightarrow> v = [])
      else \<exists>w u v. str = w @ u @ v \<and> u \<in> lang (items re) \<and> (anchored re \<longrightarrow> v = []))"
  unfolding match_def matchhere_at_front match_loop_suffix at_front_def by auto

theorem match_language_witness:
  "match ''b*c$'' ''abbc'' \<and>
   (\<exists>w u v. ''abbc'' = w @ u @ v \<and> u \<in> lang (items ''b*c$'') \<and> (anchored ''b*c$'' \<longrightarrow> v = []))"
proof -
  have m: "match ''b*c$'' ''abbc''"
    by (simp add: match_def match_loop.simps matchhere.simps matchstar.simps)
  with match_language [of "''b*c$''" "''abbc''"] show ?thesis
    by simp
qed


section \<open>The line loop prints the matching lines\<close>

text \<open>Reading a regular file returns the bytes asked for, as far as the file has them.\<close>

definition read_file :: "string \<Rightarrow> nat \<Rightarrow> string \<times> string" where
  "read_file f n = (take n f, drop n f)"

text \<open>A line without its newline; texts built from lines.\<close>

definition line_ok :: "string \<Rightarrow> bool" where
  "line_ok l \<longleftrightarrow> CHR 0x00 \<notin> set l \<and> CHR 0x0A \<notin> set l \<and> length l + 1 < BUFSIZE"

definition unlines :: "string list \<Rightarrow> string" where
  "unlines ls = concat (map (\<lambda>l. l @ [CHR 0x0A]) ls)"

lemma unlines_simps [simp]:
  "unlines [] = []"
  "unlines (l # ls) = l @ CHR 0x0A # unlines ls"
  "unlines (ls @ ks) = unlines ls @ unlines ks"
  by (simp_all add: unlines_def)

lemma next_line_line [simp]:
  "CHR 0x00 \<notin> set l \<Longrightarrow> CHR 0x0A \<notin> set l \<Longrightarrow> next_line (l @ CHR 0x0A # p) = Some (l, p)"
  by (induction l) auto

lemma next_line_none [simp]:
  "CHR 0x00 \<notin> set l \<Longrightarrow> CHR 0x0A \<notin> set l \<Longrightarrow> next_line l = None"
  by (induction l) auto

lemma grep_lines_unlines:
  assumes "\<forall>l \<in> set ls. line_ok l" "CHR 0x00 \<notin> set r" "CHR 0x0A \<notin> set r"
  shows "grep_lines pattern (unlines ls @ r) out = (out @ unlines (filter (match pattern) ls), r)"
  using assms
proof (induction ls arbitrary: out)
  case Nil
  then show ?case
    by (subst grep_lines.simps) simp
next
  case (Cons l ls)
  then show ?case
    by (subst grep_lines.simps) (simp add: line_ok_def)
qed

text \<open>A cut of a text of lines falls inside a line or after the last one.\<close>

lemma cut_lines:
  assumes "\<forall>l \<in> set ls. line_ok l"
  obtains ks l r ms where "ls = ks @ l # ms" "take n (unlines ls) = unlines ks @ r"
      "l = r @ drop (length r) l" "drop n (unlines ls) = drop (length r) l @ CHR 0x0A # unlines ms"
    | "take n (unlines ls) = unlines ls" "drop n (unlines ls) = []"
  using assms
proof (induction ls arbitrary: n thesis)
  case Nil
  from Nil(2) show ?case by simp
next
  case (Cons l ls)
  show ?case
  proof (cases "n \<le> length l")
    case True
    have "l = take n l @ drop (length (take n l)) l"
      using True by simp
    then show ?thesis
      using True Cons.prems(1) [of "[]" l ls "take n l"] by simp
  next
    case False
    define k where "k = n - Suc (length l)"
    have n: "take n (unlines (l # ls)) = l @ CHR 0x0A # take k (unlines ls)"
      "drop n (unlines (l # ls)) = drop k (unlines ls)"
      using False by (simp_all add: k_def take_Cons' drop_Cons')
    show ?thesis
    proof (rule Cons.IH [of k])
      fix ks l' ms r
      assume "ls = ks @ l' # ms" "take k (unlines ls) = unlines ks @ r"
        "l' = r @ drop (length r) l'" "drop k (unlines ls) = drop (length r) l' @ CHR 0x0A # unlines ms"
      then show ?thesis
        using Cons.prems(1) [of "l # ks" l' ms r] n by simp
    next
      assume "take k (unlines ls) = unlines ls" "drop k (unlines ls) = []"
      then show ?thesis
        using Cons.prems(2) n by simp
    next
      show "\<forall>l \<in> set ls. line_ok l"
        using Cons.prems(3) by simp
    qed
  qed
qed

text \<open>The buffer holds the first line at least, so only whole lines leave it.\<close>

lemma first_buffer:
  assumes ok: "\<forall>l \<in> set ls. line_ok l"
  obtains ks l r ms where "ls = ks @ l # ms" "ks \<noteq> []" "length r \<le> length l"
      "CHR 0x00 \<notin> set r" "CHR 0x0A \<notin> set r"
      "take (BUFSIZE - 1) (unlines ls) = unlines ks @ r"
      "r @ drop (BUFSIZE - 1) (unlines ls) = unlines (l # ms)"
    | "take (BUFSIZE - 1) (unlines ls) = unlines ls" "drop (BUFSIZE - 1) (unlines ls) = []"
proof (rule cut_lines [OF ok, of "BUFSIZE - 1"])
  fix ks l ms r
  assume c: "ls = ks @ l # ms" "take (BUFSIZE - 1) (unlines ls) = unlines ks @ r"
    "l = r @ drop (length r) l"
    "drop (BUFSIZE - 1) (unlines ls) = drop (length r) l @ CHR 0x0A # unlines ms"
  have l: "line_ok l"
    using ok c(1) by auto
  have r: "set r \<subseteq> set l" "length r \<le> length l"
    using c(3) by (metis set_append Un_upper1, metis length_append le_add1)
  have "ks \<noteq> []"
  proof
    assume k: "ks = []"
    then have "length r = min (BUFSIZE - 1) (length (unlines ls))"
      using arg_cong [OF c(2), of length] by simp
    then show False
      using r(2) l k c(1) by (simp add: line_ok_def min_def split: if_splits)
  qed
  moreover have "r @ drop (BUFSIZE - 1) (unlines ls) = unlines (l # ms)"
    using c(3,4) by (metis append.assoc unlines_simps(2))
  ultimately show ?thesis
    using that(1) [of ks l ms r] c(1,2) r l by (auto simp: line_ok_def)
qed (rule that(2))

lemma grep_loop_done:
  "grep_loop read_file pattern [] [] out = Some (out, [])"
  by (subst grep_loop.simps) (simp add: read_file_def)

lemma grep_loop_step:
  assumes "length kept + 1 < BUFSIZE" "f \<noteq> []"
    and "grep_lines pattern (take (BUFSIZE - 1) (kept @ f)) out = (out', p)"
  shows "grep_loop read_file pattern kept f out =
    grep_loop read_file pattern (if length p = length (take (BUFSIZE - 1) (kept @ f)) then [] else p)
      (drop (BUFSIZE - 1) (kept @ f)) out'"
proof -
  have t: "take (BUFSIZE - 1) (kept @ f) = kept @ take (BUFSIZE - length kept - 1) f"
    "drop (BUFSIZE - 1) (kept @ f) = drop (BUFSIZE - length kept - 1) f"
    using assms(1) by (simp_all add: diff_commute)
  show ?thesis
    using assms unfolding t
    by (subst grep_loop.simps) (simp add: read_file_def)
qed

lemma grep_loop_lines:
  assumes "\<forall>l \<in> set ls. line_ok l" "kept @ f = unlines ls"
    and "ls = [] \<longrightarrow> kept = []" "ls \<noteq> [] \<longrightarrow> length kept \<le> length (hd ls)"
  shows "grep_loop read_file pattern kept f out = Some (out @ unlines (filter (match pattern) ls), [])"
  using assms
proof (induction "length ls" arbitrary: ls kept f out rule: less_induct)
  case less
  show ?case
  proof (cases ls)
    case Nil
    with less.prems show ?thesis
      by (simp add: grep_loop_done)
  next
    case (Cons l1 ls1)
    have short: "length kept + 1 < BUFSIZE"
      using less.prems(1,4) Cons by (simp add: line_ok_def)
    have "length (unlines ls) > length kept"
      using less.prems(4) Cons by simp
    then have f: "f \<noteq> []"
      using less.prems(2) by auto
    note step = grep_loop_step [OF short f, unfolded less.prems(2)]
    show ?thesis
    proof (rule first_buffer [OF less.prems(1)])
      fix ks l ms r
      assume c: "ls = ks @ l # ms" "ks \<noteq> []" "length r \<le> length l"
        and r: "CHR 0x00 \<notin> set r" "CHR 0x0A \<notin> set r"
        and t: "take (BUFSIZE - 1) (unlines ls) = unlines ks @ r"
        and d: "r @ drop (BUFSIZE - 1) (unlines ls) = unlines (l # ms)"
      have ok: "\<forall>l \<in> set ks. line_ok l" "\<forall>l \<in> set (l # ms). line_ok l"
        using less.prems(1) c(1) by auto
      have len: "length r \<noteq> length (unlines ks @ r)" "length (l # ms) < length ls"
        using c(1,2) by (cases ks; simp)+
      let ?out = "out @ unlines (filter (match pattern) ks)"
      have "grep_loop read_file pattern kept f out =
          grep_loop read_file pattern r (drop (BUFSIZE - 1) (unlines ls)) ?out"
        using step [OF grep_lines_unlines [OF ok(1) r, folded t]] len(1) unfolding t by auto
      also have "\<dots> = Some (?out @ unlines (filter (match pattern) (l # ms)), [])"
        using less.hyps [OF len(2) ok(2) d, of ?out] c(3) by simp
      finally show ?thesis
        using c(1) by simp
    next
      assume c: "take (BUFSIZE - 1) (unlines ls) = unlines ls" "drop (BUFSIZE - 1) (unlines ls) = []"
      have "grep_lines pattern (take (BUFSIZE - 1) (unlines ls)) out =
          (out @ unlines (filter (match pattern) ls), [])"
        unfolding c(1) using grep_lines_unlines [OF less.prems(1), of "[]" pattern out] by simp
      from step [OF this] show ?thesis
        unfolding c by (simp add: grep_loop_done)
    qed
  qed
qed

text \<open>
  \<^bold>\<open>C40.\<close> On a regular file of lines of at most 1022 characters without NUL bytes, \<^verbatim>\<open>grep\<close> returns and
  has written exactly the lines that match the pattern, in order, however the lines fall into the
  buffers it reads.
\<close>

theorem grep_prints_matching_lines:
  assumes "\<forall>l \<in> set ls. line_ok l"
  shows "grep read_file pattern (unlines ls) = Some (unlines (filter (match pattern) ls), [])"
  unfolding grep_def using grep_loop_lines [OF assms, of "[]"] by simp

theorem grep_prints_matching_lines_witness:
  "grep read_file ''^a.*c$'' (unlines [''abc'', ''cab'', ''ac'', ''abcd'']) =
     Some (unlines [''abc'', ''ac''], [])"
  using grep_prints_matching_lines [of "[''abc'', ''cab'', ''ac'', ''abcd'']" "''^a.*c$''"]
  by (simp add: line_ok_def BUFSIZE_def match_def matchhere.simps matchstar.simps)

text \<open>
  A pipe or the console may return a part of a line. The loop then finds no newline in its buffer and
  drops it, so a line that arrives in two reads is not found.
\<close>

definition read_chunks :: "string list \<Rightarrow> nat \<Rightarrow> string \<times> string list" where
  "read_chunks cs n = (case cs of [] \<Rightarrow> ([], []) | c # cs \<Rightarrow> (take n c, cs))"

lemma grep_loses_split_line:
  "grep read_chunks ''hello'' [''hel'', ''lo'' @ [CHR 0x0A]] = Some ([], [])"
  "grep read_chunks ''hello'' [''hello'' @ [CHR 0x0A]] = Some (''hello'' @ [CHR 0x0A], [])"
  by (simp_all add: grep_def grep_loop.simps grep_lines.simps read_chunks_def BUFSIZE_def match_def
      matchhere.simps match_loop.simps)

end
