(* ===== verification/Xv6_Sh.thy ===== *)
theory Xv6_Sh
  imports Xv6_Prelude
begin

text \<open>
  The shell, \<^verbatim>\<open>sh.c\<close>: its command trees, tokenizer, parser and interpreter. The parser works on the
  bytes of the line buffer, \<open>buf i\<close> being \<^verbatim>\<open>buf[i]\<close>; a \<^verbatim>\<open>char *\<close> into the buffer is an index, and a word
  of a command the pair of its start and its end (\<^verbatim>\<open>argv[i]\<close>, \<^verbatim>\<open>eargv[i]\<close>; \<^verbatim>\<open>file\<close>, \<^verbatim>\<open>efile\<close>). The memory the
  constructors take from \<^verbatim>\<open>malloc\<close> is assumed to be there: a command is a value of type \<open>cmd\<close>.

  Loops are partial functions whose value \<open>None\<close> is divergence; the mutually recursive parsers take the
  depth of calls the stack allows, and are \<open>None\<close> when it is exceeded.
\<close>

section \<open>Commands\<close>

datatype 'w cmd =
    EXEC "'w list"
  | REDIR "'w cmd" 'w int int
  | PIPE "'w cmd" "'w cmd"
  | LIST "'w cmd" "'w cmd"
  | BACK "'w cmd"

type_synonym buffer = "nat \<Rightarrow> char"
type_synonym ptrs = "nat \<times> nat"

definition MAXARGS :: nat where "MAXARGS = 10"

definition O_RDONLY :: int where "O_RDONLY = 0"
definition O_WRONLY_CREATE :: int where "O_WRONLY_CREATE = 513"

text \<open>A parser returns or prints a message on file 2 and exits (\<^verbatim>\<open>panic\<close>).\<close>

datatype 'a parsed = Ok 'a | Fail string

definition panic_sh :: "string \<Rightarrow> 'a parsed" where
  "panic_sh s = Fail (s @ [CHR 0x0A])"

definition sh_then :: "'a parsed option \<Rightarrow> ('a \<Rightarrow> 'b parsed option) \<Rightarrow> 'b parsed option" where
  "sh_then m f = (case m of None \<Rightarrow> None | Some (Fail s) \<Rightarrow> Some (Fail s) | Some (Ok x) \<Rightarrow> f x)"

lemma sh_then_simps [simp]:
  "sh_then None f = None" "sh_then (Some (Fail s)) f = Some (Fail s)" "sh_then (Some (Ok x)) f = f x"
  by (simp_all add: sh_then_def)


section \<open>Tokens\<close>

definition whitespace :: string where
  "whitespace = [CHR '' '', CHR 0x09, CHR 0x0D, CHR 0x0A, CHR 0x0B]"

definition symbols :: string where
  "symbols = ''<|>&;()''"

definition is_space :: "char \<Rightarrow> bool" where
  "is_space c \<longleftrightarrow> c \<in> set whitespace"

definition is_symbol :: "char \<Rightarrow> bool" where
  "is_symbol c \<longleftrightarrow> c \<in> set symbols"

text \<open>The two loops of the tokenizer.\<close>

function skip_space :: "buffer \<Rightarrow> nat \<Rightarrow> nat \<Rightarrow> nat" where
  "skip_space buf es s = (if s < es \<and> is_space (buf s) then skip_space buf es (Suc s) else s)"
  by pat_completeness auto
termination by (relation "measure (\<lambda>(_, es, s). es - s)") auto

function skip_word :: "buffer \<Rightarrow> nat \<Rightarrow> nat \<Rightarrow> nat" where
  "skip_word buf es s =
     (if s < es \<and> \<not> is_space (buf s) \<and> \<not> is_symbol (buf s) then skip_word buf es (Suc s) else s)"
  by pat_completeness auto
termination by (relation "measure (\<lambda>(_, es, s). es - s)") auto

declare skip_space.simps [simp del] skip_word.simps [simp del]

text \<open>\<^verbatim>\<open>gettoken\<close> returns the kind of token, its start and its end, and the new \<^verbatim>\<open>*ps\<close>.\<close>

definition gettoken :: "buffer \<Rightarrow> nat \<Rightarrow> nat \<Rightarrow> char \<times> nat \<times> nat \<times> nat" where
  "gettoken buf es ps =
     (let q = skip_space buf es ps;
          c = buf q;
          (ret, eq) =
            (if c = CHR 0x00 then (c, q)
             else if c \<in> set ''|();&<'' then (c, Suc q)
             else if c = CHR ''>'' then
               (if buf (Suc q) = CHR ''>'' then (CHR ''+'', Suc (Suc q)) else (c, Suc q))
             else (CHR ''a'', skip_word buf es q))
      in (ret, q, eq, skip_space buf es eq))"

definition peek :: "buffer \<Rightarrow> nat \<Rightarrow> string \<Rightarrow> nat \<Rightarrow> bool \<times> nat" where
  "peek buf es toks ps =
     (let s = skip_space buf es ps in (buf s \<noteq> CHR 0x00 \<and> buf s \<in> set toks, s))"


section \<open>The parser\<close>

text \<open>\<^verbatim>\<open>parseredirs\<close>: both \<^verbatim>\<open>>\<close> and \<^verbatim>\<open>>>\<close> open the file with the same mode.\<close>

definition redir :: "char \<Rightarrow> ptrs cmd \<Rightarrow> nat \<Rightarrow> nat \<Rightarrow> ptrs cmd" where
  "redir tok cmd q eq =
     (if tok = CHR ''<'' then REDIR cmd (q, eq) O_RDONLY 0
      else if tok = CHR ''>'' then REDIR cmd (q, eq) O_WRONLY_CREATE 1
      else if tok = CHR ''+'' then REDIR cmd (q, eq) O_WRONLY_CREATE 1
      else cmd)"

partial_function (option) parseredirs ::
  "buffer \<Rightarrow> nat \<Rightarrow> ptrs cmd \<Rightarrow> nat \<Rightarrow> (ptrs cmd \<times> nat) parsed option" where
  "parseredirs buf es cmd ps =
     (let (b, ps) = peek buf es ''<>'' ps in
      if b then
        let (tok, _, _, ps) = gettoken buf es ps;
            (t, q, eq, ps) = gettoken buf es ps
        in if t \<noteq> CHR ''a'' then Some (panic_sh ''missing file for redirection'')
           else parseredirs buf es (redir tok cmd q eq) ps
      else Some (Ok (cmd, ps)))"

text \<open>
  In \<^verbatim>\<open>parseexec\<close> the pointer \<open>cmd\<close> to the \<^verbatim>\<open>execcmd\<close> stays valid while redirections are wrapped around it:
  \<^verbatim>\<open>cmd->argv[argc] = q\<close> changes the innermost command of \<^verbatim>\<open>ret\<close>.
\<close>

primrec add_arg :: "'w \<Rightarrow> 'w cmd \<Rightarrow> 'w cmd" where
  "add_arg w (EXEC ws) = EXEC (ws @ [w])"
| "add_arg w (REDIR c f m fd) = REDIR (add_arg w c) f m fd"
| "add_arg w (PIPE l r) = PIPE l r"
| "add_arg w (LIST l r) = LIST l r"
| "add_arg w (BACK c) = BACK c"

partial_function (option) parseargs ::
  "buffer \<Rightarrow> nat \<Rightarrow> nat \<Rightarrow> ptrs cmd \<Rightarrow> nat \<Rightarrow> (ptrs cmd \<times> nat) parsed option" where
  "parseargs buf es argc ret ps =
     (let (b, ps) = peek buf es ''|)&;'' ps in
      if b then Some (Ok (ret, ps))
      else
        let (tok, q, eq, ps) = gettoken buf es ps in
        if tok = CHR 0x00 then Some (Ok (ret, ps))
        else if tok \<noteq> CHR ''a'' then Some (panic_sh ''syntax'')
        else
          let ret = add_arg (q, eq) ret; argc = Suc argc in
          if argc \<ge> MAXARGS then Some (panic_sh ''too many args'')
          else
            case parseredirs buf es ret ps of
              None \<Rightarrow> None
            | Some r \<Rightarrow> (case r of Fail e \<Rightarrow> Some (Fail e)
                | Ok rp \<Rightarrow> parseargs buf es argc (fst rp) (snd rp)))"

text \<open>The loop of \<^verbatim>\<open>parseline\<close> over \<^verbatim>\<open>&\<close>.\<close>

partial_function (option) parsebacks ::
  "buffer \<Rightarrow> nat \<Rightarrow> ptrs cmd \<Rightarrow> nat \<Rightarrow> (ptrs cmd \<times> nat) parsed option" where
  "parsebacks buf es cmd ps =
     (let (b, ps) = peek buf es ''&'' ps in
      if b then let (_, _, _, ps) = gettoken buf es ps in parsebacks buf es (BACK cmd) ps
      else Some (Ok (cmd, ps)))"

fun parseline :: "nat \<Rightarrow> buffer \<Rightarrow> nat \<Rightarrow> nat \<Rightarrow> (ptrs cmd \<times> nat) parsed option"
  and parsepipe :: "nat \<Rightarrow> buffer \<Rightarrow> nat \<Rightarrow> nat \<Rightarrow> (ptrs cmd \<times> nat) parsed option"
  and parseexec :: "nat \<Rightarrow> buffer \<Rightarrow> nat \<Rightarrow> nat \<Rightarrow> (ptrs cmd \<times> nat) parsed option"
  and parseblock :: "nat \<Rightarrow> buffer \<Rightarrow> nat \<Rightarrow> nat \<Rightarrow> (ptrs cmd \<times> nat) parsed option" where
  "parseline 0 buf es ps = None"
| "parseline (Suc n) buf es ps =
     sh_then (parsepipe n buf es ps) (\<lambda>(cmd, ps).
     sh_then (parsebacks buf es cmd ps) (\<lambda>(cmd, ps).
       let (b, ps) = peek buf es '';'' ps in
       if b then
         let (_, _, _, ps) = gettoken buf es ps in
         sh_then (parseline n buf es ps) (\<lambda>(right, ps). Some (Ok (LIST cmd right, ps)))
       else Some (Ok (cmd, ps))))"
| "parsepipe 0 buf es ps = None"
| "parsepipe (Suc n) buf es ps =
     sh_then (parseexec n buf es ps) (\<lambda>(cmd, ps).
       let (b, ps) = peek buf es ''|'' ps in
       if b then
         let (_, _, _, ps) = gettoken buf es ps in
         sh_then (parsepipe n buf es ps) (\<lambda>(right, ps). Some (Ok (PIPE cmd right, ps)))
       else Some (Ok (cmd, ps)))"
| "parseexec 0 buf es ps = None"
| "parseexec (Suc n) buf es ps =
     (let (b, ps) = peek buf es ''('' ps in
      if b then parseblock n buf es ps
      else
        sh_then (parseredirs buf es (EXEC []) ps) (\<lambda>(ret, ps).
        parseargs buf es 0 ret ps))"
| "parseblock 0 buf es ps = None"
| "parseblock (Suc n) buf es ps =
     (let (b, ps) = peek buf es ''('' ps in
      if \<not> b then Some (panic_sh ''parseblock'')
      else
        let (_, _, _, ps) = gettoken buf es ps in
        sh_then (parseline n buf es ps) (\<lambda>(cmd, ps).
          let (b, ps) = peek buf es '')'' ps in
          if \<not> b then Some (panic_sh ''syntax - missing )'')
          else let (_, _, _, ps) = gettoken buf es ps in parseredirs buf es cmd ps))"

primrec nulterminate :: "ptrs cmd \<Rightarrow> buffer \<Rightarrow> buffer" where
  "nulterminate (EXEC ws) buf = fold (\<lambda>w buf. buf(snd w := CHR 0x00)) ws buf"
| "nulterminate (REDIR c f m fd) buf = (nulterminate c buf)(snd f := CHR 0x00)"
| "nulterminate (PIPE l r) buf = nulterminate r (nulterminate l buf)"
| "nulterminate (LIST l r) buf = nulterminate r (nulterminate l buf)"
| "nulterminate (BACK c) buf = nulterminate c buf"

text \<open>
  \<^verbatim>\<open>parsecmd\<close> of a line whose \<^verbatim>\<open>strlen\<close> is \<open>es\<close>, with the calls nested at most four deep for each character.
\<close>

definition parse_depth :: "nat \<Rightarrow> nat" where
  "parse_depth n = 4 * n + 4"

definition parsecmd :: "buffer \<Rightarrow> nat \<Rightarrow> (ptrs cmd \<times> buffer) parsed option" where
  "parsecmd buf es =
     sh_then (parseline (parse_depth es) buf es 0) (\<lambda>(cmd, s).
       let (_, s) = peek buf es [] s in
       if s \<noteq> es then
         Some (Fail (''leftovers: '' @ map buf [s..<es] @ [CHR 0x0A] @ ''syntax'' @ [CHR 0x0A]))
       else Some (Ok (cmd, nulterminate cmd buf)))"


section \<open>Tokens and their bounds\<close>

text \<open>A line of the buffer, and the words in it.\<close>

definition line_at :: "buffer \<Rightarrow> nat \<Rightarrow> bool" where
  "line_at buf es \<longleftrightarrow> buf es = CHR 0x00 \<and> (\<forall>i < es. buf i \<noteq> CHR 0x00)"

definition word_char :: "char \<Rightarrow> bool" where
  "word_char c \<longleftrightarrow> c \<noteq> CHR 0x00 \<and> \<not> is_space c \<and> \<not> is_symbol c"

definition word_range :: "buffer \<Rightarrow> nat \<Rightarrow> ptrs \<Rightarrow> bool" where
  "word_range buf es w \<longleftrightarrow>
     fst w < snd w \<and> snd w \<le> es \<and> (\<forall>i \<in> {fst w..<snd w}. word_char (buf i)) \<and>
     \<not> word_char (buf (snd w))"

lemma NUL_not_word [simp]: "\<not> word_char (CHR 0x00)"
  by (simp add: word_char_def)

lemma skip_space_bounds:
  "s \<le> es \<Longrightarrow> s \<le> skip_space buf es s \<and> skip_space buf es s \<le> es"
proof (induction buf es s rule: skip_space.induct)
  case (1 buf es s)
  then show ?case by (subst (1 2) skip_space.simps) auto
qed

lemma skip_space_stops: "skip_space buf es s < es \<Longrightarrow> \<not> is_space (buf (skip_space buf es s))"
proof (induction buf es s rule: skip_space.induct)
  case (1 buf es s)
  show ?case
  proof (cases "s < es \<and> is_space (buf s)")
    case True
    then have "skip_space buf es s = skip_space buf es (Suc s)"
      by (subst skip_space.simps) simp
    then show ?thesis
      using 1(1) [OF True] 1(2) by simp
  next
    case False
    then have "skip_space buf es s = s"
      by (subst skip_space.simps) auto
    then show ?thesis
      using False 1(2) by auto
  qed
qed

lemma skip_word_range:
  "line_at buf es \<Longrightarrow> s \<le> es \<Longrightarrow>
   s \<le> skip_word buf es s \<and> skip_word buf es s \<le> es \<and>
   (\<forall>i \<in> {s..<skip_word buf es s}. word_char (buf i)) \<and> \<not> word_char (buf (skip_word buf es s))"
proof (induction buf es s rule: skip_word.induct)
  case (1 buf es s)
  show ?case
  proof (cases "s < es \<and> \<not> is_space (buf s) \<and> \<not> is_symbol (buf s)")
    case True
    then have "skip_word buf es s = skip_word buf es (Suc s)"
      by (subst skip_word.simps) simp
    moreover have "word_char (buf s)"
      using True 1(2) by (simp add: word_char_def line_at_def)
    moreover have "Suc s \<le> es"
      using True by simp
    ultimately show ?thesis
      using 1(1) [OF True 1(2)] by (auto simp: Suc_le_eq nat_less_le)
  next
    case False
    then have "skip_word buf es s = s"
      by (subst skip_word.simps) auto
    then show ?thesis
      using False 1(2,3) by (auto simp: word_char_def line_at_def)
  qed
qed

lemma gettoken_bounds:
  assumes l: "line_at buf es" and ps: "ps \<le> es" and g: "gettoken buf es ps = (t, q, e, ps')"
  shows "ps \<le> ps'" "ps' \<le> es" "t \<noteq> CHR 0x00 \<Longrightarrow> ps < ps'"
    "t = CHR ''a'' \<Longrightarrow> word_range buf es (q, e)"
proof -
  let ?q = "skip_space buf es ps"
  have q: "ps \<le> ?q" "?q \<le> es" "q = ?q"
    using skip_space_bounds [OF ps] g by (auto simp: gettoken_def Let_def split: prod.splits)
  have nz: "buf i \<noteq> CHR 0x00 \<Longrightarrow> i \<le> es \<Longrightarrow> i < es" for i
    using l by (auto simp: line_at_def le_less)
  note w = skip_word_range [OF l q(2)]
  have first: "buf ?q \<noteq> CHR 0x00 \<Longrightarrow> buf ?q \<notin> set ''|();&<'' \<Longrightarrow> buf ?q \<noteq> CHR ''>'' \<Longrightarrow>
      skip_word buf es ?q \<noteq> ?q"
    using w skip_space_stops [of buf es ps] nz [of ?q] q(2)
    by (auto simp: word_char_def is_symbol_def symbols_def)
  have e: "q \<le> e" "e \<le> es" "t \<noteq> CHR 0x00 \<Longrightarrow> q < e" "t = CHR ''a'' \<Longrightarrow> word_range buf es (q, e)"
    using g q(2,3) w nz [of ?q] nz [of "Suc ?q"] first
    by (auto simp: gettoken_def Let_def word_range_def Suc_le_eq split: if_splits prod.splits)
  have "ps' = skip_space buf es e"
    using g by (auto simp: gettoken_def Let_def split: prod.splits)
  then show "ps \<le> ps'" "ps' \<le> es" "t \<noteq> CHR 0x00 \<Longrightarrow> ps < ps'"
    using skip_space_bounds [OF e(2), of buf] e(1,3) q(1,3) by auto
  show "t = CHR ''a'' \<Longrightarrow> word_range buf es (q, e)"
    by (rule e(4))
qed

lemma peek_bounds:
  assumes l: "line_at buf es" and ps: "ps \<le> es" and g: "peek buf es toks ps = (b, ps')"
  shows "ps \<le> ps'" "ps' \<le> es" "b \<Longrightarrow> buf ps' \<noteq> CHR 0x00 \<and> buf ps' \<in> set toks"
    "ps' < es \<Longrightarrow> \<not> is_space (buf ps')"
  using skip_space_bounds [OF ps, of buf] skip_space_stops [of buf es ps] g
  by (auto simp: peek_def Let_def)

text \<open>After a successful \<^verbatim>\<open>peek\<close> the next token is not the end of the line.\<close>

lemma gettoken_after_peek:
  assumes l: "line_at buf es" and ps: "ps \<le> es" and g: "peek buf es toks ps = (True, s)"
    and t: "gettoken buf es s = (t, q, e, ps')"
  shows "ps < ps'" "ps' \<le> es" "s \<le> es"
proof -
  note p = peek_bounds [OF l ps g]
  have "s < es"
    using p(2,3) l by (auto simp: line_at_def le_less)
  then have "skip_space buf es s = s"
    using p(4) by (subst skip_space.simps) auto
  then have "t \<noteq> CHR 0x00"
    using t p(3) by (auto simp: gettoken_def Let_def split: if_splits prod.splits)
  with gettoken_bounds [OF l p(2) t] p(1) show "ps < ps'" "ps' \<le> es" "s \<le> es"
    using p(2) by auto
qed


section \<open>The parser returns\<close>

text \<open>
  What a parser started at \<open>ps\<close> gives: it returns, and a command it returns has words of the line only
  and leaves the position between \<open>ps\<close> and the end of the line.
\<close>

definition good_words :: "buffer \<Rightarrow> nat \<Rightarrow> ptrs cmd \<Rightarrow> bool" where
  "good_words buf es c \<longleftrightarrow> (\<forall>w \<in> set_cmd c. word_range buf es w)"

definition parses :: "buffer \<Rightarrow> nat \<Rightarrow> nat \<Rightarrow> (ptrs cmd \<times> nat) parsed option \<Rightarrow> bool" where
  "parses buf es ps m \<longleftrightarrow>
     (case m of None \<Rightarrow> False | Some (Fail e) \<Rightarrow> True
      | Some (Ok (c, s)) \<Rightarrow> ps \<le> s \<and> s \<le> es \<and> good_words buf es c)"

lemma parses_simps [simp]:
  "parses buf es ps (Some (Fail e))" "parses buf es ps (Some (panic_sh e))" "\<not> parses buf es ps None"
  "parses buf es ps (Some (Ok (c, s))) \<longleftrightarrow> ps \<le> s \<and> s \<le> es \<and> good_words buf es c"
  by (simp_all add: parses_def panic_sh_def)

lemma good_words_simps [simp]:
  "good_words buf es (EXEC ws) \<longleftrightarrow> (\<forall>w \<in> set ws. word_range buf es w)"
  "good_words buf es (REDIR c f m fd) \<longleftrightarrow> good_words buf es c \<and> word_range buf es f"
  "good_words buf es (PIPE c d) \<longleftrightarrow> good_words buf es c \<and> good_words buf es d"
  "good_words buf es (LIST c d) \<longleftrightarrow> good_words buf es c \<and> good_words buf es d"
  "good_words buf es (BACK c) \<longleftrightarrow> good_words buf es c"
  by (auto simp: good_words_def)

lemma good_words_add_arg:
  "good_words buf es c \<Longrightarrow> word_range buf es w \<Longrightarrow> good_words buf es (add_arg w c)"
  by (induction c) auto

lemma parses_mono: "parses buf es ps m \<Longrightarrow> ps' \<le> ps \<Longrightarrow> parses buf es ps' m"
  by (auto simp: parses_def split: option.splits parsed.splits)

lemma parses_sh_then:
  assumes "parses buf es ps m"
    and "\<And>c s. ps \<le> s \<Longrightarrow> s \<le> es \<Longrightarrow> good_words buf es c \<Longrightarrow> parses buf es s (f (c, s))"
  shows "parses buf es ps (sh_then m f)"
proof -
  consider e where "m = Some (Fail e)"
    | c s where "m = Some (Ok (c, s))" "ps \<le> s" "s \<le> es" "good_words buf es c"
    using assms(1) by (auto simp: parses_def split: option.splits parsed.splits)
  then show ?thesis
    using assms(2) by cases (auto intro: parses_mono)
qed

lemma parseredirs_parses:
  assumes l: "line_at buf es" and "ps \<le> es" "good_words buf es cmd"
  shows "parses buf es ps (parseredirs buf es cmd ps)"
  using assms(2,3)
proof (induction "es - ps" arbitrary: ps cmd rule: less_induct)
  case less
  obtain b s where p: "peek buf es ''<>'' ps = (b, s)"
    by fastforce
  note pb = peek_bounds [OF l less.prems(1) p]
  show ?case
  proof (cases b)
    case False
    then show ?thesis
      using p pb less.prems by (subst parseredirs.simps) simp
  next
    case True
    with p have p: "peek buf es ''<>'' ps = (True, s)"
      by simp
    obtain tok q0 e0 s1 t q e s2 where
      g: "gettoken buf es s = (tok, q0, e0, s1)" "gettoken buf es s1 = (t, q, e, s2)"
      by (metis prod.exhaust)
    note a = gettoken_after_peek [OF l less.prems(1) p g(1)]
    note b = gettoken_bounds [OF l a(2) g(2)]
    have "t = CHR ''a'' \<Longrightarrow> parses buf es s2 (parseredirs buf es (redir tok cmd q e) s2)"
      using less.prems a b by (intro less.hyps) (auto simp: redir_def)
    then show ?thesis
      using p g a(1) b(1) by (subst parseredirs.simps) (auto intro: parses_mono)
  qed
qed

lemma parseargs_eq:
  "parseargs buf es argc ret ps =
     (let (b, ps) = peek buf es ''|)&;'' ps in
      if b then Some (Ok (ret, ps))
      else
        let (tok, q, eq, ps) = gettoken buf es ps in
        if tok = CHR 0x00 then Some (Ok (ret, ps))
        else if tok \<noteq> CHR ''a'' then Some (panic_sh ''syntax'')
        else if Suc argc \<ge> MAXARGS then Some (panic_sh ''too many args'')
        else sh_then (parseredirs buf es (add_arg (q, eq) ret) ps)
               (\<lambda>rp. parseargs buf es (Suc argc) (fst rp) (snd rp)))"
proof -
  have *: "(case m of None \<Rightarrow> None | Some r \<Rightarrow> case r of Fail e \<Rightarrow> Some (Fail e) | Ok rp \<Rightarrow> f rp) = sh_then m f"
    for m and f :: "ptrs cmd \<times> nat \<Rightarrow> (ptrs cmd \<times> nat) parsed option"
    by (auto simp: sh_then_def split: option.splits parsed.splits)
  show ?thesis
    by (subst parseargs.simps) (auto simp: * Let_def split: prod.splits)
qed

lemma parseargs_parses:
  assumes l: "line_at buf es" and "ps \<le> es" "good_words buf es ret"
  shows "parses buf es ps (parseargs buf es argc ret ps)"
  using assms(2,3)
proof (induction "es - ps" arbitrary: ps ret argc rule: less_induct)
  case less
  obtain b s where p: "peek buf es ''|)&;'' ps = (b, s)"
    by fastforce
  obtain t q e s1 where g: "gettoken buf es s = (t, q, e, s1)"
    by (metis prod.exhaust)
  note pb = peek_bounds [OF l less.prems(1) p]
  note tb = gettoken_bounds [OF l pb(2) g]
  let ?r = "add_arg (q, e) ret"
  have more: "parses buf es s1 (sh_then (parseredirs buf es ?r s1)
      (\<lambda>rp. parseargs buf es (Suc argc) (fst rp) (snd rp)))" if "t = CHR ''a''"
  proof (rule parses_sh_then)
    show "parses buf es s1 (parseredirs buf es ?r s1)"
      using that l less.prems(2) tb by (intro parseredirs_parses good_words_add_arg) auto
    show "parses buf es s2 (parseargs buf es (Suc argc) (fst (c, s2)) (snd (c, s2)))"
      if "s1 \<le> s2" "s2 \<le> es" "good_words buf es c" for c s2
      using less.hyps [of s2 c "Suc argc"] that less.prems(1) pb(1) tb(3) \<open>t = CHR ''a''\<close> by simp
  qed
  show ?case
    using p g pb less.prems tb more
    by (subst parseargs_eq) (auto simp: Let_def intro: parses_mono)
qed

lemma parsebacks_parses:
  assumes l: "line_at buf es" and "ps \<le> es" "good_words buf es cmd"
  shows "parses buf es ps (parsebacks buf es cmd ps)"
  using assms(2,3)
proof (induction "es - ps" arbitrary: ps cmd rule: less_induct)
  case less
  obtain b s where p: "peek buf es ''&'' ps = (b, s)"
    by fastforce
  obtain t q e s1 where g: "gettoken buf es s = (t, q, e, s1)"
    by (metis prod.exhaust)
  note pb = peek_bounds [OF l less.prems(1) p]
  show ?case
  proof (cases b)
    case False
    then show ?thesis
      using p pb less.prems by (subst parsebacks.simps) simp
  next
    case True
    with p have p: "peek buf es ''&'' ps = (True, s)"
      by simp
    note a = gettoken_after_peek [OF l less.prems(1) p g]
    then have "parses buf es s1 (parsebacks buf es (BACK cmd) s1)"
      using less.prems by (intro less.hyps) auto
    then show ?thesis
      using p g a(1) by (subst parsebacks.simps) (auto intro: parses_mono)
  qed
qed

text \<open>The parsers look at the next symbol and consume it.\<close>

lemma parses_peek:
  assumes l: "line_at buf es" and ps: "ps \<le> es"
    and f: "\<And>s. ps < s \<Longrightarrow> s \<le> es \<Longrightarrow> parses buf es s (f s)"
    and g: "\<And>s. ps \<le> s \<Longrightarrow> s \<le> es \<Longrightarrow> parses buf es s (g s)"
  shows "parses buf es ps
    (case peek buf es toks ps of
       (b, ps) \<Rightarrow> if b then case gettoken buf es ps of (_, _, _, ps) \<Rightarrow> f ps else g ps)"
proof -
  obtain b s where p: "peek buf es toks ps = (b, s)"
    by fastforce
  obtain t q e s1 where k: "gettoken buf es s = (t, q, e, s1)"
    by (metis prod.exhaust)
  show ?thesis
  proof (cases b)
    case True
    then have "peek buf es toks ps = (True, s)"
      using p by simp
    from gettoken_after_peek [OF l ps this k] show ?thesis
      using True p k f by (auto intro: parses_mono less_imp_le)
  next
    case False
    then show ?thesis
      using p peek_bounds [OF l ps p] g by (auto intro: parses_mono)
  qed
qed

lemma if_not: "(if \<not> b then x else y) = (if b then y else x)"
  by simp

lemma parse_parses:
  assumes l: "line_at buf es"
  shows "\<forall>ps \<le> es.
    (parse_depth (es - ps) \<le> n \<longrightarrow> parses buf es ps (parseline n buf es ps)) \<and>
    (parse_depth (es - ps) \<le> n + 1 \<longrightarrow> parses buf es ps (parsepipe n buf es ps)) \<and>
    (parse_depth (es - ps) \<le> n + 2 \<longrightarrow> parses buf es ps (parseexec n buf es ps)) \<and>
    (parse_depth (es - ps) \<le> n + 3 \<longrightarrow> parses buf es ps (parseblock n buf es ps))"
proof (induction n)
  case 0
  show ?case
    by (simp add: parse_depth_def)
next
  case (Suc n)
  have line: "ps \<le> es \<Longrightarrow> parse_depth (es - ps) \<le> n \<Longrightarrow> parses buf es ps (parseline n buf es ps)"
    and pipe: "ps \<le> es \<Longrightarrow> parse_depth (es - ps) \<le> n + 1 \<Longrightarrow> parses buf es ps (parsepipe n buf es ps)"
    and exec: "ps \<le> es \<Longrightarrow> parse_depth (es - ps) \<le> n + 2 \<Longrightarrow> parses buf es ps (parseexec n buf es ps)"
    and block: "ps \<le> es \<Longrightarrow> parse_depth (es - ps) \<le> n + 3 \<Longrightarrow> parses buf es ps (parseblock n buf es ps)"
    for ps using Suc by auto
  show ?case
  proof (intro allI impI conjI)
    fix ps
    assume ps: "ps \<le> es"
    show "parses buf es ps (parseline (Suc n) buf es ps)" if "parse_depth (es - ps) \<le> Suc n"
      unfolding parseline.simps Let_def
    proof (rule parses_sh_then [OF pipe], use ps that in simp_all, goal_cases)
      case (1 c s)
      then show ?case
      proof (intro parses_sh_then [OF parsebacks_parses [OF l]], simp_all, goal_cases)
        case (1 c s)
        then show ?case
          by (intro parses_peek [OF l] parses_sh_then [OF line]) (auto simp: parse_depth_def)
      qed
    qed
    show "parses buf es ps (parsepipe (Suc n) buf es ps)" if "parse_depth (es - ps) \<le> Suc n + 1"
      unfolding parsepipe.simps Let_def
    proof (rule parses_sh_then [OF exec], use ps that in simp_all, goal_cases)
      case (1 c s)
      then show ?case
        by (intro parses_peek [OF l] parses_sh_then [OF pipe]) (auto simp: parse_depth_def)
    qed
    show "parses buf es ps (parseexec (Suc n) buf es ps)" if "parse_depth (es - ps) \<le> Suc n + 2"
    proof -
      obtain b s where p: "peek buf es ''('' ps = (b, s)"
        by fastforce
      note pb = peek_bounds [OF l ps p]
      have "parses buf es s (parseblock n buf es s)"
        using that pb(1,2) by (intro block) (auto simp: parse_depth_def)
      moreover have "parses buf es s (sh_then (parseredirs buf es (EXEC []) s)
          (\<lambda>(ret, ps). parseargs buf es 0 ret ps))"
        using pb(2) by (intro parses_sh_then [OF parseredirs_parses [OF l]])
          (auto intro: parseargs_parses [OF l])
      ultimately show ?thesis
        using p pb(1) by (auto intro: parses_mono)
    qed
    show "parses buf es ps (parseblock (Suc n) buf es ps)" if "parse_depth (es - ps) \<le> Suc n + 3"
      unfolding parseblock.simps Let_def if_not
    proof (rule parses_peek [OF l ps], goal_cases)
      case (1 s)
      with that have "parse_depth (es - s) \<le> n"
        by (simp add: parse_depth_def)
      with 1(2) show ?case
        by (intro parses_sh_then [OF line]) (auto intro!: parses_peek [OF l] parseredirs_parses [OF l])
    qed simp
  qed
qed

text \<open>
  \<^bold>\<open>C12.\<close> The parser of the shell returns on every line: no loop of the tokenizer or the parser runs
  forever and the recursion is at most four calls deep for each character of the line. What it
  returns is a message or a command whose words are non-empty words of the line.
\<close>

theorem parsecmd_returns:
  assumes "line_at buf es"
  shows "(\<exists>msg. parsecmd buf es = Some (Fail msg)) \<or>
    (\<exists>cmd. parsecmd buf es = Some (Ok (cmd, nulterminate cmd buf)) \<and>
       (\<forall>(q, e) \<in> set_cmd cmd. q < e \<and> e \<le> es \<and> (\<forall>i \<in> {q..<e}. word_char (buf i)) \<and> \<not> word_char (buf e)))"
proof -
  have "parses buf es 0 (parseline (parse_depth es) buf es 0)"
    using parse_parses [OF assms, of "parse_depth es"] by simp
  then consider e where "parseline (parse_depth es) buf es 0 = Some (Fail e)"
    | c s where "parseline (parse_depth es) buf es 0 = Some (Ok (c, s))" "good_words buf es c"
    by (auto simp: parses_def split: option.splits parsed.splits)
  then show ?thesis
  proof cases
    case 1
    then show ?thesis
      by (simp add: parsecmd_def)
  next
    case (2 c s)
    then show ?thesis
      by (cases "snd (peek buf es [] s) = es")
        (auto simp: parsecmd_def Let_def case_prod_unfold good_words_def word_range_def)
  qed
qed

text \<open>A buffer that holds a line and zeros after it, as \<^verbatim>\<open>getcmd\<close> leaves it.\<close>

definition line_buf :: "string \<Rightarrow> buffer" where
  "line_buf l i = (if i < length l then l ! i else CHR 0x00)"

lemma line_at_line_buf: "CHR 0x00 \<notin> set l \<Longrightarrow> line_at (line_buf l) (length l)"
  by (auto simp: line_at_def line_buf_def in_set_conv_nth)

theorem parsecmd_returns_witness:
  "line_at (line_buf ''(ls;cat<a)|wc'') 13 \<and>
   ((\<exists>msg. parsecmd (line_buf ''(ls;cat<a)|wc'') 13 = Some (Fail msg)) \<or>
    (\<exists>cmd. parsecmd (line_buf ''(ls;cat<a)|wc'') 13 =
       Some (Ok (cmd, nulterminate cmd (line_buf ''(ls;cat<a)|wc''))) \<and>
       (\<forall>(q, e) \<in> set_cmd cmd. q < e \<and> e \<le> 13 \<and> (\<forall>i \<in> {q..<e}. word_char (line_buf ''(ls;cat<a)|wc'' i)) \<and>
          \<not> word_char (line_buf ''(ls;cat<a)|wc'' e))))"
proof -
  have l: "line_at (line_buf ''(ls;cat<a)|wc'') 13"
    using line_at_line_buf [of "''(ls;cat<a)|wc''"] by (simp add: eval_nat_numeral)
  from parsecmd_returns [OF l] l show ?thesis
    by blast
qed

end
