(* ===== verification/Xv6_Shell.thy ===== *)
theory Xv6_Shell
  imports Xv6_Sh
begin

text \<open>
  The parser of the shell reads back what is written: a printer for commands, and the proof that
  parsing a printed command gives the command, with its words in the buffer as terminated strings.
\<close>

section \<open>The rest of the line\<close>

definition rest :: "buffer \<Rightarrow> nat \<Rightarrow> nat \<Rightarrow> string" where
  "rest buf es s = map buf [s..<es]"

lemma rest_Cons: "rest buf es s = c # t \<longleftrightarrow> s < es \<and> buf s = c \<and> rest buf es (Suc s) = t"
  by (cases "s < es") (auto simp: rest_def upt_conv_Cons)

lemma rest_append: "rest buf es s = u @ t \<Longrightarrow> rest buf es (s + length u) = t"
proof (induction u arbitrary: s)
  case (Cons c u)
  then show ?case
    using Cons.IH [of "Suc s"] by (simp add: rest_Cons)
qed simp

lemma rest_word: "rest buf es s = u @ t \<Longrightarrow> map buf [s..<s + length u] = u"
proof (induction u arbitrary: s)
  case (Cons c u)
  then show ?case
    using Cons.IH [of "Suc s"] by (simp add: rest_Cons upt_conv_Cons del: upt_Suc)
qed simp

lemma rest_Nil: "rest buf es s = [] \<Longrightarrow> s \<le> es \<Longrightarrow> s = es"
  by (auto simp: rest_def)

text \<open>A text a word may be followed by.\<close>

definition after_word :: "string \<Rightarrow> bool" where
  "after_word t \<longleftrightarrow> (case t of [] \<Rightarrow> True | c # _ \<Rightarrow> \<not> word_char c)"

lemma after_word_simps [simp]: "after_word []" "after_word (c # t) \<longleftrightarrow> \<not> word_char c"
  by (simp_all add: after_word_def)

lemma skip_space_same: "rest buf es s = c # t \<Longrightarrow> \<not> is_space c \<Longrightarrow> skip_space buf es s = s"
  by (subst skip_space.simps) (simp add: rest_Cons)

lemma skip_space_rest: "rest buf es (skip_space buf es s) = dropWhile is_space (rest buf es s)"
proof (induction buf es s rule: skip_space.induct)
  case (1 buf es s)
  show ?case
  proof (cases "s < es \<and> is_space (buf s)")
    case True
    then have "skip_space buf es s = skip_space buf es (Suc s)"
      by (subst skip_space.simps) simp
    moreover have "rest buf es s = buf s # rest buf es (Suc s)"
      using True by (simp add: rest_Cons)
    ultimately show ?thesis
      using 1 True by simp
  next
    case False
    then have e: "skip_space buf es s = s"
      by (subst skip_space.simps) auto
    show ?thesis
    proof (cases "rest buf es s")
      case (Cons c t)
      then have "\<not> is_space c"
        using False by (simp add: rest_Cons)
      with Cons e show ?thesis
        by simp
    qed (simp add: e)
  qed
qed

lemma skip_space_idem [simp]: "skip_space buf es (skip_space buf es s) = skip_space buf es s"
  using skip_space_stops [of buf es s] by (subst skip_space.simps) auto

text \<open>Parsers skip white space before they look at the line.\<close>

lemma skip_first [simp]:
  "peek buf es toks (skip_space buf es s) = peek buf es toks s"
  "gettoken buf es (skip_space buf es s) = gettoken buf es s"
  "parseredirs buf es c (skip_space buf es s) = parseredirs buf es c s"
  "parseargs buf es k c (skip_space buf es s) = parseargs buf es k c s"
  "parsebacks buf es c (skip_space buf es s) = parsebacks buf es c s"
  "parseblock n buf es (skip_space buf es s) = parseblock n buf es s"
  "parseexec n buf es (skip_space buf es s) = parseexec n buf es s"
  "parsepipe n buf es (skip_space buf es s) = parsepipe n buf es s"
  "parseline n buf es (skip_space buf es s) = parseline n buf es s"
proof -
  show p: "peek buf es toks (skip_space buf es s) = peek buf es toks s" for toks
    by (simp add: peek_def)
  show "gettoken buf es (skip_space buf es s) = gettoken buf es s"
    by (simp add: gettoken_def)
  show "parseredirs buf es c (skip_space buf es s) = parseredirs buf es c s"
    by (subst (1 2) parseredirs.simps) (simp add: p)
  show "parseargs buf es k c (skip_space buf es s) = parseargs buf es k c s"
    by (subst (1 2) parseargs.simps) (simp add: p)
  show "parsebacks buf es c (skip_space buf es s) = parsebacks buf es c s"
    by (subst (1 2) parsebacks.simps) (simp add: p)
  show "parseblock n buf es (skip_space buf es s) = parseblock n buf es s" for n
    by (cases n) (simp_all add: p)
  show e: "parseexec n buf es (skip_space buf es s) = parseexec n buf es s" for n
    by (cases n) (simp_all add: p)
  show l: "parsepipe n buf es (skip_space buf es s) = parsepipe n buf es s" for n
    by (cases n) (simp_all add: e)
  show "parseline n buf es (skip_space buf es s) = parseline n buf es s"
    by (cases n) (simp_all add: l)
qed

lemma skip_word_rest:
  assumes "rest buf es s = u @ t" "\<forall>c \<in> set u. word_char c" "after_word t"
    and "line_at buf es" "s \<le> es"
  shows "skip_word buf es s = s + length u"
  using assms
proof (induction u arbitrary: s)
  case Nil
  then show ?case
    by (subst skip_word.simps) (auto simp: after_word_def rest_def upt_conv_Cons word_char_def line_at_def)
next
  case (Cons c u)
  then show ?case
    using Cons.IH [of "Suc s"] by (subst skip_word.simps) (auto simp: rest_Cons word_char_def)
qed

definition word_ok :: "string \<Rightarrow> bool" where
  "word_ok w \<longleftrightarrow> w \<noteq> [] \<and> (\<forall>c \<in> set w. word_char c)"

text \<open>What \<^verbatim>\<open>peek\<close> and \<^verbatim>\<open>gettoken\<close> do at a position where the rest of the line is known.\<close>

definition ahead :: "string \<Rightarrow> string \<Rightarrow> bool" where
  "ahead toks t \<longleftrightarrow> (case dropWhile is_space t of [] \<Rightarrow> False | c # _ \<Rightarrow> c \<in> set toks)"

lemma ahead_simps [simp]:
  "\<not> ahead toks []" "\<not> is_space c \<Longrightarrow> ahead toks (c # t) \<longleftrightarrow> c \<in> set toks"
  "is_space c \<Longrightarrow> ahead toks (c # t) \<longleftrightarrow> ahead toks t"
  by (simp_all add: ahead_def)

lemma peek_rest:
  assumes "line_at buf es" "s \<le> es"
  shows "peek buf es toks s = (ahead toks (rest buf es s), skip_space buf es s)"
proof -
  let ?s = "skip_space buf es s"
  have le: "?s \<le> es"
    using skip_space_bounds [OF assms(2)] by simp
  show ?thesis
  proof (cases "rest buf es ?s")
    case Nil
    then have "buf ?s = CHR 0x00"
      using rest_Nil [OF Nil le] assms(1) by (simp add: line_at_def)
    then show ?thesis
      using Nil by (simp add: peek_def ahead_def skip_space_rest del: dropWhile_eq_Nil_conv)
  next
    case (Cons c t)
    then have "buf ?s = c" "c \<noteq> CHR 0x00"
      using assms(1) by (auto simp: rest_Cons line_at_def)
    then show ?thesis
      using Cons by (simp add: peek_def ahead_def skip_space_rest)
  qed
qed

lemma gettoken_symbol:
  assumes "rest buf es s = c # t" "c \<in> set ''|();&<''"
  shows "gettoken buf es s = (c, s, Suc s, skip_space buf es (Suc s))"
proof -
  have "skip_space buf es s = s"
    using assms by (intro skip_space_same) (auto simp: is_space_def whitespace_def)
  moreover have "buf s = c" "c \<noteq> CHR 0x00"
    using assms by (auto simp: rest_Cons)
  ultimately show ?thesis
    using assms(2) by (auto simp: gettoken_def Let_def)
qed

lemma gettoken_great:
  assumes "rest buf es s = CHR ''>'' # c # t" "c \<noteq> CHR ''>''"
  shows "gettoken buf es s = (CHR ''>'', s, Suc s, skip_space buf es (Suc s))"
proof -
  have "skip_space buf es s = s"
    using assms by (intro skip_space_same) (auto simp: is_space_def whitespace_def)
  moreover have "buf s = CHR ''>''" "buf (Suc s) \<noteq> CHR ''>''"
    using assms by (auto simp: rest_Cons)
  ultimately show ?thesis
    by (auto simp: gettoken_def Let_def)
qed

lemma gettoken_word:
  assumes "line_at buf es" "s \<le> es" "rest buf es s = w @ t" "word_ok w" "after_word t"
  shows "gettoken buf es s = (CHR ''a'', s, s + length w, skip_space buf es (s + length w))"
proof -
  obtain c w' where w: "w = c # w'" "word_char c"
    using assms(4) by (cases w) (auto simp: word_ok_def)
  have "skip_space buf es s = s"
    using assms(3) w by (intro skip_space_same) (auto simp: word_char_def)
  moreover have "skip_word buf es s = s + length w"
    using assms by (intro skip_word_rest) (auto simp: word_ok_def)
  moreover have "buf s = c"
    using assms(3) w by (simp add: rest_Cons)
  moreover have "c \<noteq> CHR 0x00" "c \<notin> set ''|();&<''" "c \<noteq> CHR ''>''"
    using w(2) by (auto simp: word_char_def is_symbol_def symbols_def)
  ultimately show ?thesis
    by (auto simp: gettoken_def Let_def)
qed

lemma gettoken_end:
  assumes "line_at buf es" "s \<le> es" "dropWhile is_space (rest buf es s) = []"
  shows "gettoken buf es s = (CHR 0x00, es, es, es)"
proof -
  have "skip_space buf es s = es"
    using assms(3) skip_space_bounds [OF assms(2), of buf] by (intro rest_Nil [of buf]) (simp_all add: skip_space_rest)
  moreover have "skip_space buf es es = es"
    by (subst skip_space.simps) simp
  ultimately show ?thesis
    using assms(1) by (simp add: gettoken_def line_at_def)
qed


section \<open>Printing commands\<close>

text \<open>
  Commands are printed at the level of the parser that reads them: 0 for \<^verbatim>\<open>parseline\<close>, 1 for a command
  followed by \<^verbatim>\<open>&\<close>, 2 for \<^verbatim>\<open>parsepipe\<close>, 3 for \<^verbatim>\<open>parseexec\<close>. A command of a lower level is put in parentheses.
\<close>

definition paren :: "bool \<Rightarrow> string \<Rightarrow> string" where
  "paren b t = (if b then ''('' @ t @ '')'' else t)"

definition show_redir :: "string \<Rightarrow> int \<Rightarrow> string" where
  "show_redir f fd = (if fd = 0 then ''<'' else ''>'') @ f @ '' ''"

primrec show_cmd :: "nat \<Rightarrow> string cmd \<Rightarrow> string" where
  "show_cmd p (EXEC ws) = concat (map (\<lambda>w. w @ '' '') ws)"
| "show_cmd p (REDIR c f m fd) = show_cmd 3 c @ show_redir f fd"
| "show_cmd p (PIPE l r) = paren (p > 2) (show_cmd 3 l @ ''|'' @ show_cmd 2 r)"
| "show_cmd p (LIST l r) = paren (p > 0) (show_cmd 1 l @ '';'' @ show_cmd 0 r)"
| "show_cmd p (BACK c) = paren (p > 1) (show_cmd 1 c @ ''&'')"

text \<open>Commands that can be written: proper words, at most nine arguments, the modes the shell knows.\<close>

definition redir_ok :: "string \<Rightarrow> int \<Rightarrow> int \<Rightarrow> bool" where
  "redir_ok f m fd \<longleftrightarrow> word_ok f \<and> (m = O_RDONLY \<and> fd = 0 \<or> m = O_WRONLY_CREATE \<and> fd = 1)"

primrec cmd_ok :: "string cmd \<Rightarrow> bool" where
  "cmd_ok (EXEC ws) \<longleftrightarrow> (\<forall>w \<in> set ws. word_ok w) \<and> length ws < MAXARGS"
| "cmd_ok (REDIR c f m fd) \<longleftrightarrow> cmd_ok c \<and> redir_ok f m fd"
| "cmd_ok (PIPE l r) \<longleftrightarrow> cmd_ok l \<and> cmd_ok r"
| "cmd_ok (LIST l r) \<longleftrightarrow> cmd_ok l \<and> cmd_ok r"
| "cmd_ok (BACK c) \<longleftrightarrow> cmd_ok c"

lemma word_not_space: "word_char c \<Longrightarrow> \<not> is_space c"
  by (simp add: word_char_def)

lemma symbol_not_space [simp]:
  "\<not> is_space (CHR ''('')" "\<not> is_space (CHR '')'')" "\<not> is_space (CHR ''|'')" "\<not> is_space (CHR ''&'')"
  "\<not> is_space (CHR '';'')" "\<not> is_space (CHR ''<'')" "\<not> is_space (CHR ''>'')" "is_space (CHR '' '')"
  by (simp_all add: is_space_def whitespace_def)

lemma symbol_not_word [simp]:
  "\<not> word_char (CHR ''('')" "\<not> word_char (CHR '')'')" "\<not> word_char (CHR ''|'')" "\<not> word_char (CHR ''&'')"
  "\<not> word_char (CHR '';'')" "\<not> word_char (CHR ''<'')" "\<not> word_char (CHR ''>'')" "\<not> word_char (CHR '' '')"
  by (simp_all add: word_char_def is_symbol_def symbols_def is_space_def whitespace_def)

lemma word_starts: "word_ok w \<Longrightarrow> \<exists>c u. w = c # u \<and> word_char c"
  by (cases w) (auto simp: word_ok_def)

section \<open>Reading redirections and arguments\<close>

type_synonym redirs = "(string \<times> int \<times> int) list"

definition wrap :: "string cmd \<Rightarrow> redirs \<Rightarrow> string cmd" where
  "wrap c rs = foldl (\<lambda>c (f, m, fd). REDIR c f m fd) c rs"

definition show_redirs :: "redirs \<Rightarrow> string" where
  "show_redirs rs = concat (map (\<lambda>(f, m, fd). show_redir f fd) rs)"

definition redirs_ok :: "redirs \<Rightarrow> bool" where
  "redirs_ok rs \<longleftrightarrow> (\<forall>(f, m, fd) \<in> set rs. redir_ok f m fd)"

text \<open>The words a pointer pair stands for, and the command a parser has read.\<close>

definition word_at :: "buffer \<Rightarrow> ptrs \<Rightarrow> string" where
  "word_at buf w = map buf [fst w..<snd w]"

definition reads :: "buffer \<Rightarrow> (ptrs cmd \<times> nat) parsed option \<Rightarrow> string cmd \<Rightarrow> nat \<Rightarrow> bool" where
  "reads buf m c s \<longleftrightarrow> (\<exists>c'. m = Some (Ok (c', s)) \<and> map_cmd (word_at buf) c' = c)"

lemma reads_Ok: "map_cmd (word_at buf) c' = c \<Longrightarrow> reads buf (Some (Ok (c', s))) c s"
  by (simp add: reads_def)

lemma reads_sh_then:
  assumes "reads buf m c s" "\<And>c'. map_cmd (word_at buf) c' = c \<Longrightarrow> reads buf (f (c', s)) d s'"
  shows "reads buf (sh_then m f) d s'"
  using assms by (auto simp: reads_def)

lemma word_at_rest: "rest buf es s = w @ t \<Longrightarrow> word_at buf (s, s + length w) = w"
  by (simp add: word_at_def rest_word)

lemma rest_bound:
  assumes "s \<le> es" "rest buf es s = u @ t"
  shows "s + length u \<le> es"
  using arg_cong [OF assms(2), of length] assms(1) by (simp add: rest_def)

lemma skip_space_over: "rest buf es s = c # t \<Longrightarrow> is_space c \<Longrightarrow> skip_space buf es s = skip_space buf es (Suc s)"
  by (subst skip_space.simps) (simp add: rest_Cons)

lemma show_redirs_simps [simp]:
  "show_redirs [] = []" "wrap c [] = c"
  "show_redirs ((f, m, fd) # rs) = (if fd = 0 then CHR ''<'' else CHR ''>'') # f @ CHR '' '' # show_redirs rs"
  "wrap c ((f, m, fd) # rs) = wrap (REDIR c f m fd) rs"
  by (simp_all add: show_redirs_def wrap_def show_redir_def)

text \<open>The redirection symbol and the file name of one redirection are read.\<close>

lemma redir_tokens:
  assumes l: "line_at buf es" and line: "rest buf es s = y # f @ CHR '' '' # t"
    and y: "y \<in> {CHR ''<'', CHR ''>''}" and f: "word_ok f"
  shows "\<exists>q e. gettoken buf es s = (y, q, e, skip_space buf es (Suc s))"
    and "gettoken buf es (Suc s) = (CHR ''a'', Suc s, Suc s + length f, skip_space buf es (Suc s + length f + 1))"
    and "word_at buf (Suc s, Suc s + length f) = f" and "Suc s + length f + 1 \<le> es"
    and "rest buf es (Suc s + length f + 1) = t"
proof -
  have s1: "Suc s \<le> es" "rest buf es (Suc s) = f @ CHR '' '' # t"
    using line by (auto simp: rest_Cons)
  obtain c u where "f = c # u" "word_char c"
    using word_starts [OF f] by blast
  then show "\<exists>q e. gettoken buf es s = (y, q, e, skip_space buf es (Suc s))"
    using y gettoken_symbol [of buf es s y] gettoken_great [of buf es s c] line
    by (auto simp: word_char_def is_symbol_def symbols_def)
  have s2: "rest buf es (Suc s + length f) = CHR '' '' # t"
    by (rule rest_append [OF s1(2)])
  show "gettoken buf es (Suc s) = (CHR ''a'', Suc s, Suc s + length f, skip_space buf es (Suc s + length f + 1))"
    using gettoken_word [OF l s1 f] skip_space_over [OF s2] by simp
  show "word_at buf (Suc s, Suc s + length f) = f"
    by (rule word_at_rest [OF s1(2)])
  show "Suc s + length f + 1 \<le> es" "rest buf es (Suc s + length f + 1) = t"
    using s2 by (auto simp: rest_Cons)
qed

lemma parseredirs_reads:
  assumes l: "line_at buf es" and "s \<le> es" "rest buf es s = show_redirs rs @ t" "redirs_ok rs"
    and t: "\<not> ahead ''<>'' t" and "map_cmd (word_at buf) c' = c"
  shows "reads buf (parseredirs buf es c' s) (wrap c rs) (skip_space buf es (s + length (show_redirs rs)))"
  using assms(2-4,6)
proof (induction rs arbitrary: s c c')
  case Nil
  then have "peek buf es ''<>'' s = (False, skip_space buf es s)"
    using peek_rest [OF l] t by simp
  with Nil show ?case
    by (subst parseredirs.simps) (simp add: reads_def)
next
  case (Cons r rs)
  obtain f m fd where r: "r = (f, m, fd)"
    by (cases r)
  have f: "word_ok f" "m = O_RDONLY \<and> fd = 0 \<or> m = O_WRONLY_CREATE \<and> fd = 1" "redirs_ok rs"
    using Cons.prems(3) r by (auto simp: redirs_ok_def redir_ok_def)
  define y where "y = (if fd = 0 then CHR ''<'' else CHR ''>'')"
  have line: "rest buf es s = y # f @ CHR '' '' # show_redirs rs @ t"
    using Cons.prems(2) r by (simp add: y_def)
  have y: "y \<in> {CHR ''<'', CHR ''>''}"
    by (simp add: y_def)
  note g = redir_tokens [OF l line y f(1)]
  have p: "peek buf es ''<>'' s = (True, skip_space buf es s)"
    using peek_rest [OF l Cons.prems(1), of "''<>''"] line y by auto
  have w: "map_cmd (word_at buf) (redir y c' (Suc s) (Suc s + length f)) = REDIR c f m fd"
    using f(2) Cons.prems(4) g(3) by (auto simp: redir_def y_def)
  from Cons.IH [OF g(4,5) f(3) w] p g(1,2) show ?case
    by (subst parseredirs.simps) (auto simp: r add_ac)
qed

text \<open>What may follow a command at each level.\<close>

definition stops :: "string \<Rightarrow> string \<Rightarrow> bool" where
  "stops ends t \<longleftrightarrow> dropWhile is_space t = [] \<or> ahead ends t"

lemma stops_simps [simp]:
  "stops ends []" "\<not> is_space c \<Longrightarrow> stops ends (c # t) \<longleftrightarrow> c \<in> set ends"
  by (auto simp: stops_def)

lemma stops_ahead: "stops ends t \<Longrightarrow> ahead toks t \<Longrightarrow> \<exists>c \<in> set ends. c \<in> set toks"
  by (cases "dropWhile is_space t") (auto simp: stops_def ahead_def simp del: dropWhile_eq_Nil_conv)

lemma stops_mono: "stops ends t \<Longrightarrow> set ends \<subseteq> set ends' \<Longrightarrow> stops ends' t"
  by (auto simp: stops_def ahead_def split: list.splits)

lemma map_cmd_add_arg: "map_cmd g (add_arg w c) = add_arg (g w) (map_cmd g c)"
  by (induction c) auto

definition show_words :: "string list \<Rightarrow> string" where
  "show_words ws = concat (map (\<lambda>w. w @ '' '') ws)"

lemma show_words_simps [simp]:
  "show_words [] = []" "show_words (w # ws) = w @ CHR '' '' # show_words ws"
  by (simp_all add: show_words_def)

lemma foldl_add_arg: "foldl (\<lambda>c w. add_arg w c) (EXEC vs) ws = EXEC (vs @ ws)"
  by (induction ws arbitrary: vs) simp_all

lemma not_ahead_words:
  assumes "\<forall>w \<in> set ws. word_ok w" "ws = [] \<Longrightarrow> stops ''|)&;'' t" "\<forall>c \<in> set toks. is_symbol c \<and> c \<notin> set ''|)&;''"
  shows "\<not> ahead toks (show_words ws @ t)"
proof (cases ws)
  case Nil
  then show ?thesis
    using stops_ahead [OF assms(2) [OF Nil], of toks] assms(3) by auto
next
  case (Cons w ws')
  then have "word_ok w"
    using assms(1) by simp
  then obtain c u where "w = c # u" "word_char c"
    using word_starts by blast
  then show ?thesis
    using Cons assms(3) by (auto simp: word_char_def)
qed

lemma symbols_stop [simp]: "is_symbol (CHR ''<'')" "is_symbol (CHR ''>'')" "is_symbol (CHR ''('')"
  by (simp_all add: is_symbol_def symbols_def)

lemma parseargs_done:
  assumes l: "line_at buf es" and s: "s \<le> es" and t: "stops ''|)&;'' (rest buf es s)"
    and c: "map_cmd (word_at buf) ret = c"
  shows "reads buf (parseargs buf es k ret s) c (skip_space buf es s)"
proof (cases "ahead ''|)&;'' (rest buf es s)")
  case True
  then show ?thesis
    using peek_rest [OF l s] c by (subst parseargs_eq) (simp add: reads_Ok)
next
  case False
  then have e: "dropWhile is_space (rest buf es s) = []"
    using t by (simp add: stops_def)
  then have "skip_space buf es s = es"
    using skip_space_bounds [OF s, of buf] by (intro rest_Nil [of buf]) (simp_all add: skip_space_rest)
  then show ?thesis
    using False peek_rest [OF l s] gettoken_end [OF l, of es] c
    by (subst parseargs_eq) (simp add: reads_Ok rest_def)
qed

text \<open>Words, then redirections, with the redirections after the last word.\<close>

lemma parseargs_reads:
  assumes l: "line_at buf es" and "s \<le> es" "rest buf es s = show_words ws @ show_redirs rs @ t"
    and "redirs_ok rs" "\<forall>w \<in> set ws. word_ok w" "k + length ws < MAXARGS" "ws = [] \<longrightarrow> rs = []"
    and t: "stops ''|)&;'' t" and "map_cmd (word_at buf) ret = c"
  shows "reads buf (parseargs buf es k ret s) (wrap (foldl (\<lambda>c w. add_arg w c) c ws) rs)
    (skip_space buf es (s + length (show_words ws @ show_redirs rs)))"
  using assms(2-7,9)
proof (induction ws arbitrary: s k ret c rs)
  case Nil
  then show ?case
    using parseargs_done [OF l, of s ret] t by simp
next
  case (Cons w ws)
  define rs1 rs2 where "rs1 = (if ws = [] then rs else [])" and "rs2 = (if ws = [] then [] else rs)"
  define u where "u = show_words ws @ show_redirs rs2 @ t"
  have w: "word_ok w" and ws: "\<forall>w \<in> set ws. word_ok w"
    using Cons.prems(4) by auto
  have rs: "redirs_ok rs1" "redirs_ok rs2" "ws = [] \<longrightarrow> rs2 = []"
    using Cons.prems(3) by (auto simp: rs1_def rs2_def redirs_ok_def)
  have u: "\<not> ahead ''<>'' u"
    unfolding u_def using ws t by (intro not_ahead_words) (auto simp: rs2_def)
  have line: "rest buf es s = w @ CHR '' '' # show_redirs rs1 @ u"
    using Cons.prems(2) by (simp add: u_def rs1_def rs2_def)
  obtain c1 w1 where "w = c1 # w1" "word_char c1"
    using word_starts [OF w] by blast
  then have p: "peek buf es ''|)&;'' s = (False, skip_space buf es s)"
    using peek_rest [OF l Cons.prems(1), of "''|)&;''"] line by (auto simp: word_char_def is_symbol_def symbols_def)
  let ?s = "Suc (s + length w)" and ?ret = "add_arg (s, s + length w) ret"
  have g: "gettoken buf es s = (CHR ''a'', s, s + length w, skip_space buf es ?s)"
    using gettoken_word [OF l Cons.prems(1) line w] skip_space_over [OF rest_append [OF line]] by simp
  have s1: "?s \<le> es" "rest buf es ?s = show_redirs rs1 @ u"
    using rest_append [OF line] by (auto simp: rest_Cons)
  have s2: "?s + length (show_redirs rs1) \<le> es" "rest buf es (?s + length (show_redirs rs1)) = u"
    using rest_bound [OF s1] rest_append [OF s1(2)] .
  have "map_cmd (word_at buf) ?ret = add_arg w c"
    using Cons.prems(7) word_at_rest [OF line] by (simp add: map_cmd_add_arg)
  note r = parseredirs_reads [OF l s1 rs(1) u this]
  have "reads buf (sh_then (parseredirs buf es ?ret ?s) (\<lambda>rp. parseargs buf es (Suc k) (fst rp) (snd rp)))
      (wrap (foldl (\<lambda>c w. add_arg w c) (wrap (add_arg w c) rs1) ws) rs2)
      (skip_space buf es (?s + length (show_redirs rs1) + length (show_words ws @ show_redirs rs2)))"
    using Cons.prems(5) by (intro reads_sh_then [OF r])
      (auto intro!: Cons.IH [OF s2(1) s2(2) [unfolded u_def] rs(2) ws _ rs(3), simplified])
  then show ?case
    using p g Cons.prems(5) by (subst parseargs_eq) (auto simp: rs1_def rs2_def add_ac split: if_splits)
qed


section \<open>Reading printed commands\<close>

text \<open>A parser reads a command when it does so wherever the command is printed in the line.\<close>

definition reads_at :: "(nat \<Rightarrow> buffer \<Rightarrow> nat \<Rightarrow> nat \<Rightarrow> (ptrs cmd \<times> nat) parsed option) \<Rightarrow>
  nat \<Rightarrow> nat \<Rightarrow> string \<Rightarrow> string cmd \<Rightarrow> bool" where
  "reads_at parser p d ends c \<longleftrightarrow>
     (\<forall>n buf es s t. line_at buf es \<longrightarrow> s \<le> es \<longrightarrow> rest buf es s = show_cmd p c @ t \<longrightarrow> stops ends t \<longrightarrow>
        4 * length (show_cmd p c) + d \<le> n \<longrightarrow>
        reads buf (parser n buf es s) c (skip_space buf es (s + length (show_cmd p c))))"

abbreviation reads_line :: "string cmd \<Rightarrow> bool" where
  "reads_line \<equiv> reads_at parseline 0 4 '')''"

abbreviation reads_pipe :: "string cmd \<Rightarrow> bool" where
  "reads_pipe \<equiv> reads_at parsepipe 2 3 '')&;''"

abbreviation reads_exec :: "string cmd \<Rightarrow> bool" where
  "reads_exec \<equiv> reads_at parseexec 3 2 ''|)&;''"

lemma reads_atI:
  assumes "\<And>n buf es s t. line_at buf es \<Longrightarrow> s \<le> es \<Longrightarrow> rest buf es s = show_cmd p c @ t \<Longrightarrow> stops ends t \<Longrightarrow>
    4 * length (show_cmd p c) + d \<le> Suc n \<Longrightarrow>
    reads buf (parser (Suc n) buf es s) c (skip_space buf es (s + length (show_cmd p c)))" "d > 0"
  shows "reads_at parser p d ends c"
  unfolding reads_at_def
proof (intro allI impI)
  fix n buf es s t
  assume "line_at buf es" "s \<le> es" "rest buf es s = show_cmd p c @ t" "stops ends t"
    "4 * length (show_cmd p c) + d \<le> n"
  with assms show "reads buf (parser n buf es s) c (skip_space buf es (s + length (show_cmd p c)))"
    by (cases n) auto
qed

lemma reads_atD:
  assumes "reads_at parser p d ends c" "line_at buf es" "s \<le> es" "rest buf es s = show_cmd p c @ t"
    "stops ends t" "4 * length (show_cmd p c) + d \<le> n"
  shows "reads buf (parser n buf es s) c (skip_space buf es (s + length (show_cmd p c)))"
  using assms unfolding reads_at_def by blast

text \<open>The next symbol of a line is seen and consumed.\<close>

lemma symbol_consumed:
  assumes l: "line_at buf es" and s: "s \<le> es" and line: "rest buf es s = u @ c # t" and c: "c \<in> set ''|();&''"
  defines "s1 \<equiv> s + length u"
  shows "peek buf es [c] s1 = (True, skip_space buf es s1)"
    and "gettoken buf es s1 = (c, s1, Suc s1, skip_space buf es (Suc s1))"
    and "Suc s1 \<le> es" and "rest buf es (Suc s1) = t"
proof -
  have r: "rest buf es s1 = c # t"
    using rest_append [OF line] by (simp add: s1_def)
  then show s: "Suc s1 \<le> es" "rest buf es (Suc s1) = t"
    by (auto simp: rest_Cons)
  show "gettoken buf es s1 = (c, s1, Suc s1, skip_space buf es (Suc s1))"
    using c by (intro gettoken_symbol [OF r]) auto
  show "peek buf es [c] s1 = (True, skip_space buf es s1)"
    using peek_rest [OF l, of s1 "[c]"] r s(1) c by auto
qed

lemma reads_pipe_PIPE:
  assumes "reads_exec l" "reads_pipe r"
  shows "reads_pipe (PIPE l r)"
proof (rule reads_atI)
  fix n buf es s t
  assume l: "line_at buf es" and s: "s \<le> es" and line: "rest buf es s = show_cmd 2 (PIPE l r) @ t"
    and t: "stops '')&;'' t" and n: "4 * length (show_cmd 2 (PIPE l r)) + 3 \<le> Suc n"
  let ?s = "s + length (show_cmd 3 l)"
  have line: "rest buf es s = show_cmd 3 l @ CHR ''|'' # show_cmd 2 r @ t"
    and len: "length (show_cmd 2 (PIPE l r)) = length (show_cmd 3 l) + 1 + length (show_cmd 2 r)"
    using line by (simp_all add: paren_def)
  note g = symbol_consumed [OF l s line, simplified]
  have "reads buf (parseexec n buf es s) l (skip_space buf es ?s)"
    using n len by (intro reads_atD [OF assms(1) l s line]) auto
  moreover have "reads buf (parsepipe n buf es (Suc ?s)) r (skip_space buf es (Suc ?s + length (show_cmd 2 r)))"
    using n len g by (intro reads_atD [OF assms(2) l _ _ t]) auto
  ultimately show "reads buf (parsepipe (Suc n) buf es s) (PIPE l r)
      (skip_space buf es (s + length (show_cmd 2 (PIPE l r))))"
    using g(1,2) unfolding len parsepipe.simps
    by (intro reads_sh_then [where c = l])
      (auto simp: add.assoc intro!: reads_sh_then [where c = r] reads_Ok)
qed simp

definition is_PIPE :: "'w cmd \<Rightarrow> bool" where
  "is_PIPE c \<longleftrightarrow> (case c of PIPE _ _ \<Rightarrow> True | _ \<Rightarrow> False)"

lemma reads_pipe_exec:
  assumes "reads_exec c" "\<not> is_PIPE c"
  shows "reads_pipe c"
proof (rule reads_atI)
  fix n buf es s t
  assume l: "line_at buf es" and s: "s \<le> es" and line: "rest buf es s = show_cmd 2 c @ t"
    and t: "stops '')&;'' t" and n: "4 * length (show_cmd 2 c) + 3 \<le> Suc n"
  have e: "show_cmd 2 c = show_cmd 3 c"
    using assms(2) by (cases c) (auto simp: is_PIPE_def paren_def)
  have "peek buf es ''|'' (s + length (show_cmd 2 c)) = (False, skip_space buf es (s + length (show_cmd 2 c)))"
    using peek_rest [OF l rest_bound [OF s line], of "''|''"] rest_append [OF line] stops_ahead [OF t, of "''|''"]
    by auto
  moreover have "reads buf (parseexec n buf es s) c (skip_space buf es (s + length (show_cmd 2 c)))"
    unfolding e using n stops_mono [OF t]
    by (intro reads_atD [OF assms(1) l s line [unfolded e]]) (auto simp: e)
  ultimately show "reads buf (parsepipe (Suc n) buf es s) c (skip_space buf es (s + length (show_cmd 2 c)))"
    unfolding parsepipe.simps by (intro reads_sh_then [where c = c]) (auto intro: reads_Ok)
qed simp

lemma parsebacks_reads:
  assumes l: "line_at buf es" and "s \<le> es" "rest buf es s = replicate k CHR ''&'' @ t"
    and t: "stops '');'' t"
  shows "parsebacks buf es c s = Some (Ok ((BACK ^^ k) c, skip_space buf es (s + k)))"
  using assms(2,3)
proof (induction k arbitrary: s c)
  case 0
  then have "peek buf es ''&'' s = (False, skip_space buf es s)"
    using peek_rest [OF l, of s "''&''"] stops_ahead [OF t, of "''&''"] by auto
  then show ?case
    by (subst parsebacks.simps) simp
next
  case (Suc k)
  from Suc.prems(2) have "rest buf es s = [] @ CHR ''&'' # replicate k CHR ''&'' @ t"
    by simp
  from symbol_consumed [OF l Suc.prems(1) this] Suc.IH [of "Suc s" "BACK c"] show ?case
    by (subst parsebacks.simps) (simp add: funpow_swap1)
qed

text \<open>A line is a pipeline, a number of \<^verbatim>\<open>&\<close>, and perhaps \<^verbatim>\<open>;\<close> and another line.\<close>

definition is_BACK :: "'w cmd \<Rightarrow> bool" where
  "is_BACK c \<longleftrightarrow> (case c of BACK _ \<Rightarrow> True | _ \<Rightarrow> False)"

lemma backs_exist: "\<exists>k x. c = (BACK ^^ k) x \<and> \<not> is_BACK x"
proof (induction c)
  case (BACK c)
  then obtain k x where "c = (BACK ^^ k) x" "\<not> is_BACK x"
    by blast
  then show ?case
    by (intro exI [of _ "Suc k"] exI [of _ x]) simp
qed (rule exI [of _ 0], simp add: is_BACK_def)+

lemma show_backs:
  "\<not> is_BACK x \<Longrightarrow> show_cmd 1 ((BACK ^^ k) x) = show_cmd 2 x @ replicate k CHR ''&''"
proof (induction k)
  case 0
  then show ?case
    by (cases x) (auto simp: is_BACK_def paren_def)
next
  case (Suc k)
  then show ?case
    by (simp add: paren_def replicate_append_same)
qed

lemma reads_backs:
  assumes x: "reads_pipe x" "\<not> is_BACK x" and l: "line_at buf es" and s: "s \<le> es"
    and line: "rest buf es s = show_cmd 1 ((BACK ^^ k) x) @ t" and t: "stops '');'' t"
    and n: "4 * length (show_cmd 1 ((BACK ^^ k) x)) + 3 \<le> n"
    and f: "\<And>c'. map_cmd (word_at buf) c' = (BACK ^^ k) x \<Longrightarrow>
      reads buf (f (c', skip_space buf es (s + length (show_cmd 1 ((BACK ^^ k) x))))) d s'"
  shows "reads buf (sh_then (parsepipe n buf es s) (\<lambda>(cmd, ps). sh_then (parsebacks buf es cmd ps) f)) d s'"
proof (rule reads_sh_then)
  note e = show_backs [OF x(2), of k]
  let ?s = "s + length (show_cmd 2 x)"
  have line: "rest buf es s = show_cmd 2 x @ replicate k CHR ''&'' @ t"
    using line unfolding e by simp
  have "stops '')&;'' (replicate k CHR ''&'' @ t)"
    using stops_mono [OF t, of "'')&;''"] by (cases k) auto
  then show "reads buf (parsepipe n buf es s) x (skip_space buf es ?s)"
    using n unfolding e by (intro reads_atD [OF x(1) l s line]) auto
  fix c'
  assume c: "map_cmd (word_at buf) c' = x"
  have "map_cmd (word_at buf) ((BACK ^^ k) c') = (BACK ^^ k) x"
    using c by (induction k) auto
  then show "reads buf (case (c', skip_space buf es ?s) of (cmd, ps) \<Rightarrow> sh_then (parsebacks buf es cmd ps) f) d s'"
    using parsebacks_reads [OF l rest_bound [OF s line] rest_append [OF line] t, of c'] f
    unfolding e by (simp add: add.assoc)
qed

lemma reads_line_backs:
  assumes x: "reads_pipe x" "\<not> is_BACK x" and c: "c = (BACK ^^ k) x" "show_cmd 0 c = show_cmd 1 c"
  shows "reads_line c"
proof (rule reads_atI)
  fix n buf es s t
  assume l: "line_at buf es" and s: "s \<le> es" and line: "rest buf es s = show_cmd 0 c @ t"
    and t: "stops '')'' t" and n: "4 * length (show_cmd 0 c) + 4 \<le> Suc n"
  let ?s = "s + length (show_cmd 1 c)"
  have s1: "?s \<le> es" "rest buf es ?s = t"
    using rest_bound [OF s line] rest_append [OF line] unfolding c(2) .
  have p: "peek buf es '';'' ?s = (False, skip_space buf es ?s)"
    using peek_rest [OF l s1(1), of "'';''"] s1(2) stops_ahead [OF t, of "'';''"] by auto
  show "reads buf (parseline (Suc n) buf es s) c (skip_space buf es (s + length (show_cmd 0 c)))"
    unfolding parseline.simps c(2)
  proof (rule reads_backs [OF x l s])
    show "rest buf es s = show_cmd 1 ((BACK ^^ k) x) @ t"
      using line unfolding c(2) unfolding c(1) .
    show "stops '');'' t"
      using stops_mono [OF t] by simp
    show "4 * length (show_cmd 1 ((BACK ^^ k) x)) + 3 \<le> n"
      using n unfolding c(2) unfolding c(1) by simp
  qed (use p c(1) in \<open>auto intro: reads_Ok\<close>)
qed simp

lemma reads_line_LIST:
  assumes x: "reads_pipe x" "\<not> is_BACK x" and c: "l = (BACK ^^ k) x" and r: "reads_line r"
  shows "reads_line (LIST l r)"
proof (rule reads_atI)
  fix n buf es s t
  assume l: "line_at buf es" and s: "s \<le> es" and line: "rest buf es s = show_cmd 0 (LIST l r) @ t"
    and t: "stops '')'' t" and n: "4 * length (show_cmd 0 (LIST l r)) + 4 \<le> Suc n"
  let ?s = "s + length (show_cmd 1 l)"
  have line: "rest buf es s = show_cmd 1 l @ CHR '';'' # show_cmd 0 r @ t"
    and len: "length (show_cmd 0 (LIST l r)) = length (show_cmd 1 l) + 1 + length (show_cmd 0 r)"
    using line by (simp_all add: paren_def)
  note g = symbol_consumed [OF l s line]
  have rr: "reads buf (parseline n buf es (Suc ?s)) r (skip_space buf es (Suc ?s + length (show_cmd 0 r)))"
    using n len g by (intro reads_atD [OF r l _ _ t]) auto
  show "reads buf (parseline (Suc n) buf es s) (LIST l r) (skip_space buf es (s + length (show_cmd 0 (LIST l r))))"
    unfolding parseline.simps len
  proof (rule reads_backs [OF x l s])
    show "rest buf es s = show_cmd 1 ((BACK ^^ k) x) @ CHR '';'' # show_cmd 0 r @ t"
      using line unfolding c .
    show "4 * length (show_cmd 1 ((BACK ^^ k) x)) + 3 \<le> n"
      using n len unfolding c by simp
  qed (use g(1,2) rr c in \<open>auto simp: add.assoc intro!: reads_sh_then [where c = r] reads_Ok\<close>)
qed simp

text \<open>A simple command or a block, with its redirections.\<close>

definition is_block :: "'w cmd \<Rightarrow> bool" where
  "is_block c \<longleftrightarrow> (case c of EXEC _ \<Rightarrow> False | REDIR _ _ _ _ \<Rightarrow> False | _ \<Rightarrow> True)"

lemma show_block: "is_block c \<Longrightarrow> show_cmd 3 c = ''('' @ show_cmd 0 c @ '')''"
  by (cases c) (auto simp: is_block_def paren_def)

lemma show_wrap: "show_cmd 3 (wrap c rs) = show_cmd 3 c @ show_redirs rs"
  by (induction rs arbitrary: c) (auto simp: wrap_def show_redirs_def)

lemma wrap_exists:
  "\<exists>b rs. c = wrap b rs \<and> ((\<exists>ws. b = EXEC ws) \<or> is_block b) \<and> (rs \<noteq> [] \<longrightarrow> size b < size c)"
proof (induction c)
  case (REDIR c f m fd)
  then obtain b rs where "c = wrap b rs" "(\<exists>ws. b = EXEC ws) \<or> is_block b" "rs \<noteq> [] \<longrightarrow> size b < size c"
    by blast
  then show ?case
    by (intro exI [of _ b] exI [of _ "rs @ [(f, m, fd)]"]) (cases rs; simp add: wrap_def)
next
  case (EXEC ws)
  show ?case by (rule exI [of _ "EXEC ws"], rule exI [of _ "[]"]) simp
next
  case (PIPE l r)
  show ?case by (rule exI [of _ "PIPE l r"], rule exI [of _ "[]"]) (simp add: is_block_def)
next
  case (LIST l r)
  show ?case by (rule exI [of _ "LIST l r"], rule exI [of _ "[]"]) (simp add: is_block_def)
next
  case (BACK c)
  show ?case by (rule exI [of _ "BACK c"], rule exI [of _ "[]"]) (simp add: is_block_def)
qed

lemma cmd_ok_wrap: "cmd_ok (wrap c rs) \<longleftrightarrow> cmd_ok c \<and> redirs_ok rs"
  by (induction rs arbitrary: c) (auto simp: wrap_def redirs_ok_def)

lemma reads_exec_words:
  assumes "cmd_ok (wrap (EXEC ws) rs)"
  shows "reads_exec (wrap (EXEC ws) rs)"
proof (rule reads_atI)
  fix n buf es s t
  assume l: "line_at buf es" and s: "s \<le> es" and line: "rest buf es s = show_cmd 3 (wrap (EXEC ws) rs) @ t"
    and t: "stops ''|)&;'' t"
  define rs1 rs2 where "rs1 = (if ws = [] then rs else [])" and "rs2 = (if ws = [] then [] else rs)"
  define u where "u = show_words ws @ show_redirs rs2 @ t"
  have ok: "\<forall>w \<in> set ws. word_ok w" "length ws < MAXARGS" "redirs_ok rs1" "redirs_ok rs2"
    "ws = [] \<longrightarrow> rs2 = []"
    using assms by (auto simp: cmd_ok_wrap rs1_def rs2_def redirs_ok_def)
  have e: "show_cmd 3 (wrap (EXEC ws) rs) = show_redirs rs1 @ show_words ws @ show_redirs rs2"
    by (simp add: show_wrap show_words_def rs1_def rs2_def)
  have line: "rest buf es s = show_redirs rs1 @ u"
    using line by (simp add: e u_def)
  have u: "\<not> ahead ''<>'' u" "\<not> ahead ''('' u"
    unfolding u_def using ok(1) t by (intro not_ahead_words; auto simp: rs2_def)+
  have "\<not> ahead ''('' (show_redirs rs1 @ u)"
    using u(2) by (cases rs1) (auto split: if_splits)
  then have p: "peek buf es ''('' s = (False, skip_space buf es s)"
    using peek_rest [OF l s] line by simp
  have m: "map_cmd (word_at buf) (EXEC []) = EXEC []"
    by simp
  note r = parseredirs_reads [OF l s line ok(3) u(1) m]
  have w: "wrap (foldl (\<lambda>c w. add_arg w c) (wrap (EXEC []) rs1) ws) rs2 = wrap (EXEC ws) rs"
    by (cases ws) (simp_all add: rs1_def rs2_def foldl_add_arg)
  have "reads buf (sh_then (parseredirs buf es (EXEC []) s) (\<lambda>(ret, ps). parseargs buf es 0 ret ps))
      (wrap (EXEC ws) rs) (skip_space buf es (s + length (show_cmd 3 (wrap (EXEC ws) rs))))"
  proof (rule reads_sh_then [OF r])
    fix c'
    assume "map_cmd (word_at buf) c' = wrap (EXEC []) rs1"
    from parseargs_reads [OF l rest_bound [OF s line] rest_append [OF line, unfolded u_def] ok(4,1) _ ok(5) t this, of 0]
    show "reads buf (case (c', skip_space buf es (s + length (show_redirs rs1))) of (ret, ps) \<Rightarrow> parseargs buf es 0 ret ps)
      (wrap (EXEC ws) rs) (skip_space buf es (s + length (show_cmd 3 (wrap (EXEC ws) rs))))"
      using ok(2) unfolding w e by (simp add: add.assoc)
  qed
  then show "reads buf (parseexec (Suc n) buf es s) (wrap (EXEC ws) rs)
      (skip_space buf es (s + length (show_cmd 3 (wrap (EXEC ws) rs))))"
    using p by simp
qed simp

lemma reads_exec_block:
  assumes b: "is_block b" "reads_line b" and ok: "cmd_ok (wrap b rs)"
  shows "reads_exec (wrap b rs)"
proof (rule reads_atI)
  fix n buf es s t
  assume l: "line_at buf es" and s: "s \<le> es" and line: "rest buf es s = show_cmd 3 (wrap b rs) @ t"
    and t: "stops ''|)&;'' t" and n: "4 * length (show_cmd 3 (wrap b rs)) + 2 \<le> Suc n"
  note e = show_wrap [of b rs, unfolded show_block [OF b(1)]]
  let ?u = "show_redirs rs @ t" and ?s = "Suc s + length (show_cmd 0 b)"
  have line: "rest buf es s = [] @ CHR ''('' # show_cmd 0 b @ CHR '')'' # ?u"
    using line by (simp add: e)
  obtain n' where n': "n = Suc n'"
    using n e by (cases n) auto
  note g = symbol_consumed [OF l s line, simplified]
  note g1 = symbol_consumed [OF l g(3,4), simplified]
  have b0: "reads buf (parseline n' buf es (Suc s)) b (skip_space buf es ?s)"
    using n n' e by (intro reads_atD [OF b(2) l g(3,4)]) auto
  have f: "reads buf (parseredirs buf es c' (Suc ?s)) (wrap b rs) (skip_space buf es (Suc ?s + length (show_redirs rs)))"
    if "map_cmd (word_at buf) c' = b" for c'
    using parseredirs_reads [OF l _ _ _ _ that, of "Suc ?s" rs t] g1(3,4) ok stops_ahead [OF t, of "''<>''"]
    by (auto simp: cmd_ok_wrap)
  have "reads buf (parseblock n buf es s) (wrap b rs) (skip_space buf es (Suc ?s + length (show_redirs rs)))"
    using g(1,2) g1(1,2) f unfolding n' parseblock.simps
    by (simp, intro reads_sh_then [OF b0]) simp
  then show "reads buf (parseexec (Suc n) buf es s) (wrap b rs) (skip_space buf es (s + length (show_cmd 3 (wrap b rs))))"
    using g(1) by (simp add: e add.assoc)
qed simp

lemma reads_line_pipe:
  assumes "reads_pipe c" "\<not> is_BACK c" "show_cmd 0 c = show_cmd 1 c"
  shows "reads_line c"
  using reads_line_backs [of c c 0] assms by simp

lemma size_backs: "size x \<le> size ((BACK ^^ k) x)"
  by (induction k) auto

lemma cmd_ok_backs: "cmd_ok ((BACK ^^ k) x) = cmd_ok x"
  by (induction k) auto

lemma reads_cmd: "cmd_ok c \<Longrightarrow> reads_line c \<and> reads_pipe c \<and> reads_exec c"
proof (induction "size c" arbitrary: c rule: less_induct)
  case less
  show ?case
  proof (cases c)
    case (PIPE l r)
    have p: "reads_pipe c"
      using less PIPE by (auto intro!: reads_pipe_PIPE)
    then have "reads_line c"
      using PIPE by (intro reads_line_pipe) (auto simp: is_BACK_def paren_def)
    with p show ?thesis
      using less.prems reads_exec_block [of c "[]"] PIPE by (simp add: is_block_def)
  next
    case (LIST l r)
    obtain k x where x: "l = (BACK ^^ k) x" "\<not> is_BACK x"
      using backs_exist by blast
    have "cmd_ok x"
      using less.prems LIST x(1) by (simp add: cmd_ok_backs)
    then have "reads_line c"
      using less.hyps [of x] less.hyps [of r] less.prems LIST x size_backs [of x k]
      by (auto intro!: reads_line_LIST)
    then show ?thesis
      using less.prems reads_exec_block [of c "[]"] LIST
      by (auto simp: is_block_def is_PIPE_def intro: reads_pipe_exec)
  next
    case (BACK b)
    obtain k x where x: "b = (BACK ^^ k) x" "\<not> is_BACK x"
      using backs_exist by blast
    have "cmd_ok x"
      using less.prems BACK x(1) by (simp add: cmd_ok_backs)
    then have "reads_line c"
      using less.hyps [of x] BACK x size_backs [of x k]
      by (intro reads_line_backs [of x c "Suc k"]) (auto simp: paren_def)
    then show ?thesis
      using less.prems reads_exec_block [of c "[]"] BACK
      by (auto simp: is_block_def is_PIPE_def intro: reads_pipe_exec)
  next
    case (EXEC ws)
    have e: "reads_exec c"
      using reads_exec_words [of ws "[]"] less.prems EXEC by simp
    then have p: "reads_pipe c"
      using EXEC by (intro reads_pipe_exec) (auto simp: is_PIPE_def)
    then have "reads_line c"
      using EXEC by (intro reads_line_pipe) (auto simp: is_BACK_def)
    with p e show ?thesis
      by simp
  next
    case (REDIR d f m fd)
    obtain b rs where b: "c = wrap b rs" "(\<exists>ws. b = EXEC ws) \<or> is_block b" "rs \<noteq> [] \<longrightarrow> size b < size c"
      using wrap_exists by blast
    then have "rs \<noteq> []"
      using REDIR by (auto simp: is_block_def)
    then have e: "reads_exec c"
      using b less.hyps [of b] less.prems reads_exec_words reads_exec_block [of b rs]
      by (auto simp: cmd_ok_wrap)
    then have p: "reads_pipe c"
      using REDIR by (intro reads_pipe_exec) (auto simp: is_PIPE_def)
    then have "reads_line c"
      using REDIR by (intro reads_line_pipe) (auto simp: is_BACK_def)
    with p e show ?thesis
      by simp
  qed
qed


section \<open>Parsing a printed command\<close>

text \<open>The terminated string at an index of the buffer, within its first \<open>n\<close> bytes.\<close>

definition cstr_at :: "nat \<Rightarrow> buffer \<Rightarrow> nat \<Rightarrow> string" where
  "cstr_at n buf q = takeWhile (\<lambda>c. c \<noteq> CHR 0x00) (map buf [q..<n])"

lemma nulterminate_at:
  "nulterminate c buf i = (if i \<in> snd ` set_cmd c then CHR 0x00 else buf i)"
proof (induction c arbitrary: buf)
  case (EXEC ws)
  show ?case
    by (induction ws arbitrary: buf) auto
qed auto

lemma cstr_at_word:
  assumes "word_range buf es w" "good_words buf es c" "w \<in> set_cmd c" "es < n"
  shows "cstr_at n (nulterminate c buf) (fst w) = word_at buf w"
proof -
  let ?b = "nulterminate c buf"
  have b: "\<forall>i \<in> {fst w..<snd w}. ?b i = buf i \<and> buf i \<noteq> CHR 0x00"
    using assms(1,2) by (auto simp: nulterminate_at good_words_def word_range_def word_char_def)
  have e: "?b (snd w) = CHR 0x00"
    using assms(3) by (auto simp: nulterminate_at)
  have "snd w < n" "fst w \<le> snd w"
    using assms(1,4) by (simp_all add: word_range_def)
  then have "[fst w..<n] = [fst w..<snd w] @ snd w # [Suc (snd w)..<n]"
    using upt_add_eq_append [of "fst w" "snd w" "n - snd w"] by (simp add: upt_conv_Cons)
  then have "map ?b [fst w..<n] = map ?b [fst w..<snd w] @ CHR 0x00 # map ?b [Suc (snd w)..<n]"
    by (simp add: e)
  moreover have "map ?b [fst w..<snd w] = map buf [fst w..<snd w]"
    using b by simp
  ultimately show ?thesis
    using b by (simp add: cstr_at_def word_at_def) (subst takeWhile_append2; auto)
qed

lemma show_cmd_nonzero: "cmd_ok c \<Longrightarrow> CHR 0x00 \<notin> set (show_cmd p c)"
  by (induction c arbitrary: p)
    (auto simp: paren_def show_redir_def redir_ok_def word_ok_def word_char_def split: if_splits)

lemma rest_line_buf: "rest (line_buf l) (length l) 0 = l"
  by (rule nth_equalityI) (auto simp: rest_def line_buf_def)

lemma parsecmd_reads:
  assumes ok: "cmd_ok c" and sp: "\<forall>x \<in> set sp. is_space x"
    and line: "line = show_cmd 0 c @ sp" "length line < n"
  shows "\<exists>cmd buf'. parsecmd (line_buf line) (length line) = Some (Ok (cmd, buf')) \<and>
    map_cmd (\<lambda>(q, _). cstr_at n buf' q) cmd = c"
proof -
  define buf es where "buf = line_buf line" and "es = length line"
  have "\<not> is_space (CHR 0x00)"
    by (simp add: is_space_def whitespace_def)
  then have "CHR 0x00 \<notin> set line"
    using show_cmd_nonzero [OF ok, of 0] sp unfolding line(1) by auto
  then have l: "line_at buf es"
    unfolding buf_def es_def by (rule line_at_line_buf)
  have r: "rest buf es 0 = show_cmd 0 c @ sp"
    using rest_line_buf [of line] by (simp add: buf_def es_def line(1))
  have b: "length (show_cmd 0 c) \<le> es"
    using line(1) by (simp add: es_def)
  have "rest buf es (skip_space buf es (length (show_cmd 0 c))) = []"
    using rest_append [OF r] sp by (simp add: skip_space_rest)
  then have s: "skip_space buf es (length (show_cmd 0 c)) = es"
    using skip_space_bounds [OF b, of buf] by (intro rest_Nil) auto
  have "reads_line c" "stops '')'' sp" "4 * length (show_cmd 0 c) + 4 \<le> parse_depth es"
    using reads_cmd [OF ok] sp b by (simp_all add: stops_def parse_depth_def)
  from reads_atD [OF this(1) l _ r this(2,3)] s obtain cmd where
    cmd: "parseline (parse_depth es) buf es 0 = Some (Ok (cmd, es))" "map_cmd (word_at buf) cmd = c"
    by (auto simp: reads_def)
  have "parses buf es 0 (parseline (parse_depth es) buf es 0)"
    using parse_parses [OF l, of "parse_depth es"] by simp
  then have g: "good_words buf es cmd"
    using cmd(1) by simp
  have "skip_space buf es es = es"
    by (subst skip_space.simps) simp
  then have "parsecmd buf es = Some (Ok (cmd, nulterminate cmd buf))"
    using cmd(1) by (simp add: parsecmd_def peek_def)
  moreover have "map_cmd (\<lambda>(q, _). cstr_at n (nulterminate cmd buf) q) cmd = map_cmd (word_at buf) cmd"
    using cstr_at_word [OF _ g, of _ n] g line(2)
    by (intro cmd.map_cong) (auto simp: good_words_def case_prod_unfold es_def)
  ultimately show ?thesis
    using cmd(2) by (auto simp: buf_def es_def)
qed

text \<open>
  \<^bold>\<open>C7.\<close> The parser reads back every command that can be written: \<^verbatim>\<open>parsecmd\<close>, given the line on which
  a command is printed and the end of line after it, returns the command, and after \<^verbatim>\<open>nulterminate\<close>
  each pointer to a word of it points to that word as a terminated string in the buffer.
\<close>

theorem parsecmd_show:
  assumes "cmd_ok c" "l = show_cmd 0 c @ [CHR 0x0A]"
  shows "\<exists>cmd buf'. parsecmd (line_buf l) (length l) = Some (Ok (cmd, buf')) \<and>
    map_cmd (\<lambda>(q, _). cstr_at (Suc (length l)) buf' q) cmd = c"
  using parsecmd_reads [of c "[CHR 0x0A]" l "Suc (length l)"] assms by (simp add: is_space_def whitespace_def)

theorem parsecmd_show_witness:
  "\<exists>cmd buf'. parsecmd (line_buf (''(ls ;cat x <a )|(wc &)'' @ [CHR 0x0A])) 23 = Some (Ok (cmd, buf')) \<and>
    map_cmd (\<lambda>(q, _). cstr_at 24 buf' q) cmd =
      PIPE (LIST (EXEC [''ls'']) (REDIR (EXEC [''cat'', ''x'']) ''a'' O_RDONLY 0)) (BACK (EXEC [''wc'']))"
proof -
  let ?c = "PIPE (LIST (EXEC [''ls'']) (REDIR (EXEC [''cat'', ''x'']) ''a'' O_RDONLY 0)) (BACK (EXEC [''wc'']))"
    and ?l = "''(ls ;cat x <a )|(wc &)'' @ [CHR 0x0A]"
  have "?l = show_cmd 0 ?c @ [CHR 0x0A]"
    by (simp add: paren_def show_redir_def)
  moreover have "cmd_ok ?c"
    by (simp add: word_ok_def word_char_def is_space_def whitespace_def is_symbol_def symbols_def
        redir_ok_def MAXARGS_def)
  moreover have "length ?l = 23"
    by simp
  ultimately show ?thesis
    using parsecmd_show [of ?c ?l] by (simp add: eval_nat_numeral)
qed

end
