(* ===== verification/Xv6_Shrun.thy ===== *)
theory Xv6_Shrun
  imports Xv6_Shell
begin

text \<open>
  The interpreter of the shell, \<^verbatim>\<open>runcmd\<close>, its helpers and its main loop (\<^verbatim>\<open>sh.c\<close>), and \<^verbatim>\<open>gets\<close> of
  \<^verbatim>\<open>ulib.c\<close>. A process is the tree of the system calls it makes: a call that returns a value is
  followed by a function of that value. What the kernel does with file descriptors is a function on
  such trees, which gives the programs a command starts and the descriptors each of them has.
\<close>

section \<open>Processes\<close>

datatype prog =
    Exit
  | Exec string "string list" prog
  | Close nat prog
  | Open string int "int \<Rightarrow> prog"
  | Dup nat prog
  | Pipe "int \<Rightarrow> nat \<Rightarrow> nat \<Rightarrow> prog"
  | Fork "int \<Rightarrow> prog"
  | Wait prog
  | Chdir string "int \<Rightarrow> prog"
  | Write nat string prog

definition panic_prog :: "string \<Rightarrow> prog" where
  "panic_prog s = Write 2 (s @ [CHR 0x0A]) Exit"

definition fork1 :: "(int \<Rightarrow> prog) \<Rightarrow> prog" where
  "fork1 k = Fork (\<lambda>pid. if pid = -1 then panic_prog ''fork'' else k pid)"

text \<open>\<^verbatim>\<open>runcmd\<close> never returns. Its argument is the command with the strings its pointers point to.\<close>

primrec runcmd :: "string cmd \<Rightarrow> prog" where
  "runcmd (EXEC argv) =
     (if argv = [] then Exit
      else Exec (hd argv) argv (Write 2 (''exec '' @ hd argv @ '' failed'' @ [CHR 0x0A]) Exit))"
| "runcmd (REDIR cmd file mode fd) =
     Close (nat fd) (Open file mode (\<lambda>r.
       if r < 0 then Write 2 (''open '' @ file @ '' failed'' @ [CHR 0x0A]) Exit else runcmd cmd))"
| "runcmd (LIST left right) =
     fork1 (\<lambda>pid. if pid = 0 then runcmd left else Wait (runcmd right))"
| "runcmd (PIPE left right) =
     Pipe (\<lambda>r p0 p1.
       if r < 0 then panic_prog ''pipe''
       else fork1 (\<lambda>pid.
         if pid = 0 then Close 1 (Dup p1 (Close p0 (Close p1 (runcmd left))))
         else fork1 (\<lambda>pid.
           if pid = 0 then Close 0 (Dup p0 (Close p0 (Close p1 (runcmd right))))
           else Close p0 (Close p1 (Wait (Wait Exit))))))"
| "runcmd (BACK cmd) = fork1 (\<lambda>pid. if pid = 0 then runcmd cmd else Exit)"


section \<open>The main loop\<close>

text \<open>
  \<^verbatim>\<open>gets(buf, max)\<close> on the bytes that \<^verbatim>\<open>read(0, &c, 1)\<close> will return: at most \<open>max - 1\<close> bytes, up to and
  including the first end of line, and what is left to read.
\<close>

primrec gets_loop :: "nat \<Rightarrow> string \<Rightarrow> string \<times> string" where
  "gets_loop 0 input = ([], input)"
| "gets_loop (Suc n) input =
     (case input of [] \<Rightarrow> ([], [])
      | c # input \<Rightarrow>
          if c = CHR 0x0A \<or> c = CHR 0x0D then ([c], input)
          else let (l, input) = gets_loop n input in (c # l, input))"

definition gets :: "nat \<Rightarrow> string \<Rightarrow> string \<times> string" where
  "gets mx input = gets_loop (mx - 1) input"

text \<open>\<^verbatim>\<open>getcmd\<close>: the prompt is written by the caller below; no command at the end of the input.\<close>

definition NBUF_SH :: nat where "NBUF_SH = 100"

definition getcmd :: "string \<Rightarrow> (string \<times> string) option" where
  "getcmd input =
     (let (l, input) = gets NBUF_SH input
      in if l = [] \<or> hd l = CHR 0x00 then None else Some (l, input))"

text \<open>The body of the loop, followed by \<open>k\<close>: a line is a C string in \<^verbatim>\<open>buf\<close>.\<close>

definition sh_body :: "string \<Rightarrow> prog \<Rightarrow> prog" where
  "sh_body l k =
     (let s = takeWhile (\<lambda>c. c \<noteq> CHR 0x00) l in
      if take 3 s = ''cd '' then
        let dir = butlast (drop 3 s) in
        Chdir dir (\<lambda>r. if r < 0 then Write 2 (''cannot cd '' @ dir @ [CHR 0x0A]) k else k)
      else fork1 (\<lambda>pid.
        if pid = 0 then
          (case parsecmd (line_buf l) (length s) of
             Some (Ok (cmd, buf)) \<Rightarrow> runcmd (map_cmd (\<lambda>(q, _). cstr_at NBUF_SH buf q) cmd)
           | Some (Fail msg) \<Rightarrow> Write 2 msg Exit
           | None \<Rightarrow> Exit)
        else Wait k))"

lemma gets_loop_shorter: "length (snd (gets_loop n input)) \<le> length input"
proof (induction n arbitrary: input)
  case (Suc n)
  then show ?case
    by (cases input) (auto simp: case_prod_unfold Let_def le_SucI)
qed simp

lemma getcmd_shorter [dest]: "getcmd input = Some (l, input') \<Longrightarrow> length input' < length input"
  using gets_loop_shorter [of 98 "tl input"]
  by (cases input) (auto simp: getcmd_def gets_def NBUF_SH_def eval_nat_numeral case_prod_unfold Let_def
      split: if_splits)

function sh_loop :: "string \<Rightarrow> prog" where
  "sh_loop input =
     Write 2 ''$ '' (case getcmd input of None \<Rightarrow> Exit | Some (l, input) \<Rightarrow> sh_body l (sh_loop input))"
  by pat_completeness auto
termination by (relation "measure length") auto

text \<open>
  The first loop of \<^verbatim>\<open>main\<close> opens the console until it gets descriptor 3 or more. Descriptors are given
  in order, so four rounds are enough.
\<close>

primrec open_console :: "nat \<Rightarrow> prog \<Rightarrow> prog" where
  "open_console 0 k = k"
| "open_console (Suc n) k =
     Open ''console'' 2 (\<lambda>fd. if fd \<ge> 0 then (if fd \<ge> 3 then Close (nat fd) k else open_console n k) else k)"

definition sh_main :: "string \<Rightarrow> prog" where
  "sh_main input = open_console 4 (sh_loop input)"


section \<open>What a command starts\<close>

text \<open>
  An open file of a process, and its descriptor table: \<^verbatim>\<open>fdalloc\<close> takes the lowest free descriptor of
  the \<^verbatim>\<open>NOFILE\<close>.
\<close>

datatype desc = File string int | Pipe_read nat | Pipe_write nat

type_synonym fds = "nat \<Rightarrow> desc option"

definition NOFILE_SH :: nat where "NOFILE_SH = 16"

definition lowest :: "fds \<Rightarrow> nat option" where
  "lowest fds = List.find (\<lambda>n. fds n = None) [0..<NOFILE_SH]"

text \<open>
  \<open>run p fds i\<close> lists the programs that process \<open>p\<close> and its children start, each with its descriptors,
  when the calls that need only memory succeed; \<open>i\<close> counts the pipes made so far. A child is listed
  before its parent goes on.
\<close>

primrec run :: "prog \<Rightarrow> fds \<Rightarrow> nat \<Rightarrow> (string list \<times> fds) list \<times> nat" where
  "run Exit fds i = ([], i)"
| "run (Exec f argv k) fds i = ([(argv, fds)], i)"
| "run (Close n k) fds i = run k (fds(n := None)) i"
| "run (Open f m k) fds i =
     (case lowest fds of None \<Rightarrow> run (k (-1)) fds i
      | Some n \<Rightarrow> run (k (int n)) (fds(n \<mapsto> File f m)) i)"
| "run (Dup n k) fds i =
     (case lowest fds of None \<Rightarrow> run k fds i
      | Some d \<Rightarrow> run k (case fds n of None \<Rightarrow> fds | Some x \<Rightarrow> fds(d \<mapsto> x)) i)"
| "run (Pipe k) fds i =
     (case lowest fds of None \<Rightarrow> run (k (-1) 0 0) fds i
      | Some r \<Rightarrow>
          (case lowest (fds(r \<mapsto> Pipe_read i)) of None \<Rightarrow> run (k (-1) 0 0) fds i
           | Some w \<Rightarrow> run (k 0 r w) (fds(r \<mapsto> Pipe_read i, w \<mapsto> Pipe_write i)) (Suc i)))"
| "run (Fork k) fds i =
     (let (xs, i) = run (k 0) fds i; (ys, i) = run (k 1) fds i in (xs @ ys, i))"
| "run (Wait k) fds i = run k fds i"
| "run (Chdir d k) fds i = run (k 0) fds i"
| "run (Write n s k) fds i = run k fds i"

lemma lowest_Some: "lowest fds = Some n \<longleftrightarrow> n < NOFILE_SH \<and> fds n = None \<and> (\<forall>m < n. fds m \<noteq> None)"
  unfolding lowest_def by (auto simp: find_Some_iff)

lemma lowest_0: "fds 0 = None \<Longrightarrow> lowest fds = Some 0"
  by (simp add: lowest_Some NOFILE_SH_def)

lemma lowest_1: "fds 0 \<noteq> None \<Longrightarrow> fds 1 = None \<Longrightarrow> lowest fds = Some 1"
  by (auto simp: lowest_Some NOFILE_SH_def less_Suc_eq)

text \<open>Two descriptors are free.\<close>

definition two_free :: "fds \<Rightarrow> bool" where
  "two_free fds \<longleftrightarrow> (\<exists>r w. r < w \<and> w < NOFILE_SH \<and> fds r = None \<and> fds w = None)"

lemma two_free_upd: "two_free fds \<Longrightarrow> fds n \<noteq> None \<Longrightarrow> two_free (fds(n \<mapsto> x))"
  unfolding two_free_def by (metis fun_upd_other)

lemma pipe_ends:
  assumes "two_free fds"
  obtains r w where "lowest fds = Some r" "lowest (fds(r \<mapsto> x)) = Some w" "fds r = None" "fds w = None" "r \<noteq> w"
proof -
  obtain a b where ab: "a < b" "b < NOFILE_SH" "fds a = None" "fds b = None"
    using assms by (auto simp: two_free_def)
  obtain r where r: "lowest fds = Some r"
    using ab by (cases "lowest fds") (auto simp: lowest_def find_None_iff)
  obtain c where c: "c < NOFILE_SH" "c \<noteq> r" "fds c = None"
    using ab by (metis less_irrefl less_trans)
  then obtain w where w: "lowest (fds(r \<mapsto> x)) = Some w"
    by (cases "lowest (fds(r \<mapsto> x))") (auto simp: lowest_def find_None_iff)
  show ?thesis
    using that [of r w] r w by (auto simp: lowest_Some split: if_splits)
qed

lemma run_pipe:
  assumes "fds 0 \<noteq> None" "fds 1 \<noteq> None" "two_free fds"
  shows "run (runcmd (PIPE l r)) fds i =
    (let (xs, i') = run (runcmd l) (fds(1 \<mapsto> Pipe_write i)) (Suc i);
         (ys, i'') = run (runcmd r) (fds(0 \<mapsto> Pipe_read i)) i'
     in (xs @ ys, i''))"
proof -
  obtain p q where pq: "lowest fds = Some p" "lowest (fds(p \<mapsto> Pipe_read i)) = Some q" "fds p = None"
    "fds q = None" "p \<noteq> q"
    using pipe_ends [OF assms(3)] .
  have n: "p \<noteq> 0" "p \<noteq> 1" "q \<noteq> 0" "q \<noteq> 1"
    using assms pq(3,4) by metis+
  let ?f = "fds(p \<mapsto> Pipe_read i, q \<mapsto> Pipe_write i)"
  have d: "lowest (?f(1 := None)) = Some 1" "lowest (?f(0 := None)) = Some 0"
    using n assms lowest_1 [of "?f(1 := None)"] lowest_0 [of "?f(0 := None)"] by auto
  have e: "(?f(1 := None, 1 \<mapsto> Pipe_write i, p := None, q := None)) = fds(1 \<mapsto> Pipe_write i)"
    "(?f(0 := None, 0 \<mapsto> Pipe_read i, p := None, q := None)) = fds(0 \<mapsto> Pipe_read i)"
    using n pq by (auto simp: fun_eq_iff)
  show ?thesis
    using pq n d e by (simp add: fork1_def case_prod_unfold Let_def)
qed

text \<open>A pipeline of simple commands, and the programs it starts: each reads the pipe the one before it writes.\<close>

fun pipeline :: "string list list \<Rightarrow> string cmd" where
  "pipeline [] = EXEC []"
| "pipeline [argv] = EXEC argv"
| "pipeline (argv # cs) = PIPE (EXEC argv) (pipeline cs)"

fun stages :: "string list list \<Rightarrow> fds \<Rightarrow> nat \<Rightarrow> (string list \<times> fds) list" where
  "stages [] fds i = []"
| "stages [argv] fds i = [(argv, fds)]"
| "stages (argv # cs) fds i =
     (argv, fds(1 \<mapsto> Pipe_write i)) # stages cs (fds(0 \<mapsto> Pipe_read i)) (Suc i)"

lemma run_pipeline:
  assumes "fds 0 \<noteq> None" "fds 1 \<noteq> None" "two_free fds" "\<forall>argv \<in> set cs. argv \<noteq> []"
  shows "run (runcmd (pipeline cs)) fds i = (stages cs fds i, i + (length cs - 1))"
  using assms
proof (induction cs fds i rule: stages.induct)
  case (3 argv c cs fds i)
  have "run (runcmd (EXEC argv)) (fds(1 \<mapsto> Pipe_write i)) (Suc i) = ([(argv, fds(1 \<mapsto> Pipe_write i))], Suc i)"
    using 3(5) by simp
  moreover have "run (runcmd (pipeline (c # cs))) (fds(0 \<mapsto> Pipe_read i)) (Suc i) =
      (stages (c # cs) (fds(0 \<mapsto> Pipe_read i)) (Suc i), Suc i + (length (c # cs) - 1))"
  proof (rule 3(1))
    show "two_free (fds(0 \<mapsto> Pipe_read i))"
      by (rule two_free_upd [OF 3(4,2)])
  qed (use 3(3,5) in simp_all)
  ultimately show ?case
    unfolding pipeline.simps run_pipe [OF 3(2-4)] by (simp del: pipeline.simps)
qed simp_all

text \<open>
  \<^bold>\<open>C10.\<close> Typing a pipeline starts its programs connected in order: in a shell whose descriptors 0 and 1
  are open and which has two free ones, the line is parsed and \<^verbatim>\<open>runcmd\<close> starts each command with its
  arguments; the first has the shell's input and the last the shell's output, each other end is the
  pipe to its neighbour, and no program has any other end of a pipe open.
\<close>

theorem pipeline_wiring:
  assumes fds: "fds 0 \<noteq> None" "fds 1 \<noteq> None" "two_free fds"
    and cs: "\<forall>argv \<in> set cs. argv \<noteq> []" "cmd_ok (pipeline cs)"
    and line: "line = show_cmd 0 (pipeline cs) @ [CHR 0x0A]" "length line < NBUF_SH" "take 3 line \<noteq> ''cd ''"
  shows "run (sh_body line Exit) fds i = (stages cs fds i, i + (length cs - 1))"
proof -
  have nl: "\<forall>x \<in> set [CHR 0x0A]. is_space x"
    by (simp add: is_space_def whitespace_def)
  have "CHR 0x00 \<notin> set line"
    using show_cmd_nonzero [OF cs(2), of 0] line(1) by auto
  then have s: "takeWhile (\<lambda>c. c \<noteq> CHR 0x00) line = line"
    by (auto simp: takeWhile_eq_all_conv)
  obtain cmd buf where "parsecmd (line_buf line) (length line) = Some (Ok (cmd, buf))"
    "map_cmd (\<lambda>(q, _). cstr_at NBUF_SH buf q) cmd = pipeline cs"
    using parsecmd_reads [OF cs(2) nl line(1,2)] by blast
  then show ?thesis
    using run_pipeline [OF fds cs(1), of i] line(3) by (simp add: sh_body_def s fork1_def)
qed

theorem pipeline_wiring_witness:
  "run (sh_body (''ls |grep a |wc '' @ [CHR 0x0A]) Exit)
     [0 \<mapsto> File ''console'' 2, 1 \<mapsto> File ''console'' 2, 2 \<mapsto> File ''console'' 2] 7 =
   ([([''ls''], [0 \<mapsto> File ''console'' 2, 1 \<mapsto> Pipe_write 7, 2 \<mapsto> File ''console'' 2]),
     ([''grep'', ''a''], [0 \<mapsto> Pipe_read 7, 1 \<mapsto> Pipe_write 8, 2 \<mapsto> File ''console'' 2]),
     ([''wc''], [0 \<mapsto> Pipe_read 8, 1 \<mapsto> File ''console'' 2, 2 \<mapsto> File ''console'' 2])], 9)"
proof -
  let ?fds = "[0 \<mapsto> File ''console'' 2, 1 \<mapsto> File ''console'' 2, 2 \<mapsto> File ''console'' 2]"
    and ?cs = "[[''ls''], [''grep'', ''a''], [''wc'']]"
  have "two_free ?fds"
    unfolding two_free_def by (intro exI [of _ 3] exI [of _ 4]) (simp add: NOFILE_SH_def)
  moreover have "cmd_ok (pipeline ?cs)"
    by (simp add: word_ok_def word_char_def is_space_def whitespace_def is_symbol_def symbols_def MAXARGS_def)
  moreover have "''ls |grep a |wc '' @ [CHR 0x0A] = show_cmd 0 (pipeline ?cs) @ [CHR 0x0A]"
    by (simp add: paren_def)
  ultimately have "run (sh_body (''ls |grep a |wc '' @ [CHR 0x0A]) Exit) ?fds 7 = (stages ?cs ?fds 7, 7 + (length ?cs - 1))"
    by (intro pipeline_wiring) (simp_all add: NBUF_SH_def paren_def)
  then show ?thesis
    by (simp add: fun_upd_twist)
qed

end
