(* ===== verification/Xv6_Umalloc.thy ===== *)
theory Xv6_Umalloc
  imports Xv6_Prelude
begin

text \<open>
  The memory allocator of user programs, \<^verbatim>\<open>umalloc.c\<close>. The memory is seen through the headers in it:
  \<open>hptr s a\<close> and \<open>hsize s a\<close> are \<^verbatim>\<open>s.ptr\<close> and \<^verbatim>\<open>s.size\<close> of a header at address \<open>a\<close>. A header is 8 bytes long
  and sizes count headers, so \<^verbatim>\<open>p + n\<close> is \<open>p + 8 * n\<close>. Addresses of user memory are below
  \<^verbatim>\<open>KERNBASE\<close> and do not wrap; the two computations on the size of a request that can wrap are written
  modulo \<open>2 ^ 32\<close>.
\<close>

section \<open>The allocator\<close>

record umem =
  hptr :: "nat \<Rightarrow> nat"
  hsize :: "nat \<Rightarrow> nat"
  freep :: nat
  base :: nat
  brk :: nat

text \<open>The search of \<^verbatim>\<open>free\<close> for the place of the block \<open>bp\<close> in the list.\<close>

partial_function (option) free_find :: "nat \<Rightarrow> nat \<Rightarrow> umem \<Rightarrow> nat option" where
  "free_find bp p s =
     (if bp > p \<and> bp < hptr s p then Some p
      else if p \<ge> hptr s p \<and> (bp > p \<or> bp < hptr s p) then Some p
      else free_find bp (hptr s p) s)"

text \<open>The two ends of the block are joined to their neighbours or linked to them.\<close>

definition join_upper :: "nat \<Rightarrow> nat \<Rightarrow> umem \<Rightarrow> umem" where
  "join_upper bp p s =
     (let q = hptr s p in
      if bp + 8 * hsize s bp = q
      then s\<lparr>hptr := (hptr s)(bp := hptr s q), hsize := (hsize s)(bp := hsize s bp + hsize s q)\<rparr>
      else s\<lparr>hptr := (hptr s)(bp := q)\<rparr>)"

definition join_lower :: "nat \<Rightarrow> nat \<Rightarrow> umem \<Rightarrow> umem" where
  "join_lower bp p s =
     (if p + 8 * hsize s p = bp
      then s\<lparr>hptr := (hptr s)(p := hptr s bp), hsize := (hsize s)(p := hsize s p + hsize s bp)\<rparr>
      else s\<lparr>hptr := (hptr s)(p := bp)\<rparr>)"

definition ufree :: "nat \<Rightarrow> umem \<Rightarrow> umem option" where
  "ufree ap s =
     (let bp = ap - 8 in
      map_option (\<lambda>p. (join_lower bp p (join_upper bp p s))\<lparr>freep := p\<rparr>) (free_find bp (freep s) s))"

text \<open>
  \<^verbatim>\<open>sbrk\<close> moves the end of the user memory by a signed amount when the kernel grants it, and returns the
  old end. Which requests the kernel grants is a parameter.
\<close>

definition sbrk :: "(nat \<Rightarrow> nat \<Rightarrow> bool) \<Rightarrow> nat \<Rightarrow> umem \<Rightarrow> (nat \<times> umem) option" where
  "sbrk grant n s = (if grant (brk s) n then Some (brk s, s\<lparr>brk := (brk s + n) mod 2 ^ 32\<rparr>) else None)"

text \<open>\<^verbatim>\<open>morecore\<close> returns \<^verbatim>\<open>freep\<close>, or a null pointer (\<open>Some None\<close>) when there is no memory.\<close>

definition morecore :: "(nat \<Rightarrow> nat \<Rightarrow> bool) \<Rightarrow> nat \<Rightarrow> umem \<Rightarrow> (nat \<times> umem) option option" where
  "morecore grant nu s =
     (let nu = (if nu < 4096 then 4096 else nu) in
      case sbrk grant ((nu * 8) mod 2 ^ 32) s of
        None \<Rightarrow> Some None
      | Some (hp, s) \<Rightarrow>
          map_option (\<lambda>s. Some (freep s, s)) (ufree (hp + 8) (s\<lparr>hsize := (hsize s)(hp := nu)\<rparr>)))"

text \<open>Taking \<open>n\<close> units from the end of the block at \<open>p\<close>, or the whole block.\<close>

definition take_block :: "nat \<Rightarrow> nat \<Rightarrow> nat \<Rightarrow> umem \<Rightarrow> nat \<times> umem" where
  "take_block n prevp p s =
     (if hsize s p = n then (p + 8, s\<lparr>hptr := (hptr s)(prevp := hptr s p), freep := prevp\<rparr>)
      else
        let m = hsize s p - n; q = p + 8 * m
        in (q + 8, s\<lparr>hsize := (hsize s)(p := m, q := n), freep := prevp\<rparr>))"

text \<open>\<^verbatim>\<open>malloc\<close>: \<open>Some (None, s)\<close> is the null pointer.\<close>

partial_function (option) malloc_loop ::
  "(nat \<Rightarrow> nat \<Rightarrow> bool) \<Rightarrow> nat \<Rightarrow> nat \<Rightarrow> nat \<Rightarrow> umem \<Rightarrow> (nat option \<times> umem) option" where
  "malloc_loop grant n prevp p s =
     (if hsize s p \<ge> n then
        (case take_block n prevp p s of (ap, s) \<Rightarrow> Some (Some ap, s))
      else if p = freep s then
        (case morecore grant n s of
           None \<Rightarrow> None
         | Some m \<Rightarrow> (case m of None \<Rightarrow> Some (None, s) | Some ps \<Rightarrow>
             malloc_loop grant n (fst ps) (hptr (snd ps) (fst ps)) (snd ps)))
      else malloc_loop grant n p (hptr s p) s)"

definition nunits :: "nat \<Rightarrow> nat" where
  "nunits nbytes = ((nbytes + 8 - 1) mod 2 ^ 32) div 8 + 1"

definition malloc :: "(nat \<Rightarrow> nat \<Rightarrow> bool) \<Rightarrow> nat \<Rightarrow> umem \<Rightarrow> (nat option \<times> umem) option" where
  "malloc grant nbytes s =
     (let s = (if freep s = 0
               then s\<lparr>freep := base s, hptr := (hptr s)(base s := base s), hsize := (hsize s)(base s := 0)\<rparr>
               else s)
      in malloc_loop grant (nunits nbytes) (freep s) (hptr s (freep s)) s)"


section \<open>The free list\<close>

text \<open>\<open>linked h xs y\<close>: the nodes \<open>xs\<close> follow one another and the last is followed by \<open>y\<close>.\<close>

primrec linked :: "(nat \<Rightarrow> nat) \<Rightarrow> nat list \<Rightarrow> nat \<Rightarrow> bool" where
  "linked h [] y \<longleftrightarrow> True"
| "linked h (x # xs) y \<longleftrightarrow> h x = hd (xs @ [y]) \<and> linked h xs y"

lemma linked_append [simp]:
  "linked h (xs @ ys) z \<longleftrightarrow> linked h xs (hd (ys @ [z])) \<and> linked h ys z"
  by (induction xs) (auto simp: hd_append)

lemma linked_upd [simp]: "a \<notin> set xs \<Longrightarrow> linked (h(a := b)) xs y = linked h xs y"
  by (induction xs) auto

text \<open>
  The list is a ring that starts with \<^verbatim>\<open>base\<close>, an empty block; its blocks come in the order of their
  addresses with gaps between them, and lie between \<open>lo\<close>, where the heap starts, and the end of the
  memory.
\<close>

definition before :: "umem \<Rightarrow> nat \<Rightarrow> nat \<Rightarrow> bool" where
  "before s x y \<longleftrightarrow> x + 8 * hsize s x < y"

definition ring :: "nat \<Rightarrow> umem \<Rightarrow> nat list \<Rightarrow> bool" where
  "ring lo s ns \<longleftrightarrow>
     linked (hptr s) (base s # ns) (base s) \<and> sorted_wrt (before s) (base s # ns) \<and>
     hsize s (base s) = 0 \<and> freep s \<in> set (base s # ns) \<and> 0 < base s \<and> base s < lo \<and>
     (\<forall>x \<in> set ns. lo \<le> x \<and> 0 < hsize s x \<and> x + 8 * hsize s x \<le> brk s)"

definition area :: "umem \<Rightarrow> nat \<Rightarrow> nat set" where
  "area s x = {x..<x + 8 * hsize s x}"

definition areas :: "umem \<Rightarrow> nat set \<Rightarrow> nat set" where
  "areas s X = (\<Union>x \<in> X. area s x)"

lemma ring_sorted: "sorted_wrt (before s) xs \<Longrightarrow> sorted_wrt (<) xs"
  by (erule sorted_wrt_mono_rel [rotated]) (simp add: before_def)

lemma ring_distinct: "sorted_wrt (before s) xs \<Longrightarrow> distinct xs"
  using ring_sorted strict_sorted_iff by blast

lemma linked_less:
  "linked h xs t \<Longrightarrow> sorted_wrt (<) (xs @ [t]) \<Longrightarrow> x \<in> set xs \<Longrightarrow> x < h x \<and> h x \<le> t"
proof (induction xs)
  case (Cons a xs)
  then show ?case by (cases xs) auto
qed simp

lemma linked_succ: "linked h (xs @ x # ys) z \<Longrightarrow> h x = hd (ys @ [z])"
  by simp


section \<open>The search of free\<close>

lemma free_find_upto:
  assumes "linked (hptr s) xs t" "\<forall>x \<in> set xs. x < hptr s x \<and> hptr s x \<le> t" "t < bp"
  shows "free_find bp (hd (xs @ [t])) s = free_find bp t s"
  using assms
proof (induction xs)
  case (Cons x xs)
  then have "hptr s x = hd (xs @ [t])" "x < hptr s x" "hptr s x < bp"
    by auto
  then show ?case
    using Cons by (subst free_find.simps) simp
qed simp

lemma free_find_past:
  assumes "linked (hptr s) xs b" "sorted_wrt (<) xs" "\<forall>x \<in> set xs. bp < x" "b < bp"
  shows "free_find bp (hd (xs @ [b])) s = free_find bp b s"
  using assms
proof (induction xs)
  case (Cons x xs)
  have "x < hptr s x \<or> hptr s x = b"
    using Cons.prems by (cases xs) auto
  then have "\<not> (x \<ge> hptr s x \<and> (bp > x \<or> bp < hptr s x))" "\<not> (bp > x \<and> bp < hptr s x)"
    using Cons.prems(3,4) by auto
  then have "free_find bp x s = free_find bp (hptr s x) s"
    by (subst free_find.simps) auto
  then show ?case
    using Cons by simp
qed simp

lemma free_find_at:
  assumes "hptr s t = hd (bs @ [b])" "t < bp" "b \<le> t" "\<forall>x \<in> set bs. bp < x"
  shows "free_find bp t s = Some t"
proof -
  have "hptr s t = b \<or> bp < hptr s t"
    using assms(1,4) by (cases bs) auto
  then show ?thesis
    using assms(2,3) by (subst free_find.simps) auto
qed

lemma free_find_ring:
  assumes l: "linked (hptr s) (b # ns) b" and o: "sorted_wrt (<) (b # ns)" and f: "freep s \<in> set (b # ns)"
    and n: "b # ns = as @ t # bs" and t: "t < bp" "\<forall>x \<in> set bs. bp < x"
  shows "free_find bp (freep s) s = Some t"
proof -
  have b: "b \<le> t" "b < bp"
    using n o t(1) by (cases as; auto simp: sorted_wrt_append)+
  have at: "free_find bp t s = Some t"
    using free_find_at [OF linked_succ [OF l [unfolded n]] t(1) b(1) t(2)] .
  have upto: "free_find bp (hd (ys @ [t])) s = Some t" if "as = xs @ ys" for xs ys
  proof -
    have "linked (hptr s) ys t"
      using l unfolding n that by simp
    moreover have "sorted_wrt (<) (ys @ [t])"
      using o unfolding n that by (auto simp: sorted_wrt_append)
    ultimately have "free_find bp (hd (ys @ [t])) s = free_find bp t s"
      using linked_less t(1) by (intro free_find_upto) blast+
    with at show ?thesis by simp
  qed
  have past: "free_find bp (hd (ys @ [b])) s = Some t" if "bs = xs @ ys" for xs ys
  proof -
    have "linked (hptr s) ys b" "sorted_wrt (<) ys"
      using l o unfolding n that by (auto simp: sorted_wrt_append)
    then have "free_find bp (hd (ys @ [b])) s = free_find bp b s"
      using t(2) b(2) that by (intro free_find_past) auto
    moreover have "free_find bp b s = Some t"
      using upto [of "[]" as] n by (cases as) auto
    ultimately show ?thesis by simp
  qed
  consider "freep s \<in> set as" | "freep s = t" | "freep s \<in> set bs"
    using f unfolding n by auto
  then show ?thesis
  proof cases
    case 1
    then obtain xs ys where "as = xs @ freep s # ys"
      by (meson split_list)
    with upto [of xs "freep s # ys"] show ?thesis by simp
  next
    case 3
    then obtain xs ys where "bs = xs @ freep s # ys"
      by (meson split_list)
    with past [of xs "freep s # ys"] show ?thesis by simp
  qed (use at in simp)
qed


section \<open>Freeing a block\<close>

lemma split_at:
  fixes b :: nat
  assumes "sorted_wrt (<) (b # ns)" "b < bp" "bp \<notin> set ns"
  shows "\<exists>as t bs. b # ns = as @ t # bs \<and> t < bp \<and> (\<forall>x \<in> set bs. bp < x)"
  using assms
proof (induction ns arbitrary: b)
  case Nil
  then show ?case
    by (intro exI [of _ "[]"] exI [of _ b]) simp
next
  case (Cons x ns)
  show ?case
  proof (cases "x < bp")
    case True
    then obtain as t bs where "x # ns = as @ t # bs" "t < bp" "\<forall>x \<in> set bs. bp < x"
      using Cons.IH [of x] Cons.prems by auto
    then show ?thesis
      by (intro exI [of _ "b # as"] exI [of _ t] exI [of _ bs]) simp
  next
    case False
    then have "bp < x"
      using Cons.prems(3) by (auto simp: not_less le_less)
    then have "\<forall>y \<in> set (x # ns). bp < y"
      using Cons.prems(1) by (auto intro: less_trans)
    with Cons.prems show ?thesis
      by (intro exI [of _ "[]"] exI [of _ b] exI [of _ "x # ns"]) simp
  qed
qed

lemma areas_simps [simp]:
  "areas s {} = {}" "areas s (insert x X) = area s x \<union> areas s X" "areas s (X \<union> Y) = areas s X \<union> areas s Y"
  by (auto simp: areas_def)

lemma areas_cong: "(\<And>x. x \<in> X \<Longrightarrow> hsize s x = hsize s' x) \<Longrightarrow> areas s X = areas s' X"
  by (auto simp: areas_def area_def)

lemma area_join: "x \<le> y \<Longrightarrow> y \<le> z \<Longrightarrow> {x..<y} \<union> {y..<z} = {x..<(z::nat)}"
  by (rule ivl_disj_un_two(3))

text \<open>
  After the first half of \<^verbatim>\<open>free\<close> the block, of \<open>m\<close> units now, is followed by the part \<open>bs2\<close> of the list after
  it, and does not touch it.
\<close>

lemma join_upper_spec:
  assumes l: "hptr s t = hd (bs @ [b])" "linked (hptr s) bs b" and o: "sorted_wrt (before s) bs"
    and bs: "\<forall>x \<in> set bs. bp + 8 * hsize s bp \<le> x" "bp \<notin> set bs" and b: "b < bp"
  obtains m us bs2 where "bs = us @ bs2" "hsize s bp \<le> m" "\<forall>x \<in> set bs2. bp + 8 * m < x"
    "join_upper bp t s = s\<lparr>hptr := (hptr s)(bp := hd (bs2 @ [b])), hsize := (hsize s)(bp := m)\<rparr>"
    "{bp..<bp + 8 * m} \<union> areas s (set bs2) = area s bp \<union> areas s (set bs)"
    "bp + 8 * m = bp + 8 * hsize s bp \<or> (\<exists>x \<in> set bs. bp + 8 * m = x + 8 * hsize s x)"
proof (cases "bp + 8 * hsize s bp = hptr s t")
  case True
  then obtain q bs2 where q: "bs = q # bs2" "bp + 8 * hsize s bp = q"
    using l(1) b by (cases bs) auto
  let ?m = "hsize s bp + hsize s q"
  have e: "bp + 8 * ?m = q + 8 * hsize s q"
    using q(2) by simp
  have "area s bp \<union> area s q = {bp..<bp + 8 * ?m}"
    using area_join [of bp q "q + 8 * hsize s q"] q(2) unfolding e by (auto simp: area_def)
  then have a: "{bp..<bp + 8 * ?m} \<union> areas s (set bs2) = area s bp \<union> areas s (set bs)"
    by (auto simp: q(1))
  show ?thesis
  proof (rule that [of "[q]" bs2 ?m])
    show "\<forall>x \<in> set bs2. bp + 8 * ?m < x"
      using o q by (auto simp: before_def algebra_simps)
    show "join_upper bp t s = s\<lparr>hptr := (hptr s)(bp := hd (bs2 @ [b])), hsize := (hsize s)(bp := ?m)\<rparr>"
      using True q l by (simp add: join_upper_def)
  qed (use q a in \<open>auto simp: algebra_simps\<close>)
next
  case False
  have "bp + 8 * hsize s bp < x" if "x \<in> set bs" for x
  proof (cases bs)
    case (Cons q bs2)
    then have "bp + 8 * hsize s bp < q"
      using False l(1) bs(1) by (auto simp: le_less)
    then show ?thesis
      using that Cons ring_sorted [OF o] by auto
  qed (use that in simp)
  moreover have "(hsize s)(bp := hsize s bp) = hsize s"
    by simp
  ultimately show ?thesis
    using that [of "[]" bs "hsize s bp"] False l(1) by (simp add: join_upper_def area_def)
qed

text \<open>The second half: the new list is \<open>as\<close>, \<open>ts\<close> and \<open>bs\<close>.\<close>

lemma join_lower_spec:
  assumes "t + 8 * hsize s t \<le> bp" "t \<noteq> bp"
  obtains ts where "ts = [t] \<or> ts = [t, bp]" "t + 8 * hsize s t = bp \<longleftrightarrow> ts = [t]"
    "join_lower bp t s = s\<lparr>hptr := (hptr s)(t := hd (tl ts @ [hptr s bp])),
       hsize := (hsize s)(t := (if ts = [t] then hsize s t + hsize s bp else hsize s t))\<rparr>"
proof (cases "t + 8 * hsize s t = bp")
  case True
  then show ?thesis
    using that [of "[t]"] by (simp add: join_lower_def)
next
  case False
  then show ?thesis
    using that [of "[t, bp]"] by (simp add: join_lower_def)
qed

definition heap_block :: "nat \<Rightarrow> umem \<Rightarrow> nat \<Rightarrow> bool" where
  "heap_block lo s x \<longleftrightarrow> lo \<le> x \<and> 0 < hsize s x \<and> x + 8 * hsize s x \<le> brk s"

lemma ringD:
  assumes "ring lo s ns"
  shows "linked (hptr s) (base s # ns) (base s)" "sorted_wrt (before s) (base s # ns)"
    "hsize s (base s) = 0" "freep s \<in> set (base s # ns)" "0 < base s" "base s < lo"
    "\<forall>x \<in> set ns. heap_block lo s x"
  using assms unfolding ring_def heap_block_def by blast+

lemma ringI:
  assumes "linked (hptr s) (base s # ns) (base s)" "sorted_wrt (before s) (base s # ns)"
    "hsize s (base s) = 0" "freep s \<in> set (base s # ns)" "0 < base s" "base s < lo"
    "\<forall>x \<in> set ns. heap_block lo s x"
  shows "ring lo s ns"
  using assms unfolding ring_def heap_block_def by blast

text \<open>A block outside the free list lies in a gap of it.\<close>

lemma ring_gap:
  assumes r: "ring lo s ns" and b: "heap_block lo s bp" "area s bp \<inter> areas s (set ns) = {}"
  obtains as t bs where "base s # ns = as @ t # bs" "t + 8 * hsize s t \<le> bp" "t < bp"
    "\<forall>x \<in> set bs. bp + 8 * hsize s bp \<le> x" "bp \<notin> set (base s # ns)"
    "free_find bp (freep s) s = Some t"
proof -
  note R = ringD [OF r]
  have nz: "0 < hsize s bp" "base s < bp"
    using b(1) R(6) by (auto simp: heap_block_def)
  have out: "x + 8 * hsize s x \<le> bp \<or> bp + 8 * hsize s bp \<le> x \<and> bp < x" if x: "x \<in> set ns" for x
  proof -
    have d: "area s bp \<inter> area s x = {}"
      using b(2) x by (auto simp: areas_def)
    have "bp \<in> area s bp" "x \<in> area s x"
      using nz(1) R(7) x by (auto simp: area_def heap_block_def)
    with d have "bp \<notin> area s x" "x \<notin> area s bp"
      by blast+
    then show ?thesis
      using nz(1) by (auto simp: area_def)
  qed
  have n: "bp \<notin> set ns"
    using out [of bp] nz(1) by auto
  obtain as t bs where sp: "base s # ns = as @ t # bs" "t < bp" "\<forall>x \<in> set bs. bp < x"
    using split_at [OF ring_sorted [OF R(2)] nz(2) n] by blast
  have t: "t = base s \<or> t \<in> set ns" "set bs \<subseteq> set ns"
    using sp(1) by (cases as; auto)+
  show ?thesis
  proof (rule that [OF sp(1)])
    show "t + 8 * hsize s t \<le> bp"
      using t(1) out [of t] R(3) sp(2) by auto
    show "\<forall>x \<in> set bs. bp + 8 * hsize s bp \<le> x"
      using t(2) out sp(3) by fastforce
    show "free_find bp (freep s) s = Some t"
      using free_find_ring [OF R(1) ring_sorted [OF R(2)] R(4) sp] .
  qed (use n nz sp(2) in auto)
qed

text \<open>The list after \<^verbatim>\<open>free\<close>, in terms of the pieces of the old one.\<close>

lemma linked_pieces:
  assumes "linked h as t" "linked h bs b" "ts = [t] \<or> ts = [t, bp]"
    and "bp \<notin> set as" "bp \<noteq> t" "bp \<notin> set bs" "t \<notin> set as" "t \<notin> set bs"
  shows "linked (h(bp := hd (bs @ [b]), t := hd (tl ts @ [hd (bs @ [b])]))) (as @ ts @ bs) b"
  using assms(3)
proof
  assume "ts = [t]"
  then show ?thesis
    using assms by simp
next
  assume "ts = [t, bp]"
  then show ?thesis
    using assms by simp
qed

lemma sorted_pieces:
  assumes z: "sorted_wrt (before s) (as @ t # us @ bs)" and t: "t + 8 * hsize s t \<le> bp" "t < bp"
    and ts: "ts = [t] \<or> ts = [t, bp]" "t + 8 * hsize s t = bp \<longleftrightarrow> ts = [t]"
    and bs: "\<forall>x \<in> set bs. bp + 8 * m < x"
    and n: "bp \<notin> set as" "bp \<notin> set bs" "t \<notin> set as" "t \<notin> set bs"
    and s': "hsize s' = (hsize s)(bp := m, t := (if ts = [t] then hsize s t + m else hsize s t))"
  shows "sorted_wrt (before s') (as @ ts @ bs)"
proof -
  have e: "before s' x y \<longleftrightarrow> before s x y" if "x \<in> set as \<union> set bs" for x y
    using that n by (auto simp: before_def s')
  have "sorted_wrt (before s') as" "sorted_wrt (before s') bs"
    using z n e by (auto simp: sorted_wrt_append intro!: sorted_wrt_mono_rel [of _ "before s" "before s'"])
  moreover have "\<forall>x \<in> set as. \<forall>y \<in> set (ts @ bs). before s' x y"
    using z n e ts t by (auto simp: sorted_wrt_append before_def)
  moreover have "sorted_wrt (before s') ts"
    using ts t by (auto simp: before_def s' le_less)
  moreover have "\<forall>x \<in> set ts. \<forall>y \<in> set bs. before s' x y"
    using z ts bs t n by (auto simp: sorted_wrt_append before_def s' algebra_simps)
  ultimately show ?thesis
    by (auto simp: sorted_wrt_append)
qed

lemma areas_pieces:
  assumes "ts = [t] \<or> ts = [t, bp]" "t + 8 * hsize s t = bp \<longleftrightarrow> ts = [t]" "t \<noteq> bp"
    and "bp \<notin> set as" "bp \<notin> set bs" "t \<notin> set as" "t \<notin> set bs"
    and s': "hsize s' = (hsize s)(bp := m, t := (if ts = [t] then hsize s t + m else hsize s t))"
  shows "areas s' (set (as @ ts @ bs)) = areas s (set as) \<union> area s t \<union> {bp..<bp + 8 * m} \<union> areas s (set bs)"
proof -
  have "hsize s' x = hsize s x" if "x \<in> set as \<union> set bs" for x
    using that assms(4-7) by (auto simp: s')
  then have "areas s' (set as) = areas s (set as)" "areas s' (set bs) = areas s (set bs)"
    by (auto intro!: areas_cong)
  moreover have "areas s' (set ts) = area s t \<union> {bp..<bp + 8 * m}"
    using assms(1)
  proof
    assume 1: "ts = [t]"
    then have "bp = t + 8 * hsize s t"
      using assms(2) by simp
    then show ?thesis
      using 1 area_join [of t bp "bp + 8 * m"] by (simp add: area_def s' algebra_simps)
  next
    assume "ts = [t, bp]"
    then show ?thesis
      using assms(3) by (simp add: area_def s')
  qed
  ultimately show ?thesis
    by (simp add: Un_ac)
qed

text \<open>
  \<^verbatim>\<open>free\<close> returns; the block is free afterwards, some block of the list has at least its size, and no
  other header has changed.
\<close>

definition freed :: "nat \<Rightarrow> nat \<Rightarrow> umem \<Rightarrow> nat list \<Rightarrow> umem \<Rightarrow> nat list \<Rightarrow> bool" where
  "freed lo bp s ns s' ns' \<longleftrightarrow>
     ring lo s' ns' \<and> areas s' (set ns') = areas s (set ns) \<union> area s bp \<and>
     (\<exists>x \<in> set ns'. hsize s bp \<le> hsize s' x) \<and>
     (\<forall>a. a \<notin> set (base s # ns) \<longrightarrow> a \<noteq> bp \<longrightarrow> hsize s' a = hsize s a) \<and>
     brk s' = brk s \<and> base s' = base s"

lemma area_base: "hsize s b = 0 \<Longrightarrow> area s b = {}"
  by (simp add: area_def)

text \<open>
  What \<^verbatim>\<open>free\<close> has found and done: the old list is \<open>as\<close>, \<open>t\<close>, \<open>us\<close>, \<open>bs\<close>, the block goes after \<open>t\<close>, it has
  \<open>m\<close> units when the blocks \<open>us\<close> are joined to it, and \<open>ts\<close> takes the place of \<open>t\<close> and \<open>us\<close>.
\<close>

definition placed :: "nat \<Rightarrow> umem \<Rightarrow> nat list \<Rightarrow> nat \<Rightarrow> nat list \<Rightarrow> nat \<Rightarrow> nat list \<Rightarrow> nat list \<Rightarrow>
  nat \<Rightarrow> nat list \<Rightarrow> umem \<Rightarrow> bool" where
  "placed lo s ns bp as t us bs m ts s' \<longleftrightarrow>
     ring lo s ns \<and> base s # ns = as @ t # us @ bs \<and> t + 8 * hsize s t \<le> bp \<and> t < bp \<and>
     bp \<notin> set (base s # ns) \<and> heap_block lo s bp \<and>
     hsize s bp \<le> m \<and> (\<forall>x \<in> set bs. bp + 8 * m < x) \<and> bp + 8 * m \<le> brk s \<and>
     {bp..<bp + 8 * m} \<union> areas s (set bs) = area s bp \<union> areas s (set (us @ bs)) \<and>
     (ts = [t] \<or> ts = [t, bp]) \<and> (t + 8 * hsize s t = bp \<longleftrightarrow> ts = [t]) \<and>
     s' = s\<lparr>hptr := (hptr s)(bp := hd (bs @ [base s]), t := hd (tl ts @ [hd (bs @ [base s])])),
       hsize := (hsize s)(bp := m, t := (if ts = [t] then hsize s t + m else hsize s t)), freep := t\<rparr>"

lemma placedD:
  assumes "placed lo s ns bp as t us bs m ts s'"
  shows "ring lo s ns" "base s # ns = as @ t # us @ bs" "t + 8 * hsize s t \<le> bp" "t < bp"
    "bp \<notin> set (base s # ns)" "heap_block lo s bp"
    "hsize s bp \<le> m" "\<forall>x \<in> set bs. bp + 8 * m < x" "bp + 8 * m \<le> brk s"
    "{bp..<bp + 8 * m} \<union> areas s (set bs) = area s bp \<union> areas s (set (us @ bs))"
    "ts = [t] \<or> ts = [t, bp]" "t + 8 * hsize s t = bp \<longleftrightarrow> ts = [t]"
    "s' = s\<lparr>hptr := (hptr s)(bp := hd (bs @ [base s]), t := hd (tl ts @ [hd (bs @ [base s])])),
      hsize := (hsize s)(bp := m, t := (if ts = [t] then hsize s t + m else hsize s t)), freep := t\<rparr>"
  using assms unfolding placed_def by blast+

lemma placed_facts:
  assumes p: "placed lo s ns bp as t us bs m ts s'"
  shows "bp \<notin> set as" "bp \<noteq> t" "bp \<notin> set bs" "t \<notin> set as" "t \<notin> set bs"
    "base s < bp" "lo \<le> bp" "0 < m" "t = base s \<longrightarrow> ts = [t, bp]" "base s # tl (as @ ts @ bs) = as @ ts @ bs"
    "hsize s' (base s) = 0" "base s' = base s" "brk s' = brk s"
proof -
  note P = placedD [OF p]
  note R = ringD [OF P(1)]
  have "distinct (base s # ns)"
    using R(2) by (rule ring_distinct)
  then show "bp \<notin> set as" "bp \<noteq> t" "bp \<notin> set bs" "t \<notin> set as" "t \<notin> set bs"
    using P(5) unfolding P(2) by auto
  show lo: "base s < bp" "lo \<le> bp" "0 < m"
    using P(6,7) R(6) by (auto simp: heap_block_def)
  show t: "t = base s \<longrightarrow> ts = [t, bp]"
    using R(3) lo(1) P(11,12) by auto
  show "base s # tl (as @ ts @ bs) = as @ ts @ bs"
    using P(2,11) by (cases as) auto
  show "hsize s' (base s) = 0" "base s' = base s" "brk s' = brk s"
    using R(3) t lo(1) by (auto simp: P(13))
qed

lemma placed_sorted:
  assumes p: "placed lo s ns bp as t us bs m ts s'"
  shows "sorted_wrt (before s') (as @ ts @ bs)"
    and "x \<in> set (tl (as @ ts @ bs)) \<longleftrightarrow> x \<in> set (as @ ts @ bs) \<and> x \<noteq> base s"
proof -
  note P = placedD [OF p] and F = placed_facts [OF p]
  show S: "sorted_wrt (before s') (as @ ts @ bs)"
    by (rule sorted_pieces [OF ringD(2) [OF P(1), unfolded P(2)] P(3,4,11,12,8) F(1,3,4,5)]) (simp add: P(13))
  then have "distinct (as @ ts @ bs)"
    by (rule ring_distinct)
  with F(10) show "x \<in> set (tl (as @ ts @ bs)) \<longleftrightarrow> x \<in> set (as @ ts @ bs) \<and> x \<noteq> base s"
    by (metis distinct.simps(2) set_ConsD list.set_intros)
qed

lemma placed_ring:
  assumes p: "placed lo s ns bp as t us bs m ts s'"
  shows "ring lo s' (tl (as @ ts @ bs))"
proof (rule ringI)
  note P = placedD [OF p] and F = placed_facts [OF p] and S = placed_sorted [OF p]
  note R = ringD [OF P(1)]
  have L: "linked (hptr s) as t" "linked (hptr s) bs (base s)"
    using R(1) unfolding P(2) by auto
  show "linked (hptr s') (base s' # tl (as @ ts @ bs)) (base s')"
    using linked_pieces [OF L P(11) F(1-5)] unfolding F(12,10) by (simp add: P(13))
  show "freep s' \<in> set (base s' # tl (as @ ts @ bs))"
    using P(11) unfolding F(12,10) by (auto simp: P(13))
  have blk: "heap_block lo s x" if "x \<in> set (as @ t # us @ bs)" "x \<noteq> base s" for x
    using R(7) that unfolding P(2) [symmetric] by auto
  show "\<forall>x \<in> set (tl (as @ ts @ bs)). heap_block lo s' x"
  proof
    fix x
    assume "x \<in> set (tl (as @ ts @ bs))"
    then consider "x = bp" "ts = [t, bp]" | "x = t" "t \<noteq> base s"
      | "x \<in> set (as @ bs)" "x \<noteq> base s" "x \<noteq> t" "x \<noteq> bp"
      using P(11) F(1-5) unfolding S(2) by auto
    then show "heap_block lo s' x"
    proof cases
      case 1
      then show ?thesis
        using F P(9) by (simp add: heap_block_def P(13))
    next
      case 2
      then show ?thesis
        using blk [of t] P(9,12) by (auto simp: heap_block_def P(13))
    next
      case 3
      then show ?thesis
        using blk [of x] by (auto simp: heap_block_def P(13))
    qed
  qed
  show "sorted_wrt (before s') (base s' # tl (as @ ts @ bs))"
    unfolding F(12,10) by (rule S(1))
qed (use ringD(5,6) [OF placedD(1) [OF p]] placed_facts(11-13) [OF p] in simp_all)

lemma placed_freed:
  assumes p: "placed lo s ns bp as t us bs m ts s'"
  shows "freed lo bp s ns s' (tl (as @ ts @ bs))"
proof -
  note P = placedD [OF p] and F = placed_facts [OF p] and S = placed_sorted [OF p]
  let ?N = "as @ ts @ bs"
  have z': "hsize s' = (hsize s)(bp := m, t := (if ts = [t] then hsize s t + m else hsize s t))"
    by (simp add: P(13))
  have "areas s' (set (tl ?N)) = areas s' (set ?N)"
    using area_base [OF F(11)] by (subst (2) F(10) [symmetric]) simp
  also have "\<dots> = areas s (set (base s # ns)) \<union> area s bp"
    using areas_pieces [OF P(11,12) _ F(1,3,4,5) z'] F(2) P(10) unfolding P(2) by auto
  finally have "areas s' (set (tl ?N)) = areas s (set ns) \<union> area s bp"
    using area_base [OF ringD(3) [OF P(1)]] by simp
  moreover have "\<exists>x \<in> set (tl ?N). hsize s bp \<le> hsize s' x"
    using P(11)
  proof
    assume ts: "ts = [t]"
    then have "t \<in> set (tl ?N)"
      using F(9) S(2) [of t] by auto
    with ts show ?thesis
      using P(7) by (intro bexI [of _ t]) (auto simp: z')
  next
    assume ts: "ts = [t, bp]"
    then have "bp \<in> set (tl ?N)"
      using F(6) S(2) [of bp] by auto
    with ts show ?thesis
      using P(7) F(2) by (intro bexI [of _ bp]) (auto simp: z')
  qed
  moreover have "\<forall>a. a \<notin> set (base s # ns) \<longrightarrow> a \<noteq> bp \<longrightarrow> hsize s' a = hsize s a"
    unfolding P(2) by (auto simp: z')
  ultimately show ?thesis
    using placed_ring [OF p] F(12,13) unfolding freed_def by blast
qed

lemma ufree_spec:
  assumes r: "ring lo s ns" and b: "heap_block lo s bp" "area s bp \<inter> areas s (set ns) = {}"
  obtains s' ns' where "ufree (bp + 8) s = Some s'" "freed lo bp s ns s' ns'"
proof -
  note R = ringD [OF r]
  obtain as t bs where g: "base s # ns = as @ t # bs" "t + 8 * hsize s t \<le> bp" "t < bp"
    "\<forall>x \<in> set bs. bp + 8 * hsize s bp \<le> x" "bp \<notin> set (base s # ns)"
    "free_find bp (freep s) s = Some t"
    by (rule ring_gap [OF r b])
  have L: "hptr s t = hd (bs @ [base s])" "linked (hptr s) bs (base s)" "sorted_wrt (before s) bs"
    "bp \<notin> set bs" "base s < bp"
    using R(1,2,6) g(5) b(1) unfolding g(1) by (auto simp: sorted_wrt_append heap_block_def)
  obtain m us bs2 where u: "bs = us @ bs2" "hsize s bp \<le> m" "\<forall>x \<in> set bs2. bp + 8 * m < x"
    "join_upper bp t s = s\<lparr>hptr := (hptr s)(bp := hd (bs2 @ [base s])), hsize := (hsize s)(bp := m)\<rparr>"
    "{bp..<bp + 8 * m} \<union> areas s (set bs2) = area s bp \<union> areas s (set bs)"
    "bp + 8 * m = bp + 8 * hsize s bp \<or> (\<exists>x \<in> set bs. bp + 8 * m = x + 8 * hsize s x)"
    by (rule join_upper_spec [OF L(1-3) g(4) L(4,5)])
  let ?s1 = "join_upper bp t s"
  have t1: "hsize ?s1 t = hsize s t"
    using g(3) by (simp add: u(4))
  obtain ts where v: "ts = [t] \<or> ts = [t, bp]" "t + 8 * hsize ?s1 t = bp \<longleftrightarrow> ts = [t]"
    "join_lower bp t ?s1 = ?s1\<lparr>hptr := (hptr ?s1)(t := hd (tl ts @ [hptr ?s1 bp])),
       hsize := (hsize ?s1)(t := (if ts = [t] then hsize ?s1 t + hsize ?s1 bp else hsize ?s1 t))\<rparr>"
    using join_lower_spec [of t ?s1 bp] g(2,3) t1 by auto
  define s' where "s' = (join_lower bp t ?s1)\<lparr>freep := t\<rparr>"
  have "set bs \<subseteq> set ns"
    using g(1) by (cases as) auto
  then have "bp + 8 * m \<le> brk s"
    using u(6) R(7) b(1) by (auto simp: heap_block_def)
  then have "placed lo s ns bp as t us bs2 m ts s'"
    unfolding placed_def using r g(1-3,5) b(1) u(1-3,5) v t1 by (auto simp: s'_def u(4))
  from placed_freed [OF this] show ?thesis
    using that [of s'] g(6) by (simp add: ufree_def s'_def)
qed


section \<open>Allocating a block\<close>

text \<open>
  Taking a block from the list: a block of \<open>n\<close> units with header \<open>q\<close> leaves the free area, and no header
  outside the list and the new block has changed.
\<close>

definition taken :: "nat \<Rightarrow> nat \<Rightarrow> umem \<Rightarrow> nat list \<Rightarrow> nat \<Rightarrow> umem \<Rightarrow> nat list \<Rightarrow> bool" where
  "taken lo n s ns q s' ns' \<longleftrightarrow>
     ring lo s' ns' \<and> hsize s' q = n \<and> heap_block lo s' q \<and> area s' q \<subseteq> areas s (set ns) \<and>
     areas s' (set ns') = areas s (set ns) - area s' q \<and>
     (\<forall>a. a \<notin> set (base s # ns) \<longrightarrow> a \<noteq> q \<longrightarrow> hsize s' a = hsize s a) \<and>
     brk s' = brk s \<and> base s' = base s"

lemma areas_disjoint:
  assumes "sorted_wrt (before s) (us @ w # vs)"
  shows "area s w \<inter> areas s (set (us @ vs)) = {}"
  using assms by (fastforce simp: sorted_wrt_append before_def area_def areas_def)

lemma ring_pred:
  assumes r: "ring lo s ns" and a: "a \<in> set (base s # ns)" "hptr s a = w" and w: "w \<in> set ns"
  obtains us vs where "base s # ns = us @ a # w # vs"
proof -
  note R = ringD [OF r]
  obtain us vs where sp: "base s # ns = us @ a # vs"
    using split_list [OF a(1)] by blast
  have "w \<noteq> base s"
    using ring_distinct [OF R(2)] w by auto
  moreover have "w = hd (vs @ [base s])"
    using linked_succ [OF R(1) [unfolded sp]] a(2) by simp
  ultimately have "vs = w # tl vs"
    by (cases vs) auto
  with sp that show ?thesis by metis
qed

lemma take_whole:
  assumes r: "ring lo s ns" and sp: "base s # ns = us @ a # w # vs" and X: "X = us @ a # vs"
    and s': "s' = s\<lparr>hptr := (hptr s)(a := hptr s w), freep := a\<rparr>"
  shows "taken lo (hsize s w) s ns w s' (tl X)"
proof -
  note R = ringD [OF r]
  have N: "base s # tl X = X"
    using sp X by (cases us) auto
  have "distinct (us @ a # w # vs)"
    using ring_distinct [OF R(2)] unfolding sp .
  then have d: "a \<notin> set us" "a \<notin> set vs"
    by auto
  have w: "w \<in> set ns" and sub: "set (tl X) \<subseteq> set ns"
    using sp X by (cases us; auto)+
  have z: "before s' = before s" "areas s' Y = areas s Y" "area s' x = area s x"
    "heap_block lo s' x = heap_block lo s x" "base s' = base s" for Y x
    by (auto simp: fun_eq_iff before_def areas_def area_def heap_block_def s')
  have "ring lo s' (tl X)"
  proof (rule ringI; (unfold z N)?)
    have "linked (hptr s) us a" "hptr s w = hd (vs @ [base s])" "linked (hptr s) vs (base s)"
      using R(1) unfolding sp by auto
    then show "linked (hptr s') X (base s)"
      using d by (simp add: s' X)
    show "sorted_wrt (before s) X"
      using R(2) unfolding sp X by (auto simp: sorted_wrt_append)
    show "freep s' \<in> set X"
      by (simp add: s' X)
  qed (use R sub in \<open>auto simp: s'\<close>)
  moreover have "areas s (set (tl X)) = areas s (set ns) - area s w"
  proof -
    have "areas s (set (base s # ns)) = areas s (set X) \<union> area s w"
      unfolding sp X by auto
    moreover have "area s w \<inter> areas s (set X) = {}"
      using areas_disjoint [of s "us @ [a]" w vs] R(2) unfolding sp X by simp
    moreover have "areas s (set X) = areas s (set (tl X))"
      using arg_cong [OF N, of "\<lambda>X. areas s (set X)"] area_base [OF R(3)] by simp
    ultimately show ?thesis
      using area_base [OF R(3)] by auto
  qed
  ultimately show ?thesis
    unfolding taken_def z using w R(7) by (auto simp: s' areas_def)
qed

lemma take_part:
  assumes r: "ring lo s ns" and a: "a \<in> set (base s # ns)" and w: "w \<in> set ns" and n: "0 < n" "n < hsize s w"
    and q: "q = w + 8 * (hsize s w - n)"
    and s': "s' = s\<lparr>hsize := (hsize s)(w := hsize s w - n, q := n), freep := a\<rparr>"
  shows "taken lo n s ns q s' ns"
proof -
  note R = ringD [OF r]
  have qw: "w < q" "q + 8 * n = w + 8 * hsize s w"
    using n q by auto
  obtain us vs where sp: "base s # ns = us @ w # vs"
    using w split_list [of w "base s # ns"] by auto
  have o: "sorted_wrt (before s) (us @ w # vs)"
    using R(2) unfolding sp .
  then have dj: "area s w \<inter> areas s (set (us @ vs)) = {}"
    by (rule areas_disjoint)
  have qin: "q \<in> area s w"
    using qw n by (auto simp: area_def)
  have blk: "heap_block lo s w"
    using R(7) w by blast
  have sets: "set (base s # ns) = insert w (set (us @ vs))" "w \<notin> set (us @ vs)"
    using ring_distinct [OF o] unfolding sp by auto
  have qn: "q \<notin> set (base s # ns)"
  proof
    assume "q \<in> set (base s # ns)"
    moreover from this have "q \<in> set (us @ vs)"
      using qw(1) unfolding sets(1) by auto
    moreover have "q \<noteq> base s"
      using blk R(6) qw(1) by (simp add: heap_block_def)
    ultimately have "q \<in> set ns" "q \<in> set (us @ vs)"
      by auto
    moreover from this have "q \<in> area s q"
      using R(7) by (auto simp: area_def heap_block_def)
    ultimately have "q \<in> areas s (set (us @ vs))"
      by (auto simp: areas_def)
    then show False
      using dj qin by blast
  qed
  then have z: "hsize s' x = (if x = w then hsize s w - n else hsize s x)" if "x \<in> set (base s # ns)" for x
    using that by (auto simp: s')
  have ring: "ring lo s' ns"
  proof (rule ringI)
    have "before s' x y" if "x \<in> set (base s # ns)" "before s x y" for x y
      using that z by (auto simp: before_def)
    then show "sorted_wrt (before s') (base s' # ns)"
      using sorted_wrt_mono_rel [of "base s # ns" "before s" "before s'"] R(2) by (simp add: s')
    show "\<forall>x \<in> set ns. heap_block lo s' x"
      using R(7) z qw n by (auto simp: heap_block_def s')
  qed (use R a qn in \<open>auto simp: s'\<close>)
  have "areas s (set ns) = area s w \<union> areas s (set (us @ vs))"
    using arg_cong [OF sets(1), of "areas s"] area_base [OF R(3)] by simp
  moreover have "areas s' (set ns) = {w..<q} \<union> areas s (set (us @ vs))"
  proof -
    have "hsize s' x = hsize s x" if "x \<in> set (us @ vs)" for x
      using that z [unfolded sets(1), of x] sets(2) by auto
    then have "areas s' (set (us @ vs)) = areas s (set (us @ vs))"
      by (intro areas_cong) auto
    moreover have "area s' w = {w..<q}" "area s' (base s) = {}"
      using z [of w] z [of "base s"] w q R(3) by (auto simp: area_def)
    ultimately show ?thesis
      using arg_cong [OF sets(1), of "areas s'"] by simp
  qed
  moreover have "area s w = {w..<q} \<union> {q..<q + 8 * n}"
    using area_join [of w q "q + 8 * n"] qw by (simp add: area_def)
  ultimately have "areas s' (set ns) = areas s (set ns) - {q..<q + 8 * n}"
    using dj by auto
  then show ?thesis
    unfolding taken_def using ring blk qw n w by (auto simp: s' heap_block_def area_def areas_def)
qed

lemma take_block_spec:
  assumes r: "ring lo s ns" and a: "a \<in> set (base s # ns)" "hptr s a = w" and w: "w \<in> set ns"
    and n: "0 < n" "n \<le> hsize s w"
  obtains q s' ns' where "take_block n a w s = (q + 8, s')" "taken lo n s ns q s' ns'"
proof (cases "hsize s w = n")
  case True
  obtain us vs where sp: "base s # ns = us @ a # w # vs"
    by (rule ring_pred [OF r a w])
  show ?thesis
    using that [OF _ take_whole [OF r sp refl refl, unfolded True]] True by (simp add: take_block_def)
next
  case False
  then have "n < hsize s w"
    using n(2) by simp
  from take_part [OF r a(1) w n(1) this refl refl] show ?thesis
    using that False by (simp add: take_block_def Let_def)
qed

text \<open>
  One round of the search of \<^verbatim>\<open>malloc\<close> over the nodes \<open>ws\<close> up to \<^verbatim>\<open>freep\<close>: a block that is large enough is taken,
  or there is none and more memory is asked for.
\<close>

definition malloc_more :: "(nat \<Rightarrow> nat \<Rightarrow> bool) \<Rightarrow> nat \<Rightarrow> umem \<Rightarrow> (nat option \<times> umem) option" where
  "malloc_more grant n s =
     (case morecore grant n s of
        None \<Rightarrow> None
      | Some m \<Rightarrow> (case m of None \<Rightarrow> Some (None, s) | Some ps \<Rightarrow>
          malloc_loop grant n (fst ps) (hptr (snd ps) (fst ps)) (snd ps)))"

lemma malloc_scan:
  assumes "linked (hptr s) (prev # ws) (freep s)" "freep s \<notin> set ws"
  shows "(\<exists>a w. a \<in> set (prev # ws) \<and> hptr s a = w \<and> w \<in> set (ws @ [freep s]) \<and> n \<le> hsize s w \<and>
      malloc_loop grant n prev (hptr s prev) s = (case take_block n a w s of (ap, s) \<Rightarrow> Some (Some ap, s))) \<or>
    (\<forall>w \<in> set (ws @ [freep s]). hsize s w < n) \<and>
      malloc_loop grant n prev (hptr s prev) s = malloc_more grant n s"
  using assms
proof (induction ws arbitrary: prev)
  case Nil
  then have e: "hptr s prev = freep s"
    by simp
  show ?case
  proof (cases "n \<le> hsize s (freep s)")
    case True
    then show ?thesis
      using e by (subst malloc_loop.simps) auto
  next
    case False
    then show ?thesis
      using e by (subst (2) malloc_loop.simps) (simp add: malloc_more_def)
  qed
next
  case (Cons w ws)
  then have e: "hptr s prev = w" "w \<noteq> freep s"
    by auto
  show ?case
  proof (cases "n \<le> hsize s w")
    case True
    then show ?thesis
      using e(1) by (subst malloc_loop.simps) auto
  next
    case False
    then have "malloc_loop grant n prev (hptr s prev) s = malloc_loop grant n w (hptr s w) s"
      using e by (subst malloc_loop.simps) simp
    then show ?thesis
      using Cons.IH [of w] Cons.prems False by auto
  qed
qed

text \<open>The search starts after \<^verbatim>\<open>freep\<close> and goes once around the ring.\<close>

lemma ring_rotate:
  assumes r: "ring lo s ns"
  obtains ws where "linked (hptr s) (freep s # ws) (freep s)" "freep s \<notin> set ws"
    "set (ws @ [freep s]) = set (base s # ns)"
proof -
  note R = ringD [OF r]
  obtain as bs where sp: "base s # ns = as @ freep s # bs"
    using split_list [OF R(4)] by blast
  have "hd (as @ [freep s]) = base s"
    using sp by (cases as) auto
  then have "linked (hptr s) (freep s # bs @ as) (freep s)"
    using R(1) unfolding sp by (cases bs) (auto simp: hd_append)
  moreover have "freep s \<notin> set (bs @ as)"
    using ring_distinct [OF R(2)] unfolding sp by auto
  moreover have "set ((bs @ as) @ [freep s]) = set (base s # ns)"
    unfolding sp by auto
  ultimately show ?thesis
    by (rule that)
qed

lemma malloc_round:
  assumes r: "ring lo s ns" and n: "0 < n"
  obtains q s' ns' where "malloc_loop grant n (freep s) (hptr s (freep s)) s = Some (Some (q + 8), s')"
      "taken lo n s ns q s' ns'"
    | "\<forall>w \<in> set (base s # ns). hsize s w < n"
      "malloc_loop grant n (freep s) (hptr s (freep s)) s = malloc_more grant n s"
proof -
  obtain ws where ws: "linked (hptr s) (freep s # ws) (freep s)" "freep s \<notin> set ws"
    "set (ws @ [freep s]) = set (base s # ns)"
    by (rule ring_rotate [OF r])
  from malloc_scan [OF ws(1,2), of n grant] show ?thesis
  proof (elim disjE exE conjE)
    fix a w
    assume a: "a \<in> set (freep s # ws)" "hptr s a = w" "w \<in> set (ws @ [freep s])" "n \<le> hsize s w"
      and e: "malloc_loop grant n (freep s) (hptr s (freep s)) s = (case take_block n a w s of (ap, s) \<Rightarrow> Some (Some ap, s))"
    have "a \<in> set (base s # ns)" "w \<in> set (base s # ns)"
      using a(1,3) ws(3) by auto
    moreover have "w \<noteq> base s"
      using a(4) n ringD(3) [OF r] by auto
    ultimately obtain q s' ns' where "take_block n a w s = (q + 8, s')" "taken lo n s ns q s' ns'"
      using take_block_spec [OF r _ a(2) _ n a(4)] by auto
    with e that(1) show ?thesis by simp
  next
    assume "\<forall>w \<in> set (ws @ [freep s]). hsize s w < n"
      "malloc_loop grant n (freep s) (hptr s (freep s)) s = malloc_more grant n s"
    then show ?thesis
      using that(2) unfolding ws(3) by blast
  qed
qed

text \<open>More memory: the list is the old one with a block of at least \<open>n\<close> units in the new memory.\<close>

definition grant_ok :: "(nat \<Rightarrow> nat \<Rightarrow> bool) \<Rightarrow> bool" where
  "grant_ok grant \<longleftrightarrow> (\<forall>b n. grant b n \<longrightarrow> n < 2 ^ 31 \<longrightarrow> b + n < 2 ^ 31)"

definition grown :: "nat \<Rightarrow> umem \<Rightarrow> nat list \<Rightarrow> umem \<Rightarrow> nat list \<Rightarrow> bool" where
  "grown lo s ns s' ns' \<longleftrightarrow>
     ring lo s' ns' \<and> areas s' (set ns') = areas s (set ns) \<union> {brk s..<brk s'} \<and>
     (\<forall>a < brk s. a \<notin> set (base s # ns) \<longrightarrow> hsize s' a = hsize s a) \<and>
     brk s \<le> brk s' \<and> brk s' \<le> 2 ^ 31 \<and> base s' = base s"

lemma ring_frame:
  assumes r: "ring lo s ns" and z: "\<And>x. x \<in> set (base s # ns) \<Longrightarrow> hsize s' x = hsize s x"
    and s': "\<And>x. x \<in> set (base s # ns) \<Longrightarrow> hptr s' x = hptr s x" "base s' = base s" "freep s' = freep s" "brk s \<le> brk s'"
  shows "ring lo s' ns"
proof (rule ringI)
  note R = ringD [OF r]
  have "linked (hptr s') xs y = linked (hptr s) xs y" if "set xs \<subseteq> set (base s # ns)" for xs y
    using that s'(1) by (induction xs) auto
  from this [of "base s # ns"] show "linked (hptr s') (base s' # ns) (base s')"
    using R(1) s'(2) by simp
  have "before s' x y" if "x \<in> set (base s # ns)" "before s x y" for x y
    using that z by (simp add: before_def)
  then show "sorted_wrt (before s') (base s' # ns)"
    using sorted_wrt_mono_rel [of "base s # ns" "before s" "before s'"] R(2) s'(2) by simp
  show "\<forall>x \<in> set ns. heap_block lo s' x"
    using R(7) z s'(4) by (fastforce simp: heap_block_def)
qed (use ringD [OF r] z s' in auto)

lemma morecore_spec:
  assumes r: "ring lo s ns" and lo: "lo \<le> brk s" and g: "grant_ok grant" and n: "8 * n < 2 ^ 31"
  obtains "morecore grant n s = Some None"
    | s' ns' where "morecore grant n s = Some (Some (freep s', s'))" "grown lo s ns s' ns'"
      "\<exists>x \<in> set ns'. n \<le> hsize s' x"
proof -
  note R = ringD [OF r]
  define nu where "nu = (if n < 4096 then 4096 else n)"
  have nu: "n \<le> nu" "0 < nu" "8 * nu < 2 ^ 31" "(nu * 8) mod 2 ^ 32 = 8 * nu"
    using n by (auto simp: nu_def)
  show ?thesis
  proof (cases "grant (brk s) (8 * nu)")
    case False
    then show ?thesis
      using that(1) nu(4) by (simp add: morecore_def sbrk_def nu_def [symmetric] del: power_numeral)
  next
    case True
    then have b: "brk s + 8 * nu < 2 ^ 31"
      using g nu(3) unfolding grant_ok_def by blast
    define s1 where "s1 = s\<lparr>brk := brk s + 8 * nu, hsize := (hsize s)(brk s := nu)\<rparr>"
    have m: "morecore grant n s = map_option (\<lambda>s. Some (freep s, s)) (ufree (brk s + 8) s1)"
      using True nu(4) b by (simp add: morecore_def sbrk_def nu_def [symmetric] s1_def mult.commute)
    have out: "x < brk s" if "x \<in> set (base s # ns)" for x
      using that lo R(6,7) by (auto simp: heap_block_def)
    then have z: "hsize s1 x = hsize s x" if "x \<in> set (base s # ns)" for x
      using that by (fastforce simp: s1_def)
    have a: "areas s1 (set ns) = areas s (set ns)"
      using z by (intro areas_cong) auto
    have r1: "ring lo s1 ns"
      by (rule ring_frame [OF r z]) (simp_all add: s1_def)
    have blk: "heap_block lo s1 (brk s)" "area s1 (brk s) = {brk s..<brk s1}"
      using lo nu(2) by (auto simp: heap_block_def area_def s1_def)
    have "areas s (set ns) \<subseteq> {..<brk s}"
      using R(7) by (fastforce simp: areas_def area_def heap_block_def)
    then have dj: "area s1 (brk s) \<inter> areas s1 (set ns) = {}"
      unfolding a blk by auto
    obtain s' ns' where f: "ufree (brk s + 8) s1 = Some s'" "freed lo (brk s) s1 ns s' ns'"
      by (rule ufree_spec [OF r1 blk(1) dj])
    have "grown lo s ns s' ns'"
      using f(2) a blk(2) b unfolding freed_def grown_def by (auto simp: s1_def)
    moreover have "\<exists>x \<in> set ns'. n \<le> hsize s' x"
      using f(2) nu(1) unfolding freed_def by (auto simp: s1_def intro: order_trans)
    ultimately show ?thesis
      using that(2) m f(1) by simp
  qed
qed

lemma grown_refl: "ring lo s ns \<Longrightarrow> brk s \<le> 2 ^ 31 \<Longrightarrow> grown lo s ns s ns"
  by (simp add: grown_def)

lemma malloc_loop_spec:
  assumes r: "ring lo s ns" and lo: "lo \<le> brk s" "brk s \<le> 2 ^ 31" and g: "grant_ok grant"
    and n: "0 < n" "8 * n < 2 ^ 31"
  obtains "malloc_loop grant n (freep s) (hptr s (freep s)) s = Some (None, s)"
    | q s1 ns1 s' ns' where
      "malloc_loop grant n (freep s) (hptr s (freep s)) s = Some (Some (q + 8), s')"
      "grown lo s ns s1 ns1" "taken lo n s1 ns1 q s' ns'"
proof (rule malloc_round [OF r n(1), of grant])
  fix q s' ns'
  assume "malloc_loop grant n (freep s) (hptr s (freep s)) s = Some (Some (q + 8), s')" "taken lo n s ns q s' ns'"
  then show ?thesis
    using that(2) grown_refl [OF r lo(2)] by blast
next
  assume m: "malloc_loop grant n (freep s) (hptr s (freep s)) s = malloc_more grant n s"
  show ?thesis
  proof (rule morecore_spec [OF r lo(1) g n(2)])
    assume "morecore grant n s = Some None"
    then show ?thesis
      using that(1) m by (simp add: malloc_more_def)
  next
    fix s1 ns1
    assume c: "morecore grant n s = Some (Some (freep s1, s1))" "grown lo s ns s1 ns1" "\<exists>x \<in> set ns1. n \<le> hsize s1 x"
    have r1: "ring lo s1 ns1"
      using c(2) by (simp add: grown_def)
    show ?thesis
    proof (rule malloc_round [OF r1 n(1), of grant])
      fix q s' ns'
      assume "malloc_loop grant n (freep s1) (hptr s1 (freep s1)) s1 = Some (Some (q + 8), s')" "taken lo n s1 ns1 q s' ns'"
      then show ?thesis
        using that(2) m c(1,2) by (simp add: malloc_more_def)
    qed (use c(3) in fastforce)
  qed
qed


section \<open>The heap of a program\<close>

text \<open>
  The blocks \<open>L\<close> a program has, by the addresses of their headers: together with the free blocks they
  fill the heap exactly, and no two blocks overlap.
\<close>

definition heap_inv :: "nat \<Rightarrow> umem \<Rightarrow> nat set \<Rightarrow> nat list \<Rightarrow> bool" where
  "heap_inv lo s L ns \<longleftrightarrow>
     ring lo s ns \<and> lo \<le> brk s \<and> brk s \<le> 2 ^ 31 \<and> (\<forall>x \<in> L. heap_block lo s x) \<and>
     (\<forall>x \<in> L. \<forall>y \<in> L. x \<noteq> y \<longrightarrow> area s x \<inter> area s y = {}) \<and>
     areas s L \<inter> areas s (set ns) = {} \<and> areas s L \<union> areas s (set ns) = {lo..<brk s}"

text \<open>A program before its first request.\<close>

definition heap_fresh :: "nat \<Rightarrow> umem \<Rightarrow> bool" where
  "heap_fresh lo s \<longleftrightarrow> freep s = 0 \<and> 0 < base s \<and> base s < lo \<and> brk s = lo \<and> lo \<le> 2 ^ 31"

text \<open>The program calls \<^verbatim>\<open>malloc\<close> and \<^verbatim>\<open>free\<close> and writes what it likes into its blocks, after their headers.\<close>

inductive heap_run :: "(nat \<Rightarrow> nat \<Rightarrow> bool) \<Rightarrow> nat \<Rightarrow> umem \<Rightarrow> nat set \<Rightarrow> bool" for grant lo where
  start: "heap_fresh lo s \<Longrightarrow> heap_run grant lo s {}"
| alloc: "heap_run grant lo s L \<Longrightarrow> nbytes < 2 ^ 30 \<Longrightarrow> malloc grant nbytes s = Some (Some ap, s') \<Longrightarrow>
    heap_run grant lo s' (insert (ap - 8) L)"
| fail: "heap_run grant lo s L \<Longrightarrow> nbytes < 2 ^ 30 \<Longrightarrow> malloc grant nbytes s = Some (None, s') \<Longrightarrow> heap_run grant lo s' L"
| free: "heap_run grant lo s L \<Longrightarrow> b \<in> L \<Longrightarrow> ufree (b + 8) s = Some s' \<Longrightarrow> heap_run grant lo s' (L - {b})"
| store: "heap_run grant lo s L \<Longrightarrow> b \<in> L \<Longrightarrow> b < a \<Longrightarrow> a < b + 8 * hsize s b \<Longrightarrow>
    heap_run grant lo (s\<lparr>hptr := (hptr s)(a := x), hsize := (hsize s)(a := y)\<rparr>) L"

lemma heap_invD:
  assumes "heap_inv lo s L ns"
  shows "ring lo s ns" "lo \<le> brk s" "brk s \<le> 2 ^ 31" "\<forall>x \<in> L. heap_block lo s x"
    "\<forall>x \<in> L. \<forall>y \<in> L. x \<noteq> y \<longrightarrow> area s x \<inter> area s y = {}"
    "areas s L \<inter> areas s (set ns) = {}" "areas s L \<union> areas s (set ns) = {lo..<brk s}"
  using assms unfolding heap_inv_def by blast+

text \<open>The headers of the program's blocks are not headers of the free list.\<close>

lemma block_in_area: "heap_block lo s x \<Longrightarrow> x \<in> area s x"
  by (simp add: heap_block_def area_def)

lemma live_not_free:
  assumes r: "ring lo s ns" and x: "lo \<le> x" "x \<notin> areas s (set ns)"
  shows "x \<notin> set (base s # ns)"
  using ringD(6,7) [OF r] x block_in_area by (fastforce simp: areas_def)

lemma heap_inv_live:
  assumes "heap_inv lo s L ns" "x \<in> L"
  shows "x \<notin> set (base s # ns)" "x < brk s" "lo \<le> x" "x \<in> areas s L"
proof -
  note H = heap_invD [OF assms(1)]
  have b: "heap_block lo s x"
    using H(4) assms(2) by blast
  then show "x < brk s" "lo \<le> x"
    by (auto simp: heap_block_def)
  show a: "x \<in> areas s L"
    using block_in_area [OF b] assms(2) by (auto simp: areas_def)
  show "x \<notin> set (base s # ns)"
    using live_not_free [OF H(1)] a H(6) \<open>lo \<le> x\<close> by blast
qed

lemma heap_inv_taken:
  assumes h: "heap_inv lo s L ns" and g: "grown lo s ns s1 ns1" and t: "taken lo n s1 ns1 q s' ns'"
  shows "heap_inv lo s' (insert q L) ns'" "q \<notin> L" "\<forall>x \<in> L. hsize s' x = hsize s x"
proof -
  note H = heap_invD [OF h] and X = heap_inv_live [OF h]
  note G = g [unfolded grown_def] and T = t [unfolded taken_def]
  have q: "q \<in> area s' q" "area s' q \<subseteq> areas s1 (set ns1)" "heap_block lo s' q"
    using T block_in_area by blast+
  have "areas s L \<subseteq> {lo..<brk s}"
    using H(7) by blast
  then have dj: "areas s L \<inter> areas s1 (set ns1) = {}"
    using G H(6) by auto
  then show ql: "q \<notin> L"
    using q X(4) by blast
  have z: "hsize s' x = hsize s x" if "x \<in> L" for x
  proof -
    have "hsize s1 x = hsize s x"
      using G X(1,2) [OF that] by blast
    moreover have "x \<notin> set (base s1 # ns1)"
      using live_not_free [of lo s1 ns1 x] G X(3,4) [OF that] dj by blast
    moreover have "x \<noteq> q"
      using ql that by blast
    ultimately show ?thesis
      using T by simp
  qed
  then show "\<forall>x \<in> L. hsize s' x = hsize s x"
    by blast
  have a: "area s' x = area s x" if "x \<in> L" for x
    using z [OF that] by (simp add: area_def)
  then have al: "areas s' L = areas s L"
    by (auto simp: areas_def)
  have "areas s' (insert q L) \<inter> areas s' (set ns') = {}"
    using T dj al by auto
  moreover have "areas s' (insert q L) \<union> areas s' (set ns') = {lo..<brk s'}"
  proof -
    have "areas s' (insert q L) \<union> areas s' (set ns') = areas s L \<union> areas s1 (set ns1)"
      using T al q(2) by auto
    also have "\<dots> = {lo..<brk s} \<union> {brk s..<brk s1}"
      using G unfolding H(7) [symmetric] by blast
    also have "\<dots> = {lo..<brk s'}"
      using area_join [of lo "brk s" "brk s1"] G T H(2) by simp
    finally show ?thesis .
  qed
  moreover have "\<forall>x \<in> insert q L. heap_block lo s' x"
    using q(3) H(4) z T G by (auto simp: heap_block_def)
  moreover have "\<forall>x \<in> insert q L. \<forall>y \<in> insert q L. x \<noteq> y \<longrightarrow> area s' x \<inter> area s' y = {}"
  proof -
    have "area s' x \<inter> area s' q = {}" if "x \<in> L" for x
      using dj q(2) a [OF that] that by (auto simp: areas_def)
    then show ?thesis
      using H(5) a by (auto simp: Int_commute)
  qed
  ultimately show "heap_inv lo s' (insert q L) ns'"
    unfolding heap_inv_def using T G H(2) by auto
qed

lemma heap_inv_freed:
  assumes h: "heap_inv lo s L ns" and b: "b \<in> L" and f: "freed lo b s ns s' ns'"
  shows "heap_inv lo s' (L - {b}) ns'"
proof -
  note H = heap_invD [OF h] and F = f [unfolded freed_def]
  have z: "hsize s' x = hsize s x" if "x \<in> L - {b}" for x
    using F heap_inv_live(1) [OF h] that by blast
  then have a: "area s' x = area s x" if "x \<in> L - {b}" for x
    using that by (simp add: area_def)
  have al: "areas s' (L - {b}) = areas s (L - {b})"
    using a by (auto simp: areas_def)
  have l: "areas s L = area s b \<union> areas s (L - {b})" "area s b \<inter> areas s (L - {b}) = {}"
    using b H(5) by (auto simp: areas_def)
  show ?thesis
    unfolding heap_inv_def
  proof (intro conjI)
    show "areas s' (L - {b}) \<inter> areas s' (set ns') = {}"
      using F H(6) l al by auto
    show "areas s' (L - {b}) \<union> areas s' (set ns') = {lo..<brk s'}"
      using F H(7) l(1) al by auto
    show "\<forall>x \<in> L - {b}. heap_block lo s' x"
      using H(4) z F by (auto simp: heap_block_def)
    show "\<forall>x \<in> L - {b}. \<forall>y \<in> L - {b}. x \<noteq> y \<longrightarrow> area s' x \<inter> area s' y = {}"
      using H(5) a by auto
  qed (use F H(2,3) in auto)
qed

lemma heap_inv_store:
  assumes h: "heap_inv lo s L ns" and b: "b \<in> L" "b < a" "a < b + 8 * hsize s b"
    and s': "s' = s\<lparr>hptr := (hptr s)(a := x), hsize := (hsize s)(a := y)\<rparr>"
  shows "heap_inv lo s' L ns"
proof -
  note H = heap_invD [OF h] and X = heap_inv_live [OF h]
  have a: "a \<in> area s b"
    using b by (simp add: area_def)
  then have "a \<in> areas s L"
    using b(1) by (auto simp: areas_def)
  then have n: "a \<notin> set (base s # ns)"
    using live_not_free [OF H(1), of a] H(6) X(3) [OF b(1)] b(2) by (meson disjoint_iff less_imp_le order_trans)
  have l: "a \<notin> L"
  proof
    assume al: "a \<in> L"
    then have "a \<noteq> b \<longrightarrow> area s a \<inter> area s b = {}" "heap_block lo s a"
      using H(4,5) b(1) by blast+
    with block_in_area [of lo s a] b(2) a show False
      by auto
  qed
  have r: "ring lo s' ns"
    by (rule ring_frame [OF H(1)]) (use n in \<open>auto simp: s'\<close>)
  have z: "area s' w = area s w" "heap_block lo s' w = heap_block lo s w" if "w \<in> L \<union> set ns" for w
    using that n l by (auto simp: s' area_def heap_block_def)
  then have "areas s' L = areas s L" "areas s' (set ns) = areas s (set ns)"
    by (auto simp: areas_def)
  then show ?thesis
    using H r z unfolding heap_inv_def by (simp add: s')
qed

lemma nunits_small:
  assumes "nbytes < 2 ^ 30"
  shows "nunits nbytes = (nbytes + 7) div 8 + 1" "0 < nunits nbytes" "8 * nunits nbytes < 2 ^ 31"
    "nbytes \<le> 8 * (nunits nbytes - 1)"
proof -
  have "(nbytes + 8 - 1) mod 2 ^ 32 = nbytes + 7"
    using assms by simp
  then show e: "nunits nbytes = (nbytes + 7) div 8 + 1"
    by (simp add: nunits_def)
  show "0 < nunits nbytes" "8 * nunits nbytes < 2 ^ 31" "nbytes \<le> 8 * (nunits nbytes - 1)"
    unfolding e using assms by simp_all
qed

text \<open>The size of a request near \<open>2 ^ 32\<close> wraps: \<^verbatim>\<open>malloc(-1)\<close> asks for a header and no bytes.\<close>

lemma huge_request_wraps: "nunits (2 ^ 32 - 1) = 1"
  by (simp add: nunits_def)

text \<open>A request made in a good heap returns: a null pointer, or a new block large enough.\<close>

lemma malloc_inv:
  assumes h: "heap_inv lo s L ns" and g: "grant_ok grant" and n: "nbytes < 2 ^ 30"
  obtains "malloc grant nbytes s = Some (None, s)"
    | q s' ns' where "malloc grant nbytes s = Some (Some (q + 8), s')" "heap_inv lo s' (insert q L) ns'"
      "q \<notin> L" "hsize s' q = nunits nbytes" "\<forall>x \<in> L. hsize s' x = hsize s x"
proof -
  note H = heap_invD [OF h] and N = nunits_small [OF n]
  have "freep s \<noteq> 0"
    using ringD(4-7) [OF H(1)] by (auto simp: heap_block_def)
  then have m: "malloc grant nbytes s = malloc_loop grant (nunits nbytes) (freep s) (hptr s (freep s)) s"
    by (simp add: malloc_def)
  show ?thesis
  proof (rule malloc_loop_spec [OF H(1-3) g N(2,3)])
    fix q s1 ns1 s' ns'
    assume "malloc_loop grant (nunits nbytes) (freep s) (hptr s (freep s)) s = Some (Some (q + 8), s')"
      and t: "grown lo s ns s1 ns1" "taken lo (nunits nbytes) s1 ns1 q s' ns'"
    moreover have "hsize s' q = nunits nbytes"
      using t(2) by (simp add: taken_def)
    ultimately show ?thesis
      using that(2) m heap_inv_taken [OF h t] by simp
  qed (use that(1) m in simp)
qed

lemma heap_fresh_inv:
  assumes "heap_fresh lo s"
  defines "s0 \<equiv> s\<lparr>freep := base s, hptr := (hptr s)(base s := base s), hsize := (hsize s)(base s := 0)\<rparr>"
  shows "heap_inv lo s0 {} []" "malloc grant nbytes s = malloc grant nbytes s0"
  using assms by (auto simp: heap_inv_def heap_fresh_def ring_def malloc_def Let_def)

lemma heap_run_inv:
  assumes "heap_run grant lo s L" "grant_ok grant"
  shows "heap_fresh lo s \<and> L = {} \<or> (\<exists>ns. heap_inv lo s L ns)"
  using assms(1)
proof induction
  case (alloc s L nbytes ap s')
  have "\<exists>s0 ns. heap_inv lo s0 L ns \<and> malloc grant nbytes s = malloc grant nbytes s0"
    using alloc.IH heap_fresh_inv by metis
  then obtain s0 ns where s0: "heap_inv lo s0 L ns" "malloc grant nbytes s0 = Some (Some ap, s')"
    using alloc.hyps(3) by auto
  show ?case
    by (rule malloc_inv [OF s0(1) assms(2) alloc.hyps(2)]) (use s0(2) in auto)
next
  case (fail s L nbytes s')
  have "\<exists>s0 ns. heap_inv lo s0 L ns \<and> malloc grant nbytes s = malloc grant nbytes s0"
    using fail.IH heap_fresh_inv by metis
  then obtain s0 ns where s0: "heap_inv lo s0 L ns" "malloc grant nbytes s0 = Some (None, s')"
    using fail.hyps(3) by auto
  show ?case
    by (rule malloc_inv [OF s0(1) assms(2) fail.hyps(2)]) (use s0 in auto)
next
  case (free s L b s')
  then obtain ns where h: "heap_inv lo s L ns"
    by blast
  note H = heap_invD [OF h]
  have "area s b \<inter> areas s (set ns) = {}"
    using H(6) free.hyps(2) by (auto simp: areas_def)
  then obtain ns' where "freed lo b s ns s' ns'"
    using ufree_spec [OF H(1)] H(4) free.hyps(2,3) by (metis option.inject)
  then show ?case
    using heap_inv_freed [OF h free.hyps(2)] by blast
next
  case (store s L b a x y)
  then obtain ns where h: "heap_inv lo s L ns"
    by blast
  then show ?case
    using heap_inv_store store.hyps by blast
qed simp

text \<open>
  \<^bold>\<open>C9.\<close> Whatever a program has done with \<^verbatim>\<open>malloc\<close>, \<^verbatim>\<open>free\<close> and its blocks before, a request for less than
  \<open>2 ^ 30\<close> bytes returns. When the result is not a null pointer, the bytes it gives lie in the heap and
  overlap no block, header included, that the program already has.
\<close>

theorem malloc_gives_new_memory:
  assumes run: "heap_run grant lo s L" and g: "grant_ok grant" and n: "nbytes < 2 ^ 30"
  shows "\<exists>r s'. malloc grant nbytes s = Some (r, s') \<and>
    (\<forall>ap. r = Some ap \<longrightarrow> lo + 8 \<le> ap \<and> ap + nbytes \<le> brk s' \<and>
       (\<forall>b \<in> L. {ap..<ap + nbytes} \<inter> {b..<b + 8 * hsize s b} = {}))"
proof -
  obtain s0 ns where s0: "heap_inv lo s0 L ns" "malloc grant nbytes s = malloc grant nbytes s0"
    and z: "\<forall>b \<in> L. hsize s0 b = hsize s b"
    using heap_run_inv [OF run g] heap_fresh_inv(1) [of lo s] heap_fresh_inv(2) [of lo s grant nbytes]
    by (elim disjE conjE exE) auto
  show ?thesis
  proof (rule malloc_inv [OF s0(1) g n])
    assume "malloc grant nbytes s0 = Some (None, s0)"
    then show ?thesis
      using s0(2) by simp
  next
    fix q s' ns'
    assume m: "malloc grant nbytes s0 = Some (Some (q + 8), s')" and h: "heap_inv lo s' (insert q L) ns'"
      and q: "q \<notin> L" "hsize s' q = nunits nbytes" and z': "\<forall>x \<in> L. hsize s' x = hsize s0 x"
    note H = heap_invD [OF h]
    have "heap_block lo s' q"
      using H(4) by blast
    moreover have "8 + nbytes \<le> 8 * nunits nbytes"
      using nunits_small(2,4) [OF n] by simp
    ultimately have b: "lo + 8 \<le> q + 8" "q + 8 + nbytes \<le> brk s'" "{q + 8..<q + 8 + nbytes} \<subseteq> area s' q"
      using q(2) by (auto simp: heap_block_def area_def)
    have "{q + 8..<q + 8 + nbytes} \<inter> {b..<b + 8 * hsize s b} = {}" if "b \<in> L" for b
    proof -
      have "area s' q \<inter> area s' b = {}"
        using H(5) [rule_format, of q b] q(1) that by auto
      with b(3) z z' that show ?thesis
        by (auto simp: area_def)
    qed
    with m s0(2) b show ?thesis
      by simp
  qed
qed

text \<open>The first request of a program, computed.\<close>

definition heap0 :: umem where
  "heap0 = \<lparr>hptr = \<lambda>_. 0, hsize = \<lambda>_. 0, freep = 0, base = 4096, brk = 8192\<rparr>"

definition heap1 :: umem where
  "heap1 = \<lparr>hptr = (\<lambda>_. 0)(4096 := 8192, 8192 := 4096),
     hsize = (\<lambda>_. 0)(8192 := 4082, 40848 := 14), freep = 4096, base = 4096, brk = 40960\<rparr>"

definition grant0 :: "nat \<Rightarrow> nat \<Rightarrow> bool" where
  "grant0 b n \<longleftrightarrow> b + n < 2 ^ 31"

lemma first_malloc: "malloc grant0 100 heap0 = Some (Some 40856, heap1)"
  by (simp add: heap0_def heap1_def grant0_def malloc_def nunits_def malloc_loop.simps morecore_def
      sbrk_def ufree_def free_find.simps join_upper_def join_lower_def take_block_def)
    (auto simp: fun_eq_iff)

lemma grant0_ok: "grant_ok grant0"
  by (simp add: grant_ok_def grant0_def)

lemma first_run: "heap_run grant0 8192 heap1 {40848}"
proof -
  have "heap_run grant0 8192 heap0 {}"
    by (rule heap_run.start) (simp add: heap_fresh_def heap0_def)
  from heap_run.alloc [OF this _ first_malloc] show ?thesis
    by simp
qed

theorem malloc_gives_new_memory_witness:
  "heap_run grant0 8192 heap1 {40848} \<and>
   (\<exists>r s'. malloc grant0 200 heap1 = Some (r, s') \<and>
     (\<forall>ap. r = Some ap \<longrightarrow> 8200 \<le> ap \<and> ap + 200 \<le> brk s' \<and> {ap..<ap + 200} \<inter> {40848..<40960} = {}))"
  using malloc_gives_new_memory [OF first_run grant0_ok, of 200] first_run by (simp add: heap1_def)

text \<open>
  \<^bold>\<open>C8.\<close> The allocator neither loses nor shares memory: after any sequence of requests, frees and writes
  into its own blocks, a program either has made no request yet, or its blocks and the blocks of
  the ordered free list that starts at \<^verbatim>\<open>base\<close> fill the heap, no byte of which is in two of them; and each
  block of the program can be freed.
\<close>

theorem heap_is_partitioned:
  assumes run: "heap_run grant lo s L" and g: "grant_ok grant"
  shows "((L = {} \<and> brk s = lo) \<or>
      (\<exists>ns. ring lo s ns \<and> areas s L \<union> areas s (set ns) = {lo..<brk s} \<and> areas s L \<inter> areas s (set ns) = {} \<and>
        (\<forall>x \<in> L. \<forall>y \<in> L. x \<noteq> y \<longrightarrow> area s x \<inter> area s y = {}))) \<and>
    (\<forall>b \<in> L. \<exists>s'. ufree (b + 8) s = Some s')"
  using heap_run_inv [OF run g]
proof (elim disjE conjE exE)
  assume "heap_fresh lo s" "L = {}"
  then show ?thesis
    by (simp add: heap_fresh_def)
next
  fix ns
  assume h: "heap_inv lo s L ns"
  note H = heap_invD [OF h]
  have "\<exists>s'. ufree (b + 8) s = Some s'" if "b \<in> L" for b
  proof -
    have "heap_block lo s b" "area s b \<inter> areas s (set ns) = {}"
      using H(4,6) that by (auto simp: areas_def)
    then show ?thesis
      using ufree_spec [OF H(1)] by metis
  qed
  with H show ?thesis
    by (intro conjI disjI2 exI [of _ ns]) blast+
qed

theorem heap_is_partitioned_witness:
  "heap_run grant0 8192 heap1 {40848} \<and>
   (\<exists>ns. ring 8192 heap1 ns \<and> {40848..<40960} \<union> areas heap1 (set ns) = {8192..<40960} \<and>
     {40848..<40960} \<inter> areas heap1 (set ns) = {}) \<and> (\<exists>s'. ufree 40856 heap1 = Some s')"
  using heap_is_partitioned [OF first_run grant0_ok] first_run by (auto simp: heap1_def area_def)

end
