(* ===== verification/Xv6_Mkfs.thy ===== *)
theory Xv6_Mkfs
  imports Xv6_Fs "HOL-Library.Monad_Syntax"
begin

text \<open>
  The program that builds the first file system image on the host (\<^verbatim>\<open>mkfs.c\<close>): superblock, log
  area, inode blocks, bit map, and one regular file per argument, all named in the root
  directory. The image is a file of sectors; the host's \<^verbatim>\<open>lseek\<close>, \<^verbatim>\<open>read\<close> and \<^verbatim>\<open>write\<close> behave as on
  an ordinary file, so a read past the last sector comes back short and \<^verbatim>\<open>rsect\<close> exits. \<open>None\<close>
  is the program giving up: \<^verbatim>\<open>exit(1)\<close> or a failed \<^verbatim>\<open>assert\<close>. The theorem at the bottom is the contract
  between this program and the kernel: the image meets the layout invariant that the file system
  theories assume, and the files read back.
\<close>

section \<open>The image file\<close>

record image =
  img :: "uint \<Rightarrow> block"
  sectors :: nat
  freeinode :: uint
  freeblock :: uint

abbreviation "FS_SIZE \<equiv> (1000::nat)"
abbreviation "NINODES \<equiv> (200::nat)"
abbreviation "nbitmap \<equiv> FS_SIZE div (BSIZE * 8) + 1"
abbreviation "ninodeblocks \<equiv> NINODES div 8 + 1"
abbreviation "nlog \<equiv> (30::nat)"
abbreviation "nmeta \<equiv> 2 + nlog + ninodeblocks + nbitmap"

definition mkfs_sb :: superblock where
  "mkfs_sb = \<lparr>sb_size = of_nat FS_SIZE, sb_nblocks = of_nat (FS_SIZE - nmeta), sb_ninodes = of_nat NINODES, sb_nlog = of_nat nlog,
     sb_logstart = 2, sb_inodestart = of_nat (2 + nlog), sb_bmapstart = of_nat (2 + nlog + ninodeblocks)\<rparr>"

text \<open>The sector that \<^verbatim>\<open>lseek(fsfd, sec * BSIZE, 0)\<close> reaches: the product is 32 bits wide.\<close>

definition sector :: "uint \<Rightarrow> uint" where
  "sector sec = sec * of_nat BSIZE div of_nat BSIZE"

definition wsect :: "uint \<Rightarrow> block \<Rightarrow> image \<Rightarrow> image" where
  "wsect sec buf s = s\<lparr>img := (img s)(sector sec := buf), sectors := max (sectors s) (unat (sector sec) + 1)\<rparr>"

definition rsect :: "uint \<Rightarrow> image \<Rightarrow> block option" where
  "rsect sec s = (if unat (sector sec) < sectors s then Some (img s (sector sec)) else None)"

definition winode :: "uint \<Rightarrow> dinode \<Rightarrow> image \<Rightarrow> image option" where
  "winode inum ip s = do {
     buf \<leftarrow> rsect (IBLOCK inum mkfs_sb) s;
     Some (wsect (IBLOCK inum mkfs_sb) (put_dinode (unat (inum mod IPB)) ip buf) s)}"

definition rinode :: "uint \<Rightarrow> image \<Rightarrow> dinode option" where
  "rinode inum s = do {
     buf \<leftarrow> rsect (IBLOCK inum mkfs_sb) s;
     Some (get_dinode buf (unat (inum mod IPB)))}"

definition mk_ialloc :: "ushort \<Rightarrow> image \<Rightarrow> (uint \<times> image) option" where
  "mk_ialloc ty s = do {
     let inum = freeinode s;
     s' \<leftarrow> winode inum \<lparr>d_type = ty, d_major = 0, d_minor = 0, d_nlink = 1, d_size = 0, d_addrs = (\<lambda>_. 0)\<rparr> (s\<lparr>freeinode := inum + 1\<rparr>);
     Some (inum, s')}"

definition mk_balloc :: "int \<Rightarrow> image \<Rightarrow> image option" where
  "mk_balloc n s =
     (if n < int (BSIZE * 8) then Some (wsect (sb_bmapstart mkfs_sb) (fold bm_set [0..<nat n] (\<lambda>_. 0)) s) else None)"

text \<open>
  The disk block of block \<open>fbn\<close> of the file, with the pointer to it and the indirect block allocated
  on the way (the two branches of the loop of \<^verbatim>\<open>iappend\<close>).
\<close>

definition iappend_block :: "nat \<Rightarrow> dinode \<Rightarrow> image \<Rightarrow> (uint \<times> dinode \<times> image) option" where
  "iappend_block fbn din s =
     (if fbn < NDIRECT then
        let (din, s) = (if d_addrs din fbn = 0 then (din\<lparr>d_addrs := (d_addrs din)(fbn := freeblock s)\<rparr>, s\<lparr>freeblock := freeblock s + 1\<rparr>) else (din, s))
        in Some (d_addrs din fbn, din, s)
      else
        let (din, s) = (if d_addrs din NDIRECT = 0 then (din\<lparr>d_addrs := (d_addrs din)(NDIRECT := freeblock s)\<rparr>, s\<lparr>freeblock := freeblock s + 1\<rparr>) else (din, s))
        in do {
          indirect \<leftarrow> rsect (d_addrs din NDIRECT) s;
          let k = 4 * (fbn - NDIRECT);
          if load32 indirect k = 0 then
            Some (freeblock s, din, wsect (d_addrs din NDIRECT) (store32 k (freeblock s) indirect) (s\<lparr>freeblock := freeblock s + 1\<rparr>))
          else Some (load32 indirect k, din, s)})"

function iappend_loop :: "nat \<Rightarrow> uchar list \<Rightarrow> dinode \<Rightarrow> image \<Rightarrow> (nat \<times> dinode \<times> image) option" where
  "iappend_loop off p din s =
     (if p = [] then Some (off, din, s)
      else let fbn = off div BSIZE in
      if fbn < MAXFILE then do {
        (x, din, s) \<leftarrow> iappend_block fbn din s;
        let n1 = min (length p) ((fbn + 1) * BSIZE - off);
        buf \<leftarrow> rsect x s;
        let buf = blit 0 (nth p) (off - fbn * BSIZE) n1 buf;
        iappend_loop (off + n1) (drop n1 p) din (wsect x buf s)}
      else None)"
  by auto
termination
proof (relation "measure (\<lambda>(off, p, din, s). length p)", goal_cases)
  case (2 off p din s fbn r x r' din' s' n1 buf buf')
  have "off < (off div BSIZE + 1) * BSIZE" by (simp add: dividend_less_div_times)
  then show ?case using 2 by (cases p) auto
qed simp

declare iappend_loop.simps [simp del]

definition iappend :: "uint \<Rightarrow> uchar list \<Rightarrow> image \<Rightarrow> image option" where
  "iappend inum p s = do {
     din \<leftarrow> rinode inum s;
     (off, din, s) \<leftarrow> iappend_loop (unat (d_size din)) p din s;
     winode inum (din\<lparr>d_size := of_nat off\<rparr>) s}"

section \<open>The main program\<close>

text \<open>An argument is a host path and what it opens to: \<open>None\<close> when \<^verbatim>\<open>open\<close> fails.\<close>

type_synonym mkfs_arg = "uchar list \<times> uchar list option"

definition c_string :: "uchar list \<Rightarrow> nat \<Rightarrow> uchar" where
  "c_string cs i = (if i < length cs then cs ! i else 0)"

definition dirent_bytes :: "uint \<Rightarrow> uchar list \<Rightarrow> uchar list" where
  "dirent_bytes inum name = map (dirent (ucast inum) (name_field (c_string name))) [0..<16]"

text \<open>\<^verbatim>\<open>while((cc = read(fd, buf, sizeof(buf))) > 0) iappend(inum, buf, cc)\<close>\<close>

function copy_file :: "uint \<Rightarrow> uchar list \<Rightarrow> image \<Rightarrow> image option" where
  "copy_file inum content s =
     (if content = [] then Some s
      else do { s \<leftarrow> iappend inum (take BSIZE content) s; copy_file inum (drop BSIZE content) s })"
  by auto
termination by (relation "measure (\<lambda>(inum, content, s). length content)") auto

declare copy_file.simps [simp del]

text \<open>The path with its leading underscore skipped.\<close>

definition target_name :: "uchar list \<Rightarrow> uchar list" where
  "target_name path = (if path \<noteq> [] \<and> hd path = 95 then tl path else path)"

definition add_file :: "uint \<Rightarrow> mkfs_arg \<Rightarrow> image \<Rightarrow> image option" where
  "add_file rootino arg s =
     (if 47 \<in> set (fst arg) then None
      else do {
        content \<leftarrow> snd arg;
        (inum, s) \<leftarrow> mk_ialloc T_FILE s;
        s \<leftarrow> iappend rootino (dirent_bytes inum (target_name (fst arg))) s;
        copy_file inum content s})"

fun add_files :: "uint \<Rightarrow> mkfs_arg list \<Rightarrow> image \<Rightarrow> image option" where
  "add_files rootino [] s = Some s"
| "add_files rootino (a # as) s = do { s \<leftarrow> add_file rootino a s; add_files rootino as s }"

definition sb_block :: block where
  "sb_block = store32 0 (sb_size mkfs_sb) (store32 4 (sb_nblocks mkfs_sb) (store32 8 (sb_ninodes mkfs_sb) (store32 12 (sb_nlog mkfs_sb)
     (store32 16 (sb_logstart mkfs_sb) (store32 20 (sb_inodestart mkfs_sb) (store32 24 (sb_bmapstart mkfs_sb) (\<lambda>_. 0)))))))"

text \<open>The truncated image with the free block counter set, zeroed, with the superblock written.\<close>

definition blank :: image where
  "blank = wsect 1 sb_block (fold (\<lambda>i. wsect (of_nat i) (\<lambda>_. 0)) [0..<FS_SIZE]
     \<lparr>img = (\<lambda>_ _. 0), sectors = 0, freeinode = 1, freeblock = of_nat nmeta\<rparr>)"

definition mkfs :: "mkfs_arg list \<Rightarrow> image option" where
  "mkfs args = do {
     (rootino, s) \<leftarrow> mk_ialloc T_DIR blank;
     if rootino \<noteq> ROOTINO then None else do {
     s \<leftarrow> iappend rootino (dirent_bytes rootino [46]) s;
     s \<leftarrow> iappend rootino (dirent_bytes rootino [46, 46]) s;
     s \<leftarrow> add_files rootino args s;
     din \<leftarrow> rinode rootino s;
     s \<leftarrow> winode rootino (din\<lparr>d_size := (d_size din div of_nat BSIZE + 1) * of_nat BSIZE\<rparr>) s;
     mk_balloc (sint (freeblock s)) s}}"

section \<open>Sectors\<close>

lemma mkfs_sb_fresh: "mkfs_sb = fresh_sb"
  by (simp add: mkfs_sb_def fresh_sb_def)

lemma sector_id [simp]:
  assumes "unat b \<le> 1001"
  shows "sector b = b"
proof -
  have "unat (b * 512) = unat b * 512" using assms by (subst unat_mult_lem [THEN iffD1]) auto
  then show ?thesis by (simp add: sector_def word_unat_eq_iff unat_div)
qed

lemma rsect_some: "rsect b s = Some d \<Longrightarrow> sectors s = 1000 \<Longrightarrow> unat b \<le> 1001 \<Longrightarrow> unat b < 1000 \<and> d = img s b"
  by (simp add: rsect_def split: if_splits)

lemma rsect_in [simp]: "sectors s = 1000 \<Longrightarrow> unat b < 1000 \<Longrightarrow> rsect b s = Some (img s b)"
  by (simp add: rsect_def)

lemma wsect_in [simp]: "sectors s = 1000 \<Longrightarrow> unat b < 1000 \<Longrightarrow> wsect b d s = s\<lparr>img := (img s)(b := d)\<rparr>"
  by (simp add: wsect_def)

section \<open>What a file looks like on the image\<close>

text \<open>
  The pointers of the inode \<open>d\<close>: the data blocks are the list \<open>bl\<close> in order, the indirect block, once
  there are more than twelve of them, is \<open>ib\<close>, and every other pointer is null.
\<close>

definition file_chain :: "(uint \<Rightarrow> block) \<Rightarrow> dinode \<Rightarrow> uint list \<Rightarrow> uint \<Rightarrow> bool" where
  "file_chain V d bl ib \<longleftrightarrow> length bl \<le> MAXFILE \<and> (\<forall>k<NDIRECT. d_addrs d k = (if k < length bl then bl ! k else 0))
     \<and> d_addrs d NDIRECT = (if NDIRECT < length bl then ib else 0)
     \<and> (NDIRECT < length bl \<longrightarrow> (\<forall>k<NINDIRECT. load32 (V ib) (4 * k) = (if k + NDIRECT < length bl then bl ! (k + NDIRECT) else 0)))"

definition owned :: "uint list \<Rightarrow> uint \<Rightarrow> uint set" where
  "owned bl ib = set bl \<union> (if NDIRECT < length bl then {ib} else {})"

definition own_ok :: "uint \<Rightarrow> uint list \<Rightarrow> uint \<Rightarrow> bool" where
  "own_ok fb bl ib \<longleftrightarrow> distinct bl \<and> (NDIRECT < length bl \<longrightarrow> ib \<notin> set bl) \<and> owned bl ib \<subseteq> {b. 59 \<le> unat b \<and> unat b < unat fb}"

definition content :: "(uint \<Rightarrow> block) \<Rightarrow> uint list \<Rightarrow> uchar list \<Rightarrow> bool" where
  "content V bl c \<longleftrightarrow> length c \<le> BSIZE * length bl \<and> BSIZE * length bl < length c + BSIZE \<and> (\<forall>x<length c. V (bl ! (x div BSIZE)) (x mod BSIZE) = c ! x)"

text \<open>The image between two calls: its size, the allocator's counter, and untouched blocks above it.\<close>

definition image_ok :: "image \<Rightarrow> bool" where
  "image_ok s \<longleftrightarrow> sectors s = 1000 \<and> 59 \<le> unat (freeblock s) \<and> unat (freeblock s) \<le> 1000 \<and> (\<forall>b. unat (freeblock s) \<le> unat b \<longrightarrow> img s b = (\<lambda>_. 0))"

lemma card_owned: "own_ok fb bl ib \<Longrightarrow> card (owned bl ib) = length bl + of_bool (NDIRECT < length bl)"
  by (simp add: own_ok_def owned_def distinct_card)

lemma load_zero_block: "load32 (\<lambda>_. 0) (k :: nat) = 0"
  by (simp add: load32_def)

lemma image_okD:
  assumes "image_ok s"
  shows "sectors s = 1000" "59 \<le> unat (freeblock s)" "unat (freeblock s) \<le> 1000" "unat (freeblock s + 1) = unat (freeblock s) + 1"
    "unat (freeblock s + 1 + 1) = unat (freeblock s) + 2" "freeblock s \<noteq> 0" "unat (freeblock s) \<le> unat b \<Longrightarrow> img s b = (\<lambda>_. 0)"
proof -
  show f: "sectors s = 1000" "59 \<le> unat (freeblock s)" "unat (freeblock s) \<le> 1000" "unat (freeblock s) \<le> unat b \<Longrightarrow> img s b = (\<lambda>_. 0)"
    using assms by (auto simp: image_ok_def)
  show "unat (freeblock s + 1) = unat (freeblock s) + 1" using f by (subst unat_add_lem [THEN iffD1]) auto
  then show "unat (freeblock s + 1 + 1) = unat (freeblock s) + 2" using f by (subst unat_add_lem [THEN iffD1]) auto
  show "freeblock s \<noteq> 0" using f(2) by auto
qed

text \<open>Finding a block that exists changes nothing.\<close>

lemma iappend_block_old:
  assumes i: "image_ok s" and c: "file_chain (img s) d bl ib" and o: "own_ok (freeblock s) bl ib" and k: "k < length bl"
  shows "iappend_block k d s = Some (bl ! k, d, s)"
proof (cases "k < NDIRECT")
  case True
  have "bl ! k \<noteq> 0" using o k nth_mem [OF k] by (force simp: own_ok_def owned_def)
  then show ?thesis using c k True by (simp add: iappend_block_def file_chain_def)
next
  case False
  have n: "NDIRECT < length bl" "k - NDIRECT < NINDIRECT" using False k c by (auto simp: file_chain_def)
  then have ib: "d_addrs d NDIRECT = ib" "load32 (img s ib) (4 * (k - NDIRECT)) = bl ! k" using c k False by (auto simp: file_chain_def)
  have "59 \<le> unat ib" "unat ib < unat (freeblock s)" using o n(1) by (auto simp: own_ok_def owned_def)
  moreover have "bl ! k \<noteq> 0" using o k nth_mem [OF k] by (force simp: own_ok_def owned_def)
  ultimately show ?thesis using False ib image_okD [OF i] by (auto simp: iappend_block_def)
qed

text \<open>
  What an append may change: the pointers of the inode, and blocks of the file itself. Every block
  that the counter passes belongs to the file.
\<close>

definition grows :: "image \<Rightarrow> dinode \<Rightarrow> uint set \<Rightarrow> image \<Rightarrow> dinode \<Rightarrow> uint set \<Rightarrow> bool" where
  "grows s d B s' d' B' \<longleftrightarrow> unat (freeblock s) \<le> unat (freeblock s') \<and> freeinode s' = freeinode s \<and> d'\<lparr>d_addrs := d_addrs d\<rparr> = d
     \<and> B \<subseteq> B' \<and> B' \<subseteq> B \<union> {b. unat (freeblock s) \<le> unat b} \<and> (\<forall>b. b \<notin> B' \<longrightarrow> img s' b = img s b)
     \<and> unat (freeblock s) + card B' = unat (freeblock s') + card B"

lemma grows_refl: "grows s d B s d B"
  by (simp add: grows_def)

lemma grows_trans:
  assumes a: "grows s d B t e C" and b: "grows t e C u f D"
  shows "grows s d B u f D"
proof -
  have "f\<lparr>d_addrs := d_addrs d\<rparr> = (f\<lparr>d_addrs := d_addrs e\<rparr>)\<lparr>d_addrs := d_addrs d\<rparr>" by simp
  also have "\<dots> = d" using a b by (simp add: grows_def)
  finally have f: "f\<lparr>d_addrs := d_addrs d\<rparr> = d" .
  have "D \<subseteq> B \<union> {b. unat (freeblock s) \<le> unat b}" using a b by (fastforce simp: grows_def)
  moreover have "unat (freeblock s) + card D = unat (freeblock u) + card B" using a b by (simp add: grows_def)
  ultimately show ?thesis using a b f unfolding grows_def by (metis subset_iff le_trans)
qed

text \<open>The block after the last one is new; it comes out zeroed, and the counter has moved past it.\<close>

definition new_block :: "image \<Rightarrow> dinode \<Rightarrow> uint list \<Rightarrow> uint \<Rightarrow> uint \<Rightarrow> dinode \<Rightarrow> image \<Rightarrow> uint \<Rightarrow> bool" where
  "new_block s d bl ib x d' s' ib' \<longleftrightarrow> file_chain (img s') d' (bl @ [x]) ib' \<and> own_ok (freeblock s') (bl @ [x]) ib' \<and> image_ok s'
     \<and> grows s d (owned bl ib) s' d' (owned (bl @ [x]) ib') \<and> (\<forall>b\<in>set bl. img s' b = img s b)"

lemma new_direct:
  assumes i: "image_ok s" and c: "file_chain (img s) d bl ib" and o: "own_ok (freeblock s) bl ib" and l: "length bl < NDIRECT"
    and r: "iappend_block (length bl) d s = Some (x, d', s')" "rsect x s' = Some buf"
  shows "new_block s d bl ib x d' s' ib"
proof -
  have z: "d_addrs d (length bl) = 0" using c l by (simp add: file_chain_def)
  then have e: "x = freeblock s" "d' = d\<lparr>d_addrs := (d_addrs d)(length bl := x)\<rparr>" "s' = s\<lparr>freeblock := freeblock s + 1\<rparr>"
    using r(1) l by (auto simp: iappend_block_def)
  have n: "unat (freeblock s + 1) = unat x + 1" using image_okD(4) [OF i] e(1) by simp
  have xl: "unat x < 1000" using rsect_some [OF r(2)] image_okD(1,3) [OF i] by (simp add: e(1,3))
  have sb: "set bl \<subseteq> {b. 59 \<le> unat b \<and> unat b < unat x}" using o e(1) l by (auto simp: own_ok_def owned_def)
  have o': "own_ok (freeblock s') (bl @ [x]) ib" using o sb l n e(1) image_okD(2) [OF i] by (auto simp: own_ok_def owned_def e(3))
  have "file_chain (img s') d' (bl @ [x]) ib" using c l by (auto simp: file_chain_def e(2,3) nth_append less_Suc_eq)
  moreover have "image_ok s'" using i n xl e(1) by (auto simp: image_ok_def e(3))
  moreover have "grows s d (owned bl ib) s' d' (owned (bl @ [x]) ib)" using card_owned [OF o] card_owned [OF o'] l n e(1) by (auto simp: grows_def owned_def e(2,3))
  ultimately show ?thesis using o' by (simp add: new_block_def e(3))
qed

lemma new_entry:
  assumes i: "image_ok s" and c: "file_chain (img s) d bl ib" and o: "own_ok (freeblock s) bl ib" and l: "NDIRECT < length bl" "length bl < MAXFILE"
    and r: "iappend_block (length bl) d s = Some (x, d', s')" "rsect x s' = Some buf"
  shows "new_block s d bl ib x d' s' ib"
proof -
  define k where "k = length bl - NDIRECT"
  have k: "k < NINDIRECT" "length bl = k + NDIRECT" using l by (auto simp: k_def)
  have ib: "59 \<le> unat ib" "unat ib < unat (freeblock s)" "ib \<notin> set bl" using o l(1) by (auto simp: own_ok_def owned_def)
  have a: "d_addrs d NDIRECT = ib" "load32 (img s ib) (4 * k) = 0" using c l k by (auto simp: file_chain_def)
  have nz: "ib \<noteq> 0" using ib(1) by auto
  have e: "x = freeblock s" "d' = d" "s' = s\<lparr>freeblock := freeblock s + 1, img := (img s)(ib := store32 (4 * k) x (img s ib))\<rparr>"
    using r(1) a nz l k ib image_okD(1-3) [OF i] by (auto simp: iappend_block_def)
  have n: "unat (freeblock s + 1) = unat x + 1" using image_okD(4) [OF i] e(1) by simp
  have xl: "unat x < 1000" using rsect_some [OF r(2)] image_okD(1,3) [OF i] by (simp add: e(1,3))
  have sb: "set bl \<subseteq> {b. 59 \<le> unat b \<and> unat b < unat x}" using o e(1) l by (auto simp: own_ok_def owned_def)
  have o': "own_ok (freeblock s') (bl @ [x]) ib" using o sb l n e(1) image_okD(2) [OF i] ib by (auto simp: own_ok_def owned_def e(3))
  have "load32 (store32 (4 * k) x (img s ib)) (4 * j) = (if j + NDIRECT < length (bl @ [x]) then (bl @ [x]) ! (j + NDIRECT) else 0)" if "j < NINDIRECT" for j
    using that c l k by (cases j k rule: linorder_cases) (auto simp: file_chain_def nth_append)
  then have "file_chain (img s') d' (bl @ [x]) ib" using c l a by (auto simp: file_chain_def e(2,3) nth_append)
  moreover have "image_ok s'" using i n xl e(1) ib by (auto simp: image_ok_def e(3))
  moreover have "grows s d (owned bl ib) s' d' (owned (bl @ [x]) ib)" using card_owned [OF o] card_owned [OF o'] l n e(1) by (auto simp: grows_def owned_def e(2,3))
  ultimately show ?thesis using o' ib(3) by (auto simp: new_block_def e(3))
qed

lemma new_indirect:
  assumes i: "image_ok s" and c: "file_chain (img s) d bl ib" and o: "own_ok (freeblock s) bl ib" and l: "length bl = NDIRECT"
    and r: "iappend_block (length bl) d s = Some (x, d', s')" "rsect x s' = Some buf"
  shows "new_block s d bl ib x d' s' (freeblock s)"
proof -
  define y where "y = freeblock s"
  note f = image_okD [OF i, folded y_def]
  have a: "d_addrs d NDIRECT = 0" using c l by (auto simp: file_chain_def)
  have yz: "img s y = (\<lambda>_. 0)" using f(7) [of y] by simp
  have yl: "unat y < 1000" using r(1) a l f(1-3,6) by (auto simp: iappend_block_def y_def [symmetric] rsect_def split: if_splits)
  have e: "x = y + 1" "d' = d\<lparr>d_addrs := (d_addrs d)(NDIRECT := y)\<rparr>" "s' = s\<lparr>freeblock := x + 1, img := (img s)(y := store32 0 x (\<lambda>_. 0))\<rparr>"
    using r(1) a f(1-3,6) yl l yz by (auto simp: iappend_block_def y_def [symmetric] load_zero_block)
  have n: "unat (x + 1) = unat y + 2" "unat x = unat y + 1" using f(4,5) by (simp_all add: e(1))
  have xl: "unat x < 1000" using rsect_some [OF r(2)] f(1) yl n(2) by (simp add: e(3))
  have sb: "set bl \<subseteq> {b. 59 \<le> unat b \<and> unat b < unat y}" using o l by (auto simp: own_ok_def owned_def y_def)
  have xy: "x \<noteq> y" using n(2) by auto
  have o': "own_ok (freeblock s') (bl @ [x]) y" using o sb l n f(2) xy by (auto simp: own_ok_def owned_def e(3))
  have "load32 (store32 0 x (\<lambda>_. 0)) (4 * j) = (if j + NDIRECT < length (bl @ [x]) then (bl @ [x]) ! (j + NDIRECT) else 0)" for j
    using l by (cases j) (auto simp: nth_append load_zero_block)
  then have "file_chain (img s') d' (bl @ [x]) y" using c l a by (auto simp: file_chain_def e(2,3) nth_append)
  moreover have "image_ok s'" using i n xl by (auto simp: image_ok_def e(3) y_def [symmetric])
  moreover have "grows s d (owned bl ib) s' d' (owned (bl @ [x]) y)" using card_owned [OF o] card_owned [OF o'] l n by (auto simp: grows_def owned_def e(2,3) y_def [symmetric])
  ultimately show ?thesis using o' sb unfolding new_block_def y_def [symmetric] by (auto simp: e(3))
qed

lemma iappend_block_new:
  assumes "image_ok s" "file_chain (img s) d bl ib" "own_ok (freeblock s) bl ib" "length bl < MAXFILE"
    and "iappend_block (length bl) d s = Some (x, d', s')" "rsect x s' = Some buf"
  shows "\<exists>ib'. new_block s d bl ib x d' s' ib'"
proof (cases "length bl" NDIRECT rule: linorder_cases)
  case less
  then show ?thesis using new_direct assms by blast
next
  case equal
  then show ?thesis using new_indirect assms by blast
next
  case greater
  then show ?thesis using new_entry [OF assms(1-3) greater assms(4-6)] by blast
qed

lemma div_block:
  fixes x :: nat
  assumes "BSIZE * k \<le> x" "x < BSIZE * k + BSIZE"
  shows "x div BSIZE = k" "x mod BSIZE = x - BSIZE * k"
  using assms by (auto simp: div_nat_eqI modulo_nat_def)

lemma content_chunk:
  assumes c: "\<forall>x<length c. V (bl ! (x div BSIZE)) (x mod BSIZE) = c ! x" and d: "distinct bl" and l: "length bl = length c div BSIZE + 1"
    and n: "0 < n" "n \<le> length p" "n \<le> BSIZE - length c mod BSIZE"
  shows "content (V(bl ! (length c div BSIZE) := blit 0 (nth p) (length c mod BSIZE) n (V (bl ! (length c div BSIZE))))) bl (c @ take n p)"
proof -
  define k where "k = length c div BSIZE"
  define m where "m = length c mod BSIZE"
  have km: "length c = BSIZE * k + m" "m < BSIZE" by (simp_all add: k_def m_def)
  have "(V(bl ! k := blit 0 (nth p) m n (V (bl ! k)))) (bl ! (x div BSIZE)) (x mod BSIZE) = (c @ take n p) ! x" if x: "x < length c + n" for x
  proof (cases "x < BSIZE * k")
    case True
    then have "x div BSIZE < k" by (simp add: less_mult_imp_div_less mult.commute)
    then have "bl ! (x div BSIZE) \<noteq> bl ! k" using d l by (simp add: nth_eq_iff_index_eq k_def [symmetric])
    then show ?thesis using True c km by (simp add: nth_append)
  next
    case False
    then have x': "x div BSIZE = k" "x mod BSIZE = x - BSIZE * k" using div_block [of k x] x km n(3) by (auto simp: m_def [symmetric])
    show ?thesis
    proof (cases "x < length c")
      case True
      then show ?thesis using c x' km False by (auto simp: nth_append)
    next
      case False
      then show ?thesis using x' km x n(2) by (auto simp: nth_append)
    qed
  qed
  moreover have "length c + n \<le> BSIZE * (k + 1)" "BSIZE * (k + 1) < length c + n + BSIZE" using km n by (auto simp: m_def [symmetric])
  ultimately show ?thesis using l n(2) by (auto simp: content_def k_def [symmetric] m_def [symmetric])
qed

definition file_at :: "image \<Rightarrow> dinode \<Rightarrow> uint list \<Rightarrow> uint \<Rightarrow> uchar list \<Rightarrow> bool" where
  "file_at s d bl ib c \<longleftrightarrow> image_ok s \<and> file_chain (img s) d bl ib \<and> own_ok (freeblock s) bl ib \<and> content (img s) bl c"

text \<open>One round of the loop of \<^verbatim>\<open>iappend\<close>: the block of the current offset exists afterwards.\<close>

lemma iappend_round:
  assumes f: "file_at s d bl ib c" and k: "length c div BSIZE < MAXFILE" and r: "iappend_block (length c div BSIZE) d s = Some (x, d', s')" "rsect x s' = Some buf"
  shows "\<exists>bl' ib'. image_ok s' \<and> file_chain (img s') d' bl' ib' \<and> own_ok (freeblock s') bl' ib' \<and> grows s d (owned bl ib) s' d' (owned bl' ib')
    \<and> length bl' = length c div BSIZE + 1 \<and> bl' ! (length c div BSIZE) = x \<and> (\<forall>y<length c. img s' (bl' ! (y div BSIZE)) (y mod BSIZE) = c ! y)
    \<and> unat x < 1000 \<and> buf = img s' x"
proof -
  let ?k = "length c div BSIZE"
  have i: "image_ok s" "file_chain (img s) d bl ib" "own_ok (freeblock s) bl ib" and c: "content (img s) bl c" using f by (auto simp: file_at_def)
  have l: "length c \<le> BSIZE * length bl" "BSIZE * length bl < length c + BSIZE" using c by (auto simp: content_def)
  have "BSIZE * ?k \<le> length c" "length c < BSIZE * ?k + BSIZE" using dividend_less_div_times [of BSIZE "length c"] by simp_all
  then have "?k + 1 = length bl \<or> ?k = length bl" using l by linarith
  then consider "?k + 1 = length bl" "?k < length bl" | "?k = length bl" by fastforce
  then show ?thesis
  proof cases
    case 1
    have "x = bl ! ?k" "d' = d" "s' = s" using iappend_block_old [OF i 1(2)] r(1) by auto
    moreover have "unat (bl ! ?k) < unat (freeblock s)" using i(3) nth_mem [OF 1(2)] by (auto simp: own_ok_def owned_def)
    ultimately have "unat x < 1000 \<and> buf = img s' x" using r(2) image_okD(1,3) [OF i(1)] by auto
    then show ?thesis using i c 1 \<open>x = bl ! ?k\<close> \<open>d' = d\<close> \<open>s' = s\<close> grows_refl by (intro exI [of _ bl] exI [of _ ib]) (auto simp: content_def)
  next
    case 2
    obtain ib' where n: "new_block s d bl ib x d' s' ib'" using iappend_block_new [OF i, of x d' s' buf] r k 2 by auto
    then have "own_ok (freeblock s') (bl @ [x]) ib'" "image_ok s'" by (auto simp: new_block_def)
    then have "unat x < 1000 \<and> buf = img s' x" using r(2) image_okD(1,3) [of s'] by (auto simp: own_ok_def owned_def)
    moreover have "img s' ((bl @ [x]) ! (y div BSIZE)) (y mod BSIZE) = c ! y" if "y < length c" for y
    proof -
      have "y div BSIZE < length bl" using that l(1) by (simp add: less_mult_imp_div_less mult.commute)
      then show ?thesis using n c that by (simp add: new_block_def content_def nth_append)
    qed
    ultimately show ?thesis using n 2 by (intro exI [of _ "bl @ [x]"] exI [of _ ib']) (auto simp: new_block_def)
  qed
qed

text \<open>The bytes go into the block that holds the end of the file.\<close>

lemma iappend_write:
  assumes i: "image_ok s" and ch: "file_chain (img s) d bl ib" and o: "own_ok (freeblock s) bl ib" and l: "length bl = length c div BSIZE + 1"
    and c: "\<forall>y<length c. img s (bl ! (y div BSIZE)) (y mod BSIZE) = c ! y"
    and n: "0 < n" "n \<le> length p" "n \<le> BSIZE - length c mod BSIZE" and x: "x = bl ! (length c div BSIZE)" "unat x < 1000"
    and s': "s' = wsect x (blit 0 (nth p) (length c mod BSIZE) n (img s x)) s"
  shows "file_at s' d bl ib (c @ take n p)" "grows s d (owned bl ib) s' d (owned bl ib)"
proof -
  have e: "s' = s\<lparr>img := (img s)(x := blit 0 (nth p) (length c mod BSIZE) n (img s x))\<rparr>" using s' x(2) image_okD(1) [OF i] by simp
  have m: "x \<in> set bl" using x(1) l by simp
  have "content (img s') bl (c @ take n p)" using content_chunk [OF c _ l n] o x(1) by (simp add: e own_ok_def)
  moreover have "file_chain (img s') d bl ib" using ch m o by (auto simp: file_chain_def e own_ok_def)
  moreover have "unat x < unat (freeblock s)" using m o by (auto simp: own_ok_def owned_def)
  then have "image_ok s'" using i by (auto simp: e image_ok_def)
  ultimately show "file_at s' d bl ib (c @ take n p)" using o by (simp add: file_at_def e)
  show "grows s d (owned bl ib) s' d (owned bl ib)" using m by (auto simp: grows_def e owned_def)
qed

lemma iappend_step:
  assumes f: "file_at s d bl ib c" and off: "off = length c" and p: "p \<noteq> []" and k: "off div BSIZE < MAXFILE"
    and b: "iappend_block (off div BSIZE) d s = Some (x, d', s')" "rsect x s' = Some buf" and n_def: "n = min (length p) ((off div BSIZE + 1) * BSIZE - off)"
    and t: "t = wsect x (blit 0 (nth p) (off - off div BSIZE * BSIZE) n buf) s'"
  shows "\<exists>bl' ib'. file_at t d' bl' ib' (c @ take n p) \<and> grows s d (owned bl ib) t d' (owned bl' ib') \<and> 0 < n \<and> n \<le> length p"
proof -
  let ?k = "off div BSIZE"
  obtain bl1 ib1 where w: "image_ok s'" "file_chain (img s') d' bl1 ib1" "own_ok (freeblock s') bl1 ib1" "grows s d (owned bl ib) s' d' (owned bl1 ib1)"
    "length bl1 = ?k + 1" "bl1 ! ?k = x" "\<forall>y<length c. img s' (bl1 ! (y div BSIZE)) (y mod BSIZE) = c ! y" "unat x < 1000" "buf = img s' x"
    using iappend_round [OF f] k b unfolding off by blast
  have m: "off - ?k * BSIZE = off mod BSIZE" by (simp add: minus_div_mult_eq_mod)
  have n: "0 < n" "n \<le> length p" "n \<le> BSIZE - off mod BSIZE" using p unfolding n_def m [symmetric]
    by (auto simp: dividend_less_div_times algebra_simps)
  have "file_at t d' bl1 ib1 (c @ take n p)" "grows s' d' (owned bl1 ib1) t d' (owned bl1 ib1)"
    using iappend_write [OF w(1-3) w(5) [unfolded off] w(7) n [unfolded off], of x t] w(6,8,9) off m t by auto
  then show ?thesis using grows_trans [OF w(4)] n(1,2) by blast
qed

lemma iappend_loop_spec:
  assumes "iappend_loop off p d s = Some (off', d', s')" "file_at s d bl ib c" "off = length c"
  shows "\<exists>bl' ib'. file_at s' d' bl' ib' (c @ p) \<and> grows s d (owned bl ib) s' d' (owned bl' ib') \<and> off' = length c + length p"
  using assms
proof (induction off p d s arbitrary: bl ib c rule: iappend_loop.induct)
  case (1 off p d s)
  show ?case
  proof (cases "p = []")
    case True
    then show ?thesis using 1(2-4) grows_refl by (subst (asm) iappend_loop.simps) (auto intro!: exI)
  next
    case False
    let ?k = "off div BSIZE"
    define n where "n = min (length p) ((?k + 1) * BSIZE - off)"
    obtain x d1 s1 buf where k: "?k < MAXFILE" and b: "iappend_block ?k d s = Some (x, d1, s1)" "rsect x s1 = Some buf"
      and r: "iappend_loop (off + n) (drop n p) d1 (wsect x (blit 0 (nth p) (off - ?k * BSIZE) n buf) s1) = Some (off', d', s')"
      using 1(2) False unfolding n_def by (subst (asm) (2) iappend_loop.simps) (auto simp: Let_def bind_eq_Some_conv split: if_splits)
    let ?s2 = "wsect x (blit 0 (nth p) (off - ?k * BSIZE) n buf) s1"
    obtain bl1 ib1 where v: "file_at ?s2 d1 bl1 ib1 (c @ take n p)" "grows s d (owned bl ib) ?s2 d1 (owned bl1 ib1)" and n: "n \<le> length p"
      using iappend_step [OF 1(3,4) False k b n_def refl] by blast
    have "off + n = length (c @ take n p)" using 1(4) n by simp
    then obtain bl' ib' where "file_at s' d' bl' ib' ((c @ take n p) @ drop n p)" "grows ?s2 d1 (owned bl1 ib1) s' d' (owned bl' ib')"
      "off' = length (c @ take n p) + length (drop n p)"
      using 1(1) [OF False refl k b(1) refl refl n_def b(2) refl, of bl1 ib1 "c @ take n p"] r v(1) by blast
    then show ?thesis using grows_trans [OF v(2)] n by (intro exI [of _ bl'] exI [of _ ib']) auto
  qed
qed

section \<open>The files of the image\<close>

definition dnode :: "(uint \<Rightarrow> block) \<Rightarrow> nat \<Rightarrow> dinode" where
  "dnode V n = get_dinode (V (IBLOCK (of_nat n) mkfs_sb)) (unat ((of_nat n :: uint) mod IPB))"

definition same_node :: "dinode \<Rightarrow> dinode \<Rightarrow> bool" where
  "same_node a b \<longleftrightarrow> d_type a = d_type b \<and> d_nlink a = d_nlink b \<and> d_size a = d_size b \<and> (\<forall>j<13. d_addrs a j = d_addrs b j)"

lemma inode_place:
  assumes "n < NINODES"
  shows "unat (IBLOCK (of_nat n) mkfs_sb) = n div 8 + 32" "unat ((of_nat n :: uint) mod IPB) = n mod 8" "unat (of_nat n :: uint) = n"
proof -
  show u: "unat (of_nat n :: uint) = n" using assms by (simp add: unat_of_nat)
  have "n div 8 < 26" using assms by simp
  then show "unat (IBLOCK (of_nat n) mkfs_sb) = n div 8 + 32"
    unfolding IBLOCK_def by (subst unat_add_lem [THEN iffD1]) (auto simp: unat_div u mkfs_sb_def)
  show "unat ((of_nat n :: uint) mod IPB) = n mod 8" using u by (simp add: unat_mod)
qed

lemma inode_in: "n < NINODES \<Longrightarrow> 32 \<le> unat (IBLOCK (of_nat n) mkfs_sb) \<and> unat (IBLOCK (of_nat n) mkfs_sb) < 58"
  unfolding inode_place by auto

definition put_node :: "nat \<Rightarrow> dinode \<Rightarrow> (uint \<Rightarrow> block) \<Rightarrow> uint \<Rightarrow> block" where
  "put_node n d V = V(IBLOCK (of_nat n) mkfs_sb := put_dinode (unat ((of_nat n :: uint) mod IPB)) d (V (IBLOCK (of_nat n) mkfs_sb)))"

lemma winode_eq: "n < NINODES \<Longrightarrow> sectors s = 1000 \<Longrightarrow> winode (of_nat n) d s = Some (s\<lparr>img := put_node n d (img s)\<rparr>)"
  using inode_in [of n] by (simp add: winode_def put_node_def)

lemma rinode_eq: "n < NINODES \<Longrightarrow> sectors s = 1000 \<Longrightarrow> rinode (of_nat n) s = Some (dnode (img s) n)"
  using inode_in [of n] by (simp add: rinode_def dnode_def)

lemma put_node_same: "same_node (dnode (put_node n d V) n) d"
  by (simp add: same_node_def dnode_def put_node_def get_put_dinode)

lemma put_node_other:
  assumes "m < NINODES" "n < NINODES" "m \<noteq> n"
  shows "same_node (dnode (put_node n d V) m) (dnode V m)"
proof (cases "m div 8 = n div 8")
  case True
  then have k: "n mod 8 \<noteq> m mod 8" using assms(3) by (metis div_mult_mod_eq)
  have e: "IBLOCK (of_nat m) mkfs_sb = IBLOCK (of_nat n) mkfs_sb" using True by (simp add: word_unat_eq_iff inode_place assms)
  note o = get_put_dinode_other [OF k, of _ d "V (IBLOCK (of_nat n) mkfs_sb)"]
  have f: "d_type (x :: dinode) = d_type (x\<lparr>d_addrs := a\<rparr>)" "d_nlink x = d_nlink (x\<lparr>d_addrs := a\<rparr>)" "d_size x = d_size (x\<lparr>d_addrs := a\<rparr>)" for x and a :: "nat \<Rightarrow> uint"
    by simp_all
  show ?thesis unfolding same_node_def dnode_def put_node_def e inode_place [OF assms(1)] inode_place [OF assms(2)] fun_upd_same
    using o(1) by (metis f o(2))
next
  case False
  then have "IBLOCK (of_nat m) mkfs_sb \<noteq> IBLOCK (of_nat n) mkfs_sb" using inode_place(1) assms by (metis add_right_cancel)
  then show ?thesis by (simp add: same_node_def dnode_def put_node_def)
qed

lemma put_node_data: "n < NINODES \<Longrightarrow> unat b < 32 \<or> 58 \<le> unat b \<Longrightarrow> put_node n d V b = V b"
  using inode_in [of n] by (auto simp: put_node_def)

text \<open>What is known of one file: its type, its bytes, and where they are.\<close>

record mfile =
  mf_type :: ushort
  mf_bytes :: "uchar list"
  mf_blocks :: "uint list"
  mf_indirect :: uint

definition blocks_of :: "mfile \<Rightarrow> uint set" where
  "blocks_of r = owned (mf_blocks r) (mf_indirect r)"

definition entry_ok :: "(uint \<Rightarrow> block) \<Rightarrow> uint \<Rightarrow> dinode \<Rightarrow> mfile \<Rightarrow> bool" where
  "entry_ok V fb d r \<longleftrightarrow> d_type d = mf_type r \<and> d_nlink d = 1 \<and> d_size d = of_nat (length (mf_bytes r))
     \<and> file_chain V d (mf_blocks r) (mf_indirect r) \<and> own_ok fb (mf_blocks r) (mf_indirect r) \<and> content V (mf_blocks r) (mf_bytes r)"

definition world :: "image \<Rightarrow> mfile list \<Rightarrow> bool" where
  "world s R \<longleftrightarrow> image_ok s \<and> freeinode s = of_nat (length R + 1) \<and> img s 1 = sb_block \<and> img s 2 = (\<lambda>_. 0)
     \<and> (\<forall>n<length R. entry_ok (img s) (freeblock s) (dnode (img s) (n + 1)) (R ! n))
     \<and> (\<forall>m<length R. \<forall>n<length R. m \<noteq> n \<longrightarrow> blocks_of (R ! m) \<inter> blocks_of (R ! n) = {})
     \<and> unat (freeblock s) = 59 + sum_list (map (\<lambda>r. card (blocks_of r)) R)"

lemma entry_frame:
  assumes e: "entry_ok V fb d r" and f: "unat fb \<le> unat fb'" "same_node d' d" and b: "\<And>b. b \<in> blocks_of r \<Longrightarrow> V' b = V b"
  shows "entry_ok V' fb' d' r"
proof -
  have c: "content V (mf_blocks r) (mf_bytes r)" using e by (simp add: entry_ok_def)
  have "V' (mf_blocks r ! (x div BSIZE)) = V (mf_blocks r ! (x div BSIZE))" if "x < length (mf_bytes r)" for x
  proof -
    have "x div BSIZE < length (mf_blocks r)" using that c by (simp add: content_def less_mult_imp_div_less mult.commute)
    then show ?thesis by (intro b) (simp add: blocks_of_def owned_def)
  qed
  then have "content V' (mf_blocks r) (mf_bytes r)" using c by (simp add: content_def)
  moreover have "file_chain V' d' (mf_blocks r) (mf_indirect r)"
    using e f(2) b [of "mf_indirect r"] by (auto simp: entry_ok_def file_chain_def same_node_def blocks_of_def owned_def)
  moreover have "own_ok fb' (mf_blocks r) (mf_indirect r)" using e f(1) by (force simp: entry_ok_def own_ok_def)
  ultimately show ?thesis using e f(2) by (simp add: entry_ok_def same_node_def)
qed

lemma entry_data: "entry_ok V fb d r \<Longrightarrow> b \<in> blocks_of r \<Longrightarrow> 59 \<le> unat b \<and> unat b < unat fb"
  by (auto simp: entry_ok_def own_ok_def blocks_of_def)

lemma entry_size: "entry_ok V fb d r \<Longrightarrow> unat (d_size d) = length (mf_bytes r)"
proof -
  assume e: "entry_ok V fb d r"
  then have "length (mf_bytes r) \<le> BSIZE * MAXFILE" by (auto simp: entry_ok_def file_chain_def content_def)
  then show ?thesis using e by (simp add: entry_ok_def unat_of_nat)
qed

lemma image_ok_put_node: "n < NINODES \<Longrightarrow> image_ok s \<Longrightarrow> image_ok (s\<lparr>img := put_node n d (img s)\<rparr>)"
  using put_node_data [of n] by (auto simp: image_ok_def)

lemma ialloc_world:
  assumes w: "world s R" and l: "length R + 1 < NINODES"
  shows "\<exists>t. mk_ialloc ty s = Some (of_nat (length R + 1), t) \<and> world t (R @ [\<lparr>mf_type = ty, mf_bytes = [], mf_blocks = [], mf_indirect = 0\<rparr>])"
proof -
  define d where "d = \<lparr>d_type = ty, d_major = 0, d_minor = 0, d_nlink = 1, d_size = 0, d_addrs = (\<lambda>_. 0)\<rparr>"
  define r where "r = \<lparr>mf_type = ty, mf_bytes = [], mf_blocks = [], mf_indirect = 0\<rparr>"
  define t where "t = s\<lparr>freeinode := of_nat (length R + 1) + 1, img := put_node (length R + 1) d (img s)\<rparr>"
  have i: "image_ok s" "freeinode s = of_nat (length R + 1)" using w by (auto simp: world_def)
  have a: "mk_ialloc ty s = Some (of_nat (length R + 1), t)"
    using winode_eq [OF l, of "s\<lparr>freeinode := of_nat (length R + 1) + 1\<rparr>" d] image_okD(1) [OF i(1)] i(2) by (simp add: mk_ialloc_def d_def t_def)
  have "entry_ok (img t) (freeblock t) (dnode (img t) (n + 1)) ((R @ [r]) ! n)" if n: "n < length R + 1" for n
  proof (cases "n < length R")
    case True
    have e: "entry_ok (img s) (freeblock s) (dnode (img s) (n + 1)) (R ! n)" using w True by (simp add: world_def)
    have b: "img t b = img s b" if "b \<in> blocks_of (R ! n)" for b
      using entry_data [OF e that] put_node_data [OF l, of b] by (simp add: t_def)
    have "same_node (dnode (img t) (n + 1)) (dnode (img s) (n + 1))" using put_node_other [of "n + 1" "length R + 1" d "img s"] True l by (simp add: t_def)
    then have "entry_ok (img t) (freeblock t) (dnode (img t) (n + 1)) (R ! n)" using entry_frame [OF e _ _ b] by (simp add: t_def)
    then show ?thesis using True by (simp add: nth_append)
  next
    case False
    then have "n = length R" using n by simp
    then show ?thesis using put_node_same [of "length R + 1" d "img s"]
      by (auto simp: t_def r_def d_def same_node_def entry_ok_def file_chain_def own_ok_def owned_def content_def)
  qed
  moreover have "blocks_of r = {}" by (simp add: r_def blocks_of_def owned_def)
  moreover have "image_ok t" using image_ok_put_node [OF l i(1), of d] by (simp add: t_def image_ok_def)
  moreover have "img t 1 = img s 1" "img t 2 = img s 2" using put_node_data [OF l, of _ d "img s"] by (simp_all add: t_def)
  moreover have "blocks_of ((R @ [r]) ! m) \<inter> blocks_of ((R @ [r]) ! n) = {}" if "m < length R + 1" "n < length R + 1" "m \<noteq> n" for m n
    using that w \<open>blocks_of r = {}\<close> by (auto simp: nth_append world_def)
  ultimately have "world t (R @ [r])" using w by (simp add: world_def) (simp add: t_def add.commute)
  then show ?thesis using a by (simp add: r_def)
qed

text \<open>Appending to one file changes that file's bytes and no other file.\<close>

lemma world_update:
  assumes w: "world s R" and n: "n < length R" "length R < NINODES" and f: "file_at s1 d1 bl ib c"
    and g: "grows s (dnode (img s) (n + 1)) (blocks_of (R ! n)) s1 d1 (owned bl ib)"
    and t: "t = s1\<lparr>img := put_node (n + 1) (d1\<lparr>d_size := of_nat (length c)\<rparr>) (img s1)\<rparr>"
  shows "world t (R[n := (R ! n)\<lparr>mf_bytes := c, mf_blocks := bl, mf_indirect := ib\<rparr>])"
proof -
  define r where "r = (R ! n)\<lparr>mf_bytes := c, mf_blocks := bl, mf_indirect := ib\<rparr>"
  define d where "d = d1\<lparr>d_size := of_nat (length c)\<rparr>"
  have n1: "n + 1 < NINODES" using n by simp
  have e: "entry_ok (img s) (freeblock s) (dnode (img s) (m + 1)) (R ! m)" if "m < length R" for m using w that by (simp add: world_def)
  have i1: "image_ok s1" and o: "own_ok (freeblock s1) bl ib" using f by (auto simp: file_at_def)
  have it: "image_ok t" using image_ok_put_node [OF n1 i1] by (simp add: t)
  have own: "59 \<le> unat b" "unat b < unat (freeblock s1)" if "b \<in> owned bl ib" for b using o that by (auto simp: own_ok_def)
  have keep: "img s1 b = img s b" if "b \<notin> owned bl ib" for b using g that by (simp add: grows_def)
  have low: "img s1 b = img s b" if "unat b < 59" for b using keep [of b] own(1) [of b] that by fastforce
  have nodes: "dnode (img s1) (m + 1) = dnode (img s) (m + 1)" if "m < length R" for m
    using that n inode_in [of "m + 1"] low [of "IBLOCK (of_nat (m + 1)) mkfs_sb"] by (simp add: dnode_def)
  have apart: "b \<notin> owned bl ib" if m: "m < length R" "m \<noteq> n" "b \<in> blocks_of (R ! m)" for m b
    using entry_data [OF e [OF m(1)] m(3)] m w n(1) g by (fastforce simp: world_def grows_def)
  have "entry_ok (img t) (freeblock t) (dnode (img t) (m + 1)) (R[n := r] ! m)" if m: "m < length R" for m
  proof (cases "m = n")
    case True
    have q: "d1\<lparr>d_addrs := d_addrs (dnode (img s) (n + 1))\<rparr> = dnode (img s) (n + 1)" using g by (simp add: grows_def)
    have "d_type d1 = mf_type (R ! n)" "d_nlink d1 = 1"
      using e [OF n(1)] arg_cong [OF q, of d_type] arg_cong [OF q, of d_nlink] by (simp_all add: entry_ok_def)
    then have "entry_ok (img s1) (freeblock s1) d r" using f by (simp add: entry_ok_def file_at_def file_chain_def r_def d_def)
    moreover have "img t b = img s1 b" if "b \<in> blocks_of r" for b using own(1) [of b] that put_node_data [OF n1, of b] by (simp add: t blocks_of_def r_def)
    ultimately show ?thesis using entry_frame [of "img s1" "freeblock s1" d r "freeblock t" "dnode (img t) (n + 1)" "img t"] put_node_same True n(1)
      by (simp add: t d_def)
  next
    case False
    have "unat (freeblock s) \<le> unat (freeblock t)" using g by (simp add: t grows_def)
    moreover have "same_node (dnode (img t) (m + 1)) (dnode (img s) (m + 1))"
      using put_node_other [OF _ n1, of "m + 1" d "img s1"] False m n(2) nodes [OF m] by (simp add: t d_def)
    moreover have "img t b = img s b" if "b \<in> blocks_of (R ! m)" for b
      using entry_data [OF e [OF m] that] put_node_data [OF n1, of b] keep [OF apart [OF m False that]] by (simp add: t)
    ultimately show ?thesis using entry_frame [OF e [OF m]] False by simp
  qed
  moreover have "blocks_of (R[n := r] ! m) \<inter> blocks_of (R[n := r] ! k) = {}" if "m < length R" "k < length R" "m \<noteq> k" for m k
    using that w apart by (cases "m = n"; cases "k = n") (auto simp: world_def blocks_of_def r_def)
  moreover have "img t 1 = img s 1" "img t 2 = img s 2" using low [of 1] low [of 2] put_node_data [OF n1, of 1] put_node_data [OF n1, of 2] by (simp_all add: t)
  moreover have "freeinode t = freeinode s" using g by (simp add: t grows_def)
  moreover have "unat (freeblock t) = 59 + sum_list (map (\<lambda>r. card (blocks_of r)) (R[n := r]))"
  proof -
    have "card (blocks_of (R ! n)) \<le> sum_list (map (\<lambda>r. card (blocks_of r)) R)" using n(1) by (intro member_le_sum_list) auto
    moreover have "unat (freeblock s) + card (blocks_of r) = unat (freeblock t) + card (blocks_of (R ! n))"
      using g by (simp add: t grows_def r_def blocks_of_def)
    ultimately show ?thesis using w n(1) by (simp add: map_update sum_list_update world_def)
  qed
  ultimately show ?thesis using w it by (simp add: world_def r_def)
qed

lemma iappend_world:
  assumes w: "world s R" and n: "n < length R" "length R < NINODES" and r: "iappend (of_nat (n + 1)) p s = Some t"
  shows "\<exists>bl ib. world t (R[n := (R ! n)\<lparr>mf_bytes := mf_bytes (R ! n) @ p, mf_blocks := bl, mf_indirect := ib\<rparr>])"
proof -
  let ?d = "dnode (img s) (n + 1)" and ?r = "R ! n"
  have n1: "n + 1 < NINODES" using n by simp
  have i: "image_ok s" and e: "entry_ok (img s) (freeblock s) ?d ?r" using w n(1) by (auto simp: world_def)
  obtain off d1 s1 where l: "iappend_loop (unat (d_size ?d)) p ?d s = Some (off, d1, s1)" and wi: "winode (of_nat (n + 1)) (d1\<lparr>d_size := of_nat off\<rparr>) s1 = Some t"
    using r rinode_eq [OF n1 image_okD(1) [OF i]] by (auto simp: iappend_def bind_eq_Some_conv)
  have "file_at s ?d (mf_blocks ?r) (mf_indirect ?r) (mf_bytes ?r)" using e i by (simp add: file_at_def entry_ok_def)
  from iappend_loop_spec [OF l this entry_size [OF e]]
  obtain bl ib where f: "file_at s1 d1 bl ib (mf_bytes ?r @ p)" and g: "grows s ?d (blocks_of ?r) s1 d1 (owned bl ib)" and off: "off = length (mf_bytes ?r @ p)"
    unfolding blocks_of_def by auto
  have "image_ok s1" using f by (simp add: file_at_def)
  then have t: "t = s1\<lparr>img := put_node (n + 1) (d1\<lparr>d_size := of_nat (length (mf_bytes ?r @ p))\<rparr>) (img s1)\<rparr>"
    using wi winode_eq [OF n1 image_okD(1)] off by simp
  show ?thesis using world_update [OF w n f g t] by blast
qed

text \<open>The files alone, inode 1 first.\<close>

definition files_are :: "image \<Rightarrow> (ushort \<times> uchar list) list \<Rightarrow> bool" where
  "files_are s C \<longleftrightarrow> (\<exists>R. world s R \<and> map (\<lambda>r. (mf_type r, mf_bytes r)) R = C)"

lemma ialloc_files:
  assumes "files_are s C" "length C + 1 < NINODES"
  shows "\<exists>t. mk_ialloc ty s = Some (of_nat (length C + 1), t) \<and> files_are t (C @ [(ty, [])])"
proof -
  obtain R where R: "world s R" "map (\<lambda>r. (mf_type r, mf_bytes r)) R = C" using assms(1) by (auto simp: files_are_def)
  then have "length R = length C" by auto
  then obtain t where "mk_ialloc ty s = Some (of_nat (length C + 1), t)" "world t (R @ [\<lparr>mf_type = ty, mf_bytes = [], mf_blocks = [], mf_indirect = 0\<rparr>])"
    using ialloc_world [OF R(1)] assms(2) by auto
  then show ?thesis using R(2) unfolding files_are_def by (intro exI [of _ t] conjI exI) auto
qed

lemma iappend_files:
  assumes "files_are s C" "n < length C" "length C < NINODES" "iappend (of_nat (n + 1)) p s = Some t"
  shows "files_are t (C[n := (fst (C ! n), snd (C ! n) @ p)])"
proof -
  obtain R where R: "world s R" "map (\<lambda>r. (mf_type r, mf_bytes r)) R = C" using assms(1) by (auto simp: files_are_def)
  then have l: "length R = length C" by auto
  then obtain bl ib where w: "world t (R[n := (R ! n)\<lparr>mf_bytes := mf_bytes (R ! n) @ p, mf_blocks := bl, mf_indirect := ib\<rparr>])"
    using iappend_world [OF R(1) _ _ assms(4)] assms(2,3) by auto
  have "C ! n = (mf_type (R ! n), mf_bytes (R ! n))" using R(2) l assms(2) by auto
  then have "map (\<lambda>r. (mf_type r, mf_bytes r)) (R[n := (R ! n)\<lparr>mf_bytes := mf_bytes (R ! n) @ p, mf_blocks := bl, mf_indirect := ib\<rparr>])
    = C[n := (fst (C ! n), snd (C ! n) @ p)]" using R(2) by (simp add: map_update)
  then show ?thesis using w unfolding files_are_def by blast
qed

lemma copy_file_files:
  assumes "files_are s C" "n < length C" "length C < NINODES" "copy_file (of_nat (n + 1)) b s = Some t"
  shows "files_are t (C[n := (fst (C ! n), snd (C ! n) @ b)])"
  using assms
proof (induction "of_nat (n + 1) :: uint" b s arbitrary: C rule: copy_file.induct)
  case (1 b s)
  show ?case
  proof (cases "b = []")
    case True
    then show ?thesis using 1(2-5) by (subst (asm) copy_file.simps) auto
  next
    case False
    then obtain u where u: "iappend (of_nat (n + 1)) (take BSIZE b) s = Some u" "copy_file (of_nat (n + 1)) (drop BSIZE b) u = Some t"
      using 1(5) by (subst (asm) copy_file.simps) (auto simp: bind_eq_Some_conv)
    show ?thesis using 1(1) [OF False u(1) iappend_files [OF 1(2-4) u(1)] _ _ u(2)] 1(3,4) by simp
  qed
qed

text \<open>The entries of the root directory for the files from inode \<open>k\<close> on.\<close>

fun listing :: "nat \<Rightarrow> mkfs_arg list \<Rightarrow> uchar list" where
  "listing k [] = []"
| "listing k (a # as) = dirent_bytes (of_nat k) (target_name (fst a)) @ listing (k + 1) as"

lemma add_file_files:
  assumes f: "files_are s ((ty, dir) # F)" and l: "length F + 2 < NINODES" and r: "add_file 1 (path, b) s = Some t"
  shows "b \<noteq> None" "files_are t ((ty, dir @ dirent_bytes (of_nat (length F + 2)) (target_name path)) # F @ [(T_FILE, the b)])"
proof -
  let ?n = "length F + 1"
  obtain u where u: "mk_ialloc T_FILE s = Some (of_nat (?n + 1), u)" "files_are u ((ty, dir) # F @ [(T_FILE, [])])"
    using ialloc_files [OF f, of T_FILE] l by auto
  then obtain c v where c: "b = Some c" and v: "iappend 1 (dirent_bytes (of_nat (?n + 1)) (target_name path)) u = Some v" "copy_file (of_nat (?n + 1)) c v = Some t"
    using r by (auto simp: add_file_def bind_eq_Some_conv split: if_splits)
  have "files_are v ((ty, dir @ dirent_bytes (of_nat (?n + 1)) (target_name path)) # F @ [(T_FILE, [])])"
    using iappend_files [OF u(2), of 0 _ v] v(1) l by simp
  from copy_file_files [OF this _ _ v(2)]
  show "files_are t ((ty, dir @ dirent_bytes (of_nat (length F + 2)) (target_name path)) # F @ [(T_FILE, the b)])"
    using l c by (simp add: nth_append)
  show "b \<noteq> None" using c by simp
qed

lemma add_files_files:
  assumes "files_are s ((ty, dir) # F)" "length F + length args + 1 < NINODES" "add_files 1 args s = Some t"
  shows "files_are t ((ty, dir @ listing (length F + 2) args) # F @ map (\<lambda>a. (T_FILE, the (snd a))) args) \<and> (\<forall>a\<in>set args. snd a \<noteq> None)"
  using assms
proof (induction args arbitrary: s dir F)
  case (Cons a args)
  obtain u where u: "add_file 1 (fst a, snd a) s = Some u" "add_files 1 args u = Some t" using Cons.prems(3) by (auto simp: bind_eq_Some_conv)
  have "length F + 2 < NINODES" using Cons.prems(2) by simp
  note a = add_file_files [OF Cons.prems(1) this u(1)]
  show ?case using Cons.IH [OF a(2) _ u(2)] Cons.prems(2) a(1) by simp
qed simp

section \<open>Room\<close>

text \<open>The blocks that a file of \<open>n\<close> bytes takes, its indirect block included.\<close>

definition blocks_for :: "nat \<Rightarrow> nat" where
  "blocks_for n = (let k = (n + BSIZE - 1) div BSIZE in k + of_bool (NDIRECT < k))"

lemma blocks_for_mono: "m \<le> n \<Longrightarrow> blocks_for m \<le> blocks_for n"
proof -
  assume "m \<le> n"
  then have "(m + BSIZE - 1) div BSIZE \<le> (n + BSIZE - 1) div BSIZE" by (intro div_le_mono) simp
  then show ?thesis by (auto simp: blocks_for_def Let_def)
qed

lemma content_length:
  assumes "content V bl c"
  shows "length bl = (length c + BSIZE - 1) div BSIZE"
proof -
  have "length c \<le> BSIZE * length bl" "BSIZE * length bl < length c + BSIZE" using assms by (auto simp: content_def)
  then show ?thesis by (intro div_nat_eqI [symmetric]) auto
qed

lemma owned_blocks_for: "own_ok fb bl ib \<Longrightarrow> content V bl c \<Longrightarrow> card (owned bl ib) = blocks_for (length c)"
  using content_length by (fastforce simp: card_owned blocks_for_def Let_def)

lemma iappend_block_returns:
  assumes i: "image_ok s" and c: "file_chain (img s) d bl ib" and o: "own_ok (freeblock s) bl ib" and k: "k \<le> length bl"
    and r: "k = length bl \<Longrightarrow> unat (freeblock s) + 1 + of_bool (k = NDIRECT) \<le> 1000" and m: "k < MAXFILE"
  shows "\<exists>x d' s' buf. iappend_block k d s = Some (x, d', s') \<and> rsect x s' = Some buf"
proof (cases "k < length bl")
  case True
  have "unat (bl ! k) < unat (freeblock s)" using o nth_mem [OF True] by (auto simp: own_ok_def owned_def)
  then show ?thesis using iappend_block_old [OF i c o True] image_okD(1,3) [OF i] by simp
next
  case False
  then have k: "k = length bl" using k by simp
  note f = image_okD [OF i]
  have a: "k < NDIRECT \<Longrightarrow> d_addrs d k = 0" "k = NDIRECT \<Longrightarrow> d_addrs d NDIRECT = 0" "NDIRECT < k \<Longrightarrow> d_addrs d NDIRECT = ib"
    "NDIRECT < k \<Longrightarrow> load32 (img s ib) (4 * (k - NDIRECT)) = 0" using c k m by (auto simp: file_chain_def)
  have ib: "NDIRECT < k \<Longrightarrow> unat ib < unat (freeblock s) \<and> ib \<noteq> 0" using o k by (auto simp: own_ok_def owned_def)
  show ?thesis
  proof (cases k NDIRECT rule: linorder_cases)
    case less
    then show ?thesis using a(1) r k f(1) by (simp add: iappend_block_def)
  next
    case equal
    then show ?thesis using a(2) r k f(1,4,6,7) by (simp add: iappend_block_def load_zero_block)
  next
    case greater
    then show ?thesis using a(3,4) ib r k f(1,3) by (simp add: iappend_block_def)
  qed
qed

lemma blocks_for_next: "length c = BSIZE * k \<Longrightarrow> 0 < n \<Longrightarrow> blocks_for (length c) + 1 + of_bool (k = NDIRECT) \<le> blocks_for (length c + n)"
proof -
  assume a: "length c = BSIZE * k" "0 < n"
  have "(BSIZE * k + BSIZE - 1) div BSIZE = k" "(BSIZE * k + 1 + BSIZE - 1) div BSIZE = k + 1" by (rule div_nat_eqI; simp)+
  then have "blocks_for (length c) + 1 + of_bool (k = NDIRECT) = blocks_for (length c + 1)" by (auto simp: blocks_for_def Let_def a(1))
  also have "\<dots> \<le> blocks_for (length c + n)" using a(2) by (intro blocks_for_mono) simp
  finally show ?thesis .
qed

lemma iappend_loop_returns:
  assumes "file_at s d bl ib c" "off = length c" "off + length p \<le> BSIZE * MAXFILE" "unat (freeblock s) + blocks_for (off + length p) \<le> 1000 + blocks_for off"
  shows "\<exists>r. iappend_loop off p d s = Some r"
  using assms
proof (induction off p d s arbitrary: bl ib c rule: iappend_loop.induct)
  case (1 off p d s)
  show ?case
  proof (cases "p = []")
    case True
    then show ?thesis by (subst iappend_loop.simps) simp
  next
    case False
    let ?k = "off div BSIZE"
    define n where "n = min (length p) ((?k + 1) * BSIZE - off)"
    have f: "image_ok s" "file_chain (img s) d bl ib" "own_ok (freeblock s) bl ib" "content (img s) bl c" using 1(2) by (auto simp: file_at_def)
    have k: "?k < MAXFILE" using 1(4) False by (intro less_mult_imp_div_less) (cases p, auto)
    have l: "length c \<le> BSIZE * length bl" "BSIZE * length bl < length c + BSIZE" using f(4) by (auto simp: content_def)
    have kl: "?k \<le> length bl" using l(1) 1(3) by (metis div_le_mono nonzero_mult_div_cancel_left zero_neq_numeral)
    have "length c = BSIZE * ?k" if "?k = length bl"
    proof -
      have "BSIZE * ?k \<le> length c" using 1(3) by simp
      then show ?thesis using l(1) that by linarith
    qed
    then have "unat (freeblock s) + 1 + of_bool (?k = NDIRECT) \<le> 1000" if "?k = length bl"
      using blocks_for_next [of c ?k "length p"] 1(3,5) False that by simp
    then obtain x d1 s1 buf where b: "iappend_block ?k d s = Some (x, d1, s1)" "rsect x s1 = Some buf"
      using iappend_block_returns [OF f(1-3) kl _ k] by blast
    let ?s2 = "wsect x (blit 0 (nth p) (off - ?k * BSIZE) n buf) s1"
    obtain bl' ib' where w: "file_at ?s2 d1 bl' ib' (c @ take n p)" "grows s d (owned bl ib) ?s2 d1 (owned bl' ib')" and n: "n \<le> length p" "0 < n"
      using iappend_step [OF 1(2,3) False k b n_def refl] by blast
    have "card (owned bl ib) = blocks_for off" "card (owned bl' ib') = blocks_for (off + n)"
      using owned_blocks_for f(3,4) w(1) 1(3) n(1) by (auto simp: file_at_def min_def)
    then have "unat (freeblock ?s2) + blocks_for (off + n + length (drop n p)) \<le> 1000 + blocks_for (off + n)"
      using w(2) 1(5) n by (simp add: grows_def)
    then obtain r where "iappend_loop (off + n) (drop n p) d1 ?s2 = Some r"
      using 1(1) [OF False refl k b(1) refl refl n_def b(2) refl w(1)] 1(3,4) n by auto
    then show ?thesis using b k False by (cases r, subst iappend_loop.simps) (simp add: Let_def n_def)
  qed
qed

text \<open>The counter of free blocks when the files are \<open>C\<close>, and whether \<open>p\<close> can be appended to file \<open>n\<close>.\<close>

definition filled :: "(ushort \<times> uchar list) list \<Rightarrow> nat" where
  "filled C = nmeta + sum_list (map (\<lambda>x. blocks_for (length (snd x))) C)"

definition room :: "(ushort \<times> uchar list) list \<Rightarrow> nat \<Rightarrow> nat \<Rightarrow> bool" where
  "room C n k \<longleftrightarrow> length (snd (C ! n)) + k \<le> BSIZE * MAXFILE
     \<and> filled C + blocks_for (length (snd (C ! n)) + k) \<le> FS_SIZE + blocks_for (length (snd (C ! n)))"

lemma filled_update:
  assumes "n < length C"
  shows "filled (C[n := x]) + blocks_for (length (snd (C ! n))) = filled C + blocks_for (length (snd x))"
proof -
  have "blocks_for (length (snd (C ! n))) \<le> sum_list (map (\<lambda>x. blocks_for (length (snd x))) C)" using assms by (intro member_le_sum_list) auto
  then show ?thesis using assms by (simp add: filled_def map_update sum_list_update)
qed

lemma files_filled:
  assumes "files_are s C"
  shows "unat (freeblock s) = filled C" "filled C \<le> FS_SIZE" "x \<in> set C \<Longrightarrow> length (snd x) \<le> BSIZE * MAXFILE"
proof -
  obtain R where R: "world s R" "map (\<lambda>r. (mf_type r, mf_bytes r)) R = C" using assms by (auto simp: files_are_def)
  have e: "\<exists>d. entry_ok (img s) (freeblock s) d r" if "r \<in> set R" for r using R(1) that by (auto simp: world_def in_set_conv_nth)
  have "card (blocks_of r) = blocks_for (length (mf_bytes r))" if "r \<in> set R" for r
    using e [OF that] owned_blocks_for by (auto simp: entry_ok_def blocks_of_def)
  then have "map (\<lambda>r. card (blocks_of r)) R = map (\<lambda>x. blocks_for (length (snd x))) C" unfolding R(2) [symmetric] by simp
  then show f: "unat (freeblock s) = filled C" using R(1) by (simp add: world_def filled_def)
  show "filled C \<le> FS_SIZE" unfolding f [symmetric] using R(1) by (simp add: world_def image_ok_def)
  show "length (snd x) \<le> BSIZE * MAXFILE" if "x \<in> set C"
    using e that unfolding R(2) [symmetric] by (fastforce simp: entry_ok_def file_chain_def content_def)
qed

lemma iappend_returns:
  assumes f: "files_are s C" and n: "n < length C" "length C < NINODES" and r: "room C n (length p)"
  shows "\<exists>t. iappend (of_nat (n + 1)) p s = Some t"
proof -
  obtain R where R: "world s R" "map (\<lambda>r. (mf_type r, mf_bytes r)) R = C" using f by (auto simp: files_are_def)
  then have l: "length R = length C" and b: "snd (C ! n) = mf_bytes (R ! n)" using n(1) by auto
  let ?d = "dnode (img s) (n + 1)"
  have n1: "n + 1 < NINODES" using n by simp
  have i: "image_ok s" and e: "entry_ok (img s) (freeblock s) ?d (R ! n)" using R(1) n(1) l by (auto simp: world_def)
  have at: "file_at s ?d (mf_blocks (R ! n)) (mf_indirect (R ! n)) (mf_bytes (R ! n))" using e i by (simp add: file_at_def entry_ok_def)
  obtain off d1 s1 where lp: "iappend_loop (unat (d_size ?d)) p ?d s = Some (off, d1, s1)"
    using iappend_loop_returns [OF at entry_size [OF e], of p] r files_filled(1) [OF f] unfolding room_def b entry_size [OF e] by (auto simp del: One_nat_def)
  then have "image_ok s1" using iappend_loop_spec [OF lp at entry_size [OF e]] by (auto simp: file_at_def)
  then show ?thesis using lp rinode_eq [OF n1 image_okD(1) [OF i]] winode_eq [OF n1 image_okD(1)] by (simp add: iappend_def)
qed

lemma room_part:
  assumes r: "room C n (j + k)" and n: "n < length C"
  shows "room C n j" "length p = j \<Longrightarrow> room (C[n := (ty, snd (C ! n) @ p)]) n k"
proof -
  have "blocks_for (length (snd (C ! n)) + j) \<le> blocks_for (length (snd (C ! n)) + (j + k))" by (rule blocks_for_mono) simp
  then show "room C n j" using r by (simp add: room_def)
  show "room (C[n := (ty, snd (C ! n) @ p)]) n k" if "length p = j"
    using r filled_update [OF n, of "(ty, snd (C ! n) @ p)"] n that by (simp add: room_def add.assoc)
qed

lemma copy_file_returns:
  assumes "files_are s C" "n < length C" "length C < NINODES" "room C n (length b)"
  shows "\<exists>t. copy_file (of_nat (n + 1)) b s = Some t"
  using assms
proof (induction "of_nat (n + 1) :: uint" b s arbitrary: C rule: copy_file.induct)
  case (1 b s)
  show ?case
  proof (cases "b = []")
    case True
    then show ?thesis by (subst copy_file.simps) simp
  next
    case False
    have r: "room C n (length (take BSIZE b) + length (drop BSIZE b))" using 1(5) by (metis append_take_drop_id length_append)
    obtain u where u: "iappend (of_nat (n + 1)) (take BSIZE b) s = Some u" using iappend_returns [OF 1(2-4) room_part(1) [OF r 1(3)]] by blast
    show ?thesis using 1(1) [OF False u iappend_files [OF 1(2-4) u] _ _ room_part(2) [OF r 1(3) refl]] 1(3,4) False u
      by (subst copy_file.simps) simp
  qed
qed

lemma filled_Cons: "filled (x # C) = filled C + blocks_for (length (snd x))" "filled (C @ D) + nmeta = filled C + filled D"
  by (simp_all add: filled_def)

lemma blocks_for_0 [simp]: "blocks_for 0 = 0"
  by (simp add: blocks_for_def)

lemma length_dirent_bytes [simp]: "length (dirent_bytes i name) = 16"
  by (simp add: dirent_bytes_def)

lemma length_listing [simp]: "length (listing k args) = 16 * length args"
  by (induction k args rule: listing.induct) simp_all

lemma add_file_returns:
  assumes f: "files_are s ((ty, dir) # F)" and l: "length F + 2 < NINODES" and p: "47 \<notin> set path"
    and r: "filled ((ty, dir @ e) # F @ [(T_FILE, b)]) \<le> FS_SIZE" "length (dir @ e) \<le> BSIZE * MAXFILE" "length b \<le> BSIZE * MAXFILE" "length e = 16"
  shows "\<exists>t. add_file 1 (path, Some b) s = Some t"
proof -
  let ?n = "length F + 1" and ?e = "dirent_bytes (of_nat (length F + 2)) (target_name path)"
  obtain u where u: "mk_ialloc T_FILE s = Some (of_nat (?n + 1), u)" "files_are u ((ty, dir) # F @ [(T_FILE, [])])"
    using ialloc_files [OF f, of T_FILE] l by auto
  have "room ((ty, dir) # F @ [(T_FILE, [])]) 0 (length ?e)" using r by (simp add: room_def filled_def)
  then obtain v where v: "iappend 1 ?e u = Some v" using iappend_returns [OF u(2), of 0 ?e] l by auto
  then have fv: "files_are v ((ty, dir @ ?e) # F @ [(T_FILE, [])])" using iappend_files [OF u(2), of 0 _ v] l by simp
  have "room ((ty, dir @ ?e) # F @ [(T_FILE, [])]) ?n (length b)" using r by (simp add: room_def filled_def nth_append)
  then obtain t where "copy_file (of_nat (?n + 1)) b v = Some t" using copy_file_returns [OF fv, of ?n b] l by auto
  then show ?thesis using u(1) v p by (simp add: add_file_def)
qed

lemma add_files_returns:
  assumes "files_are s ((ty, dir) # F)" "length F + length args + 1 < NINODES"
    "filled ((ty, dir @ listing (length F + 2) args) # F @ map (\<lambda>a. (T_FILE, the (snd a))) args) \<le> FS_SIZE" "length dir + 16 * length args \<le> BSIZE * MAXFILE"
    "\<forall>a\<in>set args. 47 \<notin> set (fst a) \<and> snd a \<noteq> None \<and> length (the (snd a)) \<le> BSIZE * MAXFILE"
  shows "\<exists>t. add_files 1 args s = Some t"
  using assms
proof (induction args arbitrary: s dir F)
  case (Cons a args)
  let ?e = "dirent_bytes (of_nat (length F + 2)) (target_name (fst a))" and ?b = "the (snd a)"
  have a: "a = (fst a, Some ?b)" and l: "length F + 2 < NINODES" using Cons.prems by (cases a, auto)
  have "blocks_for (length (dir @ ?e)) \<le> blocks_for (length (dir @ listing (length F + 2) (a # args)))" by (rule blocks_for_mono) simp
  then have "filled ((ty, dir @ ?e) # F @ [(T_FILE, ?b)]) \<le> FS_SIZE" using Cons.prems(3) by (simp add: filled_def)
  then obtain u where u: "add_file 1 (fst a, Some ?b) s = Some u"
    using add_file_returns [OF Cons.prems(1) l, of "fst a" ?e ?b] Cons.prems(4,5) by auto
  have f: "files_are u ((ty, dir @ ?e) # F @ [(T_FILE, ?b)])" using add_file_files(2) [OF Cons.prems(1) l u] by simp
  have "\<exists>t. add_files 1 args u = Some t" using Cons.IH [OF f] Cons.prems(2-5) by simp
  then show ?case using u a by simp
qed simp

section \<open>The finished image\<close>

lemma blank_sectors:
  assumes "n \<le> FS_SIZE"
  shows "fold (\<lambda>i. wsect (of_nat i) (\<lambda>_. 0)) [0..<n] \<lparr>img = (\<lambda>_ _. 0), sectors = 0, freeinode = i, freeblock = b\<rparr>
    = \<lparr>img = (\<lambda>_ _. 0), sectors = n, freeinode = i, freeblock = b\<rparr>"
  using assms
proof (induction n)
  case (Suc n)
  then have "sector (of_nat n) = of_nat n" "unat (of_nat n :: uint) = n" by (simp_all add: unat_of_nat)
  then show ?case using Suc by (simp add: wsect_def fun_upd_idem)
qed simp

lemma blank_files: "files_are blank []"
proof -
  have b: "blank = \<lparr>img = (\<lambda>_ _. 0)(1 := sb_block), sectors = 1000, freeinode = 1, freeblock = 59\<rparr>"
    unfolding blank_def by (subst blank_sectors) simp_all
  have "world blank []" by (auto simp: world_def image_ok_def b)
  then show ?thesis by (auto simp: files_are_def)
qed

text \<open>The inode that the kernel's \<^verbatim>\<open>ilock\<close> loads from the image, and what it says of a file.\<close>

definition boot_inode :: "(uint \<Rightarrow> block) \<Rightarrow> superblock \<Rightarrow> nat \<Rightarrow> inode" where
  "boot_inode V sb n = load_inode (get_dinode (V (IBLOCK (of_nat n) sb)) (unat ((of_nat n :: uint) mod IPB)))
     \<lparr>i_dev = 1, i_inum = of_nat n, i_ref = 1, i_flags = I_VALID, i_type = 0, i_major = 0, i_minor = 0, i_nlink = 0, i_size = 0, i_addrs = (\<lambda>_. 0)\<rparr>"

definition holds_file :: "superblock \<Rightarrow> (uint \<Rightarrow> block) \<Rightarrow> nat \<Rightarrow> ushort \<Rightarrow> uchar list \<Rightarrow> bool" where
  "holds_file sb V n ty c \<longleftrightarrow> (let i = boot_inode V sb n in
     i_type i = ty \<and> i_nlink i = 1 \<and> file_wf sb V i \<and> map (fbyte V i) [0..<length c] = c)"

lemma boot_inode_dnode:
  "i_dev (boot_inode V mkfs_sb n) = 1" "i_inum (boot_inode V mkfs_sb n) = of_nat n" "i_type (boot_inode V mkfs_sb n) = d_type (dnode V n)"
  "i_nlink (boot_inode V mkfs_sb n) = d_nlink (dnode V n)" "i_size (boot_inode V mkfs_sb n) = d_size (dnode V n)"
  "k < 13 \<Longrightarrow> i_addrs (boot_inode V mkfs_sb n) k = d_addrs (dnode V n) k"
  by (simp_all add: boot_inode_def dnode_def load_inode_def)

lemma chain_ptr:
  assumes "file_chain V (dnode V n) bl ib" and "NDIRECT < length bl \<Longrightarrow> ib \<noteq> 0" and k: "k \<le> MAXFILE"
  shows "ptr V (boot_inode V mkfs_sb n) k = (if k = MAXFILE then if NDIRECT < length bl then ib else 0 else if k < length bl then bl ! k else 0)"
proof -
  consider "k < NDIRECT" | j where "k = j + NDIRECT" "j < NINDIRECT" | "k = MAXFILE"
    using k le_Suc_ex [of NDIRECT k] by (cases "k < NDIRECT") (auto simp: not_less add.commute le_less)
  then show ?thesis using assms by cases (auto simp: ptr_def file_chain_def boot_inode_dnode)
qed

lemma mkfs_data_block: "59 \<le> unat b \<Longrightarrow> unat b < 1000 \<Longrightarrow> data_block mkfs_sb b"
proof -
  assume b: "59 \<le> unat b" "unat b < 1000"
  have "b \<notin> inode_blocks mkfs_sb" using fresh_meta(2) b by (auto simp: mkfs_sb_fresh word_less_nat_alt word_le_nat_alt)
  moreover have "b \<notin> log_area mkfs_sb" using b by (auto simp: mkfs_sb_def log_area_def word_less_nat_alt word_le_nat_alt)
  moreover have "b \<notin> {0, 1}" "b \<notin> bitmap_blocks mkfs_sb" using b by (auto simp: mkfs_sb_fresh fresh_meta(1))
  moreover have "b < sb_size mkfs_sb" using b by (simp add: mkfs_sb_def word_less_nat_alt)
  ultimately show ?thesis by (simp add: data_block_def)
qed

lemma entry_holds:
  assumes e: "entry_ok V fb ((dnode V n)\<lparr>d_size := z\<rparr>) r" and n: "n < NINODES" and fb: "unat fb \<le> 1000"
    and u: "\<And>b. 59 \<le> unat b \<Longrightarrow> unat b < unat fb \<Longrightarrow> used mkfs_sb V b"
  shows "holds_file mkfs_sb V n (mf_type r) (mf_bytes r)"
    "k \<le> MAXFILE \<Longrightarrow> ptr V (boot_inode V mkfs_sb n) k \<noteq> 0 \<Longrightarrow> ptr V (boot_inode V mkfs_sb n) k \<in> blocks_of r"
proof -
  let ?bl = "mf_blocks r" and ?ib = "mf_indirect r" and ?i = "boot_inode V mkfs_sb n"
  have c: "file_chain V (dnode V n) ?bl ?ib" and o: "own_ok fb ?bl ?ib" and ct: "content V ?bl (mf_bytes r)" and l: "length ?bl \<le> MAXFILE"
    using e by (auto simp: entry_ok_def file_chain_def)
  have "NDIRECT < length ?bl \<longrightarrow> ?ib \<noteq> 0" using o by (auto simp: own_ok_def owned_def)
  then have p: "ptr V ?i k = (if k = MAXFILE then if NDIRECT < length ?bl then ?ib else 0 else if k < length ?bl then ?bl ! k else 0)" if "k \<le> MAXFILE" for k
    using chain_ptr [OF c _ that] by blast
  show in_blocks: "ptr V ?i k \<in> blocks_of r" if "k \<le> MAXFILE" "ptr V ?i k \<noteq> 0" for k
    using p [OF that(1)] that(2) by (auto simp: blocks_of_def owned_def split: if_splits)
  have ib: "\<forall>x<length ?bl. NDIRECT < length ?bl \<longrightarrow> ?ib \<noteq> ?bl ! x" "distinct ?bl" using o by (auto simp: own_ok_def)
  have "k = j" if m: "k \<le> MAXFILE" "j \<le> MAXFILE" and q: "ptr V ?i k \<noteq> 0" "ptr V ?i k = ptr V ?i j" for k j
  proof (cases "k = MAXFILE \<or> j = MAXFILE")
    case True
    then show ?thesis using q ib(1) unfolding p [OF m(1)] p [OF m(2)] by (force split: if_splits)
  next
    case False
    then show ?thesis using q ib(2) nth_eq_iff_index_eq [of ?bl k j] unfolding p [OF m(1)] p [OF m(2)] by (simp split: if_splits)
  qed
  moreover have "data_block mkfs_sb (ptr V ?i k) \<and> used mkfs_sb V (ptr V ?i k)" if "k \<le> MAXFILE" "ptr V ?i k \<noteq> 0" for k
    using entry_data [OF e in_blocks [OF that]] mkfs_data_block u fb by auto
  moreover have "i_inum ?i < sb_ninodes mkfs_sb" using n unfolding boot_inode_dnode by (simp add: mkfs_sb_def word_less_nat_alt unat_of_nat)
  ultimately have wf: "file_wf mkfs_sb V ?i" unfolding file_wf_def boot_inode_dnode(1) by blast
  have "fbyte V ?i x = mf_bytes r ! x" if "x < length (mf_bytes r)" for x
  proof -
    have x: "x div BSIZE < length ?bl" using that ct by (simp add: content_def less_mult_imp_div_less mult.commute)
    then show ?thesis using p [of "x div BSIZE"] l ct that by (simp add: fbyte_def content_def)
  qed
  then have "map (fbyte V ?i) [0..<length (mf_bytes r)] = mf_bytes r" by (intro nth_equalityI) simp_all
  then show "holds_file mkfs_sb V n (mf_type r) (mf_bytes r)" using wf e by (simp add: holds_file_def Let_def entry_ok_def boot_inode_dnode)
qed

lemma bm_fold: "bm_get (fold bm_set [0..<n] (\<lambda>_. 0)) j \<longleftrightarrow> j < n"
  by (induction n) (auto simp: bm_get_bit [of "\<lambda>_. 0"])

text \<open>The last two writes: the size of the root directory and the bit map.\<close>

definition finish :: "image \<Rightarrow> image" where
  "finish s = s\<lparr>img := (put_node 1 ((dnode (img s) 1)\<lparr>d_size := (d_size (dnode (img s) 1) div 512 + 1) * 512\<rparr>) (img s))
     (58 := fold bm_set [0..<unat (freeblock s)] (\<lambda>_. 0))\<rparr>"

lemma finish_used:
  assumes "image_ok s" "unat b < 1000"
  shows "used mkfs_sb (img (finish s)) b \<longleftrightarrow> unat b < unat (freeblock s)"
proof -
  have "BBLOCK b mkfs_sb \<in> bitmap_blocks mkfs_sb" using assms(2) by (auto simp: bitmap_blocks_def mkfs_sb_def word_less_nat_alt)
  then have "BBLOCK b mkfs_sb = 58" by (simp add: mkfs_sb_fresh fresh_meta)
  then show ?thesis using assms(2) by (simp add: used_def finish_def bm_fold)
qed

lemma finish_entry:
  assumes w: "world s R" and n: "n < length R" "length R < NINODES"
  defines "V \<equiv> img (finish s)"
  shows "entry_ok V (freeblock s) ((dnode V (n + 1))\<lparr>d_size := of_nat (length (mf_bytes (R ! n)))\<rparr>) (R ! n)" (is "entry_ok V ?fb ?d ?r")
    "n \<noteq> 0 \<Longrightarrow> d_size (dnode V (n + 1)) = of_nat (length (mf_bytes (R ! n)))"
proof -
  let ?W = "put_node 1 ((dnode (img s) 1)\<lparr>d_size := (d_size (dnode (img s) 1) div 512 + 1) * 512\<rparr>) (img s)"
  have e: "entry_ok (img s) (freeblock s) (dnode (img s) (n + 1)) (R ! n)" using w n by (simp add: world_def)
  have n1: "n + 1 < NINODES" "(1 :: nat) < NINODES" using n by simp_all
  have "IBLOCK (of_nat (n + 1)) mkfs_sb \<noteq> 58" using inode_in [OF n1(1)] by auto
  then have v: "dnode V (n + 1) = dnode ?W (n + 1)" by (simp add: dnode_def V_def finish_def)
  have b: "V b = img s b" if "b \<in> blocks_of (R ! n)" for b
    using entry_data [OF e that] put_node_data [OF n1(2), of b] by (auto simp: V_def finish_def)
  have "same_node ?d (dnode (img s) (n + 1))"
  proof (cases n)
    case 0
    then show ?thesis using put_node_same [of 1 _ "img s"] e unfolding v by (simp add: same_node_def entry_ok_def)
  next
    case (Suc m)
    then show ?thesis using put_node_other [OF n1, of _ "img s"] e unfolding v by (simp add: same_node_def entry_ok_def)
  qed
  then show "entry_ok V ?fb ?d ?r" using entry_frame [OF e _ _ b] by simp
  show "d_size (dnode V (n + 1)) = of_nat (length (mf_bytes (R ! n)))" if "n \<noteq> 0"
    using put_node_other [OF n1, of _ "img s"] that e unfolding v by (simp add: same_node_def entry_ok_def)
qed

lemma finish_ok:
  assumes "image_ok s"
  shows "free_blocks mkfs_sb (img (finish s)) = {b. freeblock s \<le> b \<and> b < 1000}" "fs_ok 1000 mkfs_sb (img (finish s))"
proof -
  have fb: "59 \<le> unat (freeblock s)" using image_okD(2) [OF assms] .
  show f: "free_blocks mkfs_sb (img (finish s)) = {b. freeblock s \<le> b \<and> b < 1000}"
  proof (rule set_eqI)
    fix b
    show "b \<in> free_blocks mkfs_sb (img (finish s)) \<longleftrightarrow> b \<in> {b. freeblock s \<le> b \<and> b < 1000}"
    proof (cases "unat b < 1000")
      case True
      then show ?thesis using finish_used [OF assms True] by (simp add: free_blocks_def mkfs_sb_fresh fresh_sb_def word_less_nat_alt word_le_nat_alt not_less)
    qed (simp add: free_blocks_def mkfs_sb_fresh fresh_sb_def word_less_nat_alt)
  qed
  have "data_block mkfs_sb b" if "b \<in> free_blocks mkfs_sb (img (finish s))" for b
    using that fb unfolding f by (intro mkfs_data_block) (auto simp: word_less_nat_alt word_le_nat_alt)
  then have "free_blocks mkfs_sb (img (finish s)) \<inter> (bitmap_blocks mkfs_sb \<union> inode_blocks mkfs_sb \<union> log_area mkfs_sb \<union> {0, 1}) = {}"
    by (auto simp: data_block_def)
  then show "fs_ok 1000 mkfs_sb (img (finish s))" using fresh_ok(1) by (simp add: fs_ok_def mkfs_sb_fresh)
qed

text \<open>The files that the arguments ask for, and whether there is room for them.\<close>

definition root_bytes :: "mkfs_arg list \<Rightarrow> uchar list" where
  "root_bytes args = dirent_bytes 1 [46] @ dirent_bytes 1 [46, 46] @ listing 2 args"

definition fits :: "mkfs_arg list \<Rightarrow> bool" where
  "fits args \<longleftrightarrow> (\<forall>(path, b)\<in>set args. 47 \<notin> set path \<and> b \<noteq> None \<and> length (the b) \<le> BSIZE * MAXFILE)
     \<and> nmeta + blocks_for (16 * (length args + 2)) + sum_list (map (\<lambda>(path, b). blocks_for (length (the b))) args) \<le> FS_SIZE"

definition files_for :: "mkfs_arg list \<Rightarrow> (ushort \<times> uchar list) list" where
  "files_for args = (T_DIR, root_bytes args) # map (\<lambda>a. (T_FILE, the (snd a))) args"

lemma length_root_bytes [simp]: "length (root_bytes args) = 16 * (length args + 2)"
  by (simp add: root_bytes_def)

lemma filled_files_for:
  "filled (files_for args) = nmeta + blocks_for (16 * (length args + 2)) + sum_list (map (\<lambda>(path, b). blocks_for (length (the b))) args)"
  unfolding filled_def files_for_def by (simp add: comp_def case_prod_beta')

text \<open>The directory with its two own entries, before the files.\<close>

lemma root_dir:
  "\<exists>r s t. mk_ialloc T_DIR blank = Some (1, r) \<and> iappend 1 (dirent_bytes 1 [46]) r = Some s \<and> iappend 1 (dirent_bytes 1 [46, 46]) s = Some t
     \<and> files_are t [(T_DIR, dirent_bytes 1 [46] @ dirent_bytes 1 [46, 46])]"
proof -
  obtain r where r: "mk_ialloc T_DIR blank = Some (1, r)" "files_are r [(T_DIR, [])]" using ialloc_files [OF blank_files, of T_DIR] by auto
  have "room [(T_DIR, [])] 0 16" "room [(T_DIR, x)] 0 16" if "length x = 16" for x :: "uchar list"
    using that by (simp_all add: room_def filled_def blocks_for_def)
  note room = this(1) [of "dirent_bytes 1 [46]"] this(2)
  obtain s where s: "iappend 1 (dirent_bytes 1 [46]) r = Some s" using iappend_returns [OF r(2), of 0 "dirent_bytes 1 [46]"] room(1) by auto
  have fs: "files_are s [(T_DIR, dirent_bytes 1 [46])]" using iappend_files [OF r(2), of 0 _ s] s by simp
  obtain t where t: "iappend 1 (dirent_bytes 1 [46, 46]) s = Some t" using iappend_returns [OF fs, of 0 "dirent_bytes 1 [46, 46]"] room(2) by auto
  have "files_are t [(T_DIR, dirent_bytes 1 [46] @ dirent_bytes 1 [46, 46])]" using iappend_files [OF fs, of 0 _ t] t by simp
  then show ?thesis using r(1) s t by blast
qed

lemma add_files_names: "add_files r args s = Some t \<Longrightarrow> a \<in> set args \<Longrightarrow> 47 \<notin> set (fst a)"
  by (induction args arbitrary: s) (auto simp: add_file_def bind_eq_Some_conv split: if_splits)

lemma finish_eq:
  assumes "image_ok s"
  shows "do { din \<leftarrow> rinode 1 s; s \<leftarrow> winode 1 (din\<lparr>d_size := (d_size din div 512 + 1) * 512\<rparr>) s; mk_balloc (sint (freeblock s)) s} = Some (finish s)"
proof -
  note f = image_okD [OF assms]
  have "sint (freeblock s) = int (unat (freeblock s))" using f(3) by (intro sint_small) simp
  then have "sint (freeblock s) < 4096" "nat (sint (freeblock s)) = unat (freeblock s)" using f(3) by linarith+
  then show ?thesis using f(1) rinode_eq [of 1 s] winode_eq [of 1 s] by (simp add: mk_balloc_def finish_def mkfs_sb_def)
qed

text \<open>\<^verbatim>\<open>mkfs\<close> runs to the end exactly when everything fits.\<close>

lemma mkfs_cases:
  assumes l: "length args \<le> 198"
  shows "fits args \<and> (\<exists>s. mkfs args = Some (finish s) \<and> files_are s (files_for args)) \<or> \<not> fits args \<and> mkfs args = None"
proof -
  obtain t where m: "mkfs args = do {
       s \<leftarrow> add_files 1 args t;
       din \<leftarrow> rinode 1 s;
       s \<leftarrow> winode 1 (din\<lparr>d_size := (d_size din div 512 + 1) * 512\<rparr>) s;
       mk_balloc (sint (freeblock s)) s}"
    and t: "files_are t [(T_DIR, dirent_bytes 1 [46] @ dirent_bytes 1 [46, 46])]" using root_dir by (auto simp: mkfs_def)
  show ?thesis
  proof (cases "add_files 1 args t")
    case None
    have "\<exists>u. add_files 1 args t = Some u" if "fits args"
    proof (rule add_files_returns [OF t])
      show "filled ((T_DIR, (dirent_bytes 1 [46] @ dirent_bytes 1 [46, 46]) @ listing (length ([] :: (ushort \<times> uchar list) list) + 2) args)
        # [] @ map (\<lambda>a. (T_FILE, the (snd a))) args) \<le> FS_SIZE"
        using that filled_files_for [of args] by (simp add: fits_def files_for_def root_bytes_def del: add_2_eq_Suc')
    qed (use that l in \<open>auto simp: fits_def\<close>)
    then show ?thesis using None m by auto
  next
    case (Some s)
    have f: "files_are s (files_for args)" and o: "\<forall>a\<in>set args. snd a \<noteq> None"
      using add_files_files [OF t _ Some] l by (simp_all add: files_for_def root_bytes_def del: add_2_eq_Suc')
    have "length (the b) \<le> BSIZE * MAXFILE" if "(path, b) \<in> set args" for path b
      using files_filled(3) [OF f, of "(T_FILE, the b)"] that by (force simp: files_for_def)
    then have "fits args" using files_filled(2) [OF f] add_files_names [OF Some] o unfolding fits_def filled_files_for by force
    moreover have "image_ok s" using f by (auto simp: files_are_def world_def)
    then have "mkfs args = Some (finish s)" using Some finish_eq m by simp
    ultimately show ?thesis using f by blast
  qed
qed

lemma decode_sb_block: "decode_sb sb_block = mkfs_sb"
  by (simp add: decode_sb_def sb_block_def)

lemma finish_fixed:
  assumes "world s R"
  shows "img (finish s) 1 = sb_block" "img (finish s) 2 = (\<lambda>_. 0)"
  using assms put_node_data [of 1 1 _ "img s"] put_node_data [of 1 2 _ "img s"] by (simp_all add: world_def finish_def)

lemma finish_root_size:
  assumes w: "world s R" and r: "R \<noteq> []"
  shows "unat (d_size (dnode (img (finish s)) 1)) = (length (mf_bytes (R ! 0)) div BSIZE + 1) * BSIZE"
proof -
  have e: "entry_ok (img s) (freeblock s) (dnode (img s) (0 + 1)) (R ! 0)" using w r unfolding world_def by blast
  then have z: "unat (d_size (dnode (img s) 1)) = length (mf_bytes (R ! 0))" using entry_size by fastforce
  have "length (mf_bytes (R ! 0)) \<le> BSIZE * MAXFILE" using e by (auto simp: entry_ok_def file_chain_def content_def)
  then have "length (mf_bytes (R ! 0)) div BSIZE \<le> MAXFILE" by (metis div_le_mono nonzero_mult_div_cancel_left zero_neq_numeral)
  then have "unat (d_size (dnode (img s) 1) div 512 + 1) = length (mf_bytes (R ! 0)) div BSIZE + 1"
    by (subst unat_add_lem [THEN iffD1]) (auto simp: unat_div z [unfolded One_nat_def])
  then have "unat ((d_size (dnode (img s) 1) div 512 + 1) * 512) = (length (mf_bytes (R ! 0)) div BSIZE + 1) * BSIZE"
    using \<open>_ \<le> MAXFILE\<close> by (subst unat_mult_lem [THEN iffD1]) auto
  moreover have "IBLOCK (of_nat 1) mkfs_sb \<noteq> 58" using inode_in [of 1] by auto
  ultimately show ?thesis using put_node_same [of 1 _ "img s"] by (simp add: same_node_def finish_def dnode_def)
qed

lemma finish_apart:
  assumes w: "world s R" and l: "length R < NINODES" and m: "m < length R" "n < length R" "m \<noteq> n" and k: "k \<le> MAXFILE" "j \<le> MAXFILE"
  defines "V \<equiv> img (finish s)"
  assumes z: "ptr V (boot_inode V mkfs_sb (m + 1)) k \<noteq> 0"
  shows "ptr V (boot_inode V mkfs_sb (m + 1)) k \<noteq> ptr V (boot_inode V mkfs_sb (n + 1)) j"
proof
  assume q: "ptr V (boot_inode V mkfs_sb (m + 1)) k = ptr V (boot_inode V mkfs_sb (n + 1)) j"
  have i: "image_ok s" "unat (freeblock s) \<le> 1000" using w by (auto simp: world_def image_ok_def)
  have u: "used mkfs_sb V b" if "59 \<le> unat b" "unat b < unat (freeblock s)" for b using finish_used [OF i(1), of b] that i(2) by (simp add: V_def)
  have n1: "m + 1 < NINODES" "n + 1 < NINODES" using m l by simp_all
  have "ptr V (boot_inode V mkfs_sb (m + 1)) k \<in> blocks_of (R ! m)"
    by (rule entry_holds(2) [OF finish_entry(1) [OF w m(1) l, folded V_def] n1(1) i(2) u k(1) z])
  moreover have "ptr V (boot_inode V mkfs_sb (n + 1)) j \<in> blocks_of (R ! n)"
    by (rule entry_holds(2) [OF finish_entry(1) [OF w m(2) l, folded V_def] n1(2) i(2) u k(2) z [unfolded q]])
  ultimately show False using q w m by (auto simp: world_def)
qed

text \<open>
  \<^bold>\<open>C4.\<close> \<^verbatim>\<open>mkfs\<close> and the kernel agree on the disk. For up to 198 files (the inodes left beside the reserved
  one and the root) the program gives up exactly when the files do not fit: a path with a slash, a
  file that cannot be opened or is longer than 140 blocks, or more blocks in all than the disk has.
  Otherwise the kernel finds in block 1 the superblock and in the log area an empty log; the bit
  map and the layout satisfy the invariant of the block allocator, and the free blocks are exactly
  those above the last one handed out; the root directory lists every file; every file's inode is
  well formed and reads back byte for byte; and no two files share a block.
\<close>

theorem mkfs_image:
  assumes "length args \<le> 198"
  shows "case mkfs args of None \<Rightarrow> \<not> fits args
    | Some s \<Rightarrow> fits args \<and> (let V = img s; sb = decode_sb (V 1) in
        sb = mkfs_sb \<and> load32 (V (sb_logstart sb)) 0 = 0 \<and> fs_ok 1000 sb V \<and> free_blocks sb V = {b. freeblock s \<le> b \<and> b < 1000}
        \<and> holds_file sb V 1 T_DIR (root_bytes args) \<and> unat (i_size (boot_inode V sb 1)) = (length (root_bytes args) div BSIZE + 1) * BSIZE
        \<and> (\<forall>j<length args. holds_file sb V (j + 2) T_FILE (the (snd (args ! j)))
            \<and> i_size (boot_inode V sb (j + 2)) = of_nat (length (the (snd (args ! j)))))
        \<and> (\<forall>m\<le>length args. \<forall>n\<le>length args. \<forall>k\<le>MAXFILE. \<forall>l\<le>MAXFILE. m \<noteq> n \<longrightarrow> ptr V (boot_inode V sb (m + 1)) k \<noteq> 0
            \<longrightarrow> ptr V (boot_inode V sb (m + 1)) k \<noteq> ptr V (boot_inode V sb (n + 1)) l))"
  using mkfs_cases [OF assms]
proof (elim disjE conjE exE)
  fix s
  assume f: "fits args" and m: "mkfs args = Some (finish s)" and "files_are s (files_for args)"
  then obtain R where w: "world s R" and R: "map (\<lambda>r. (mf_type r, mf_bytes r)) R = files_for args" by (auto simp: files_are_def)
  have l: "length R = length args + 1" "length R < NINODES" using arg_cong [OF R, of length] assms by (simp_all add: files_for_def)
  have r: "mf_type (R ! n) = fst (files_for args ! n)" "mf_bytes (R ! n) = snd (files_for args ! n)" if "n < length R" for n
    using that by (simp_all add: R [symmetric])
  let ?V = "img (finish s)"
  have i: "image_ok s" "unat (freeblock s) \<le> 1000" using w by (auto simp: world_def image_ok_def)
  have u: "used mkfs_sb ?V b" if "59 \<le> unat b" "unat b < unat (freeblock s)" for b using finish_used [OF i(1), of b] that i(2) by simp
  have h: "holds_file mkfs_sb ?V (n + 1) (fst (files_for args ! n)) (snd (files_for args ! n))" if "n < length R" for n
    using entry_holds(1) [OF finish_entry(1) [OF w that l(2)] _ i(2) u] that l(2) by (simp add: r)
  have "holds_file mkfs_sb ?V (j + 2) T_FILE (the (snd (args ! j))) \<and> i_size (boot_inode ?V mkfs_sb (j + 2)) = of_nat (length (the (snd (args ! j))))"
    if "j < length args" for j
    using h [of "j + 1"] finish_entry(2) [OF w, of "j + 1"] r(2) [of "j + 1"] l that by (simp add: files_for_def boot_inode_dnode)
  moreover have "holds_file mkfs_sb ?V 1 T_DIR (root_bytes args)" using h [of 0] l(1) by (simp add: files_for_def)
  moreover have "unat (i_size (boot_inode ?V mkfs_sb 1)) = (length (root_bytes args) div BSIZE + 1) * BSIZE"
    using finish_root_size [OF w] l(1) r(2) [of 0] by (cases R) (simp_all add: boot_inode_dnode files_for_def)
  moreover have "ptr ?V (boot_inode ?V mkfs_sb (m + 1)) k \<noteq> ptr ?V (boot_inode ?V mkfs_sb (n + 1)) j"
    if "m \<le> length args" "n \<le> length args" "k \<le> MAXFILE" "j \<le> MAXFILE" "m \<noteq> n" "ptr ?V (boot_inode ?V mkfs_sb (m + 1)) k \<noteq> 0" for m n k j
    using finish_apart [OF w l(2) _ _ that(5,3,4,6)] that(1,2) l(1) by simp
  moreover have "sb_logstart mkfs_sb = 2" "freeblock (finish s) = freeblock s" by (simp_all add: mkfs_sb_def finish_def)
  ultimately show ?thesis unfolding m option.case Let_def finish_fixed(1) [OF w] decode_sb_block
    using f finish_ok [OF i(1)] finish_fixed(2) [OF w] load_zero_block by presburger
qed simp

theorem mkfs_image_witness:
  "length [([95, 97] :: uchar list, Some [104, 105 :: uchar])] \<le> 198
     \<and> (case mkfs [([95, 97], Some [104, 105])] of None \<Rightarrow> False
        | Some s \<Rightarrow> holds_file (decode_sb (img s 1)) (img s) 2 T_FILE [104, 105])"
proof -
  have f: "fits [([95, 97], Some [104, 105])]" by (simp add: fits_def blocks_for_def)
  show ?thesis using mkfs_image [of "[([95, 97], Some [104, 105])]"] f by (auto simp: Let_def numeral_2_eq_2 split: option.splits)
qed

end
