(* ===== verification/Xv6_Ide.thy ===== *)
theory Xv6_Ide
  imports Xv6_Bio
begin

text \<open>
  The driver of the IDE disk (\<^verbatim>\<open>ide.c\<close>), which the default kernel uses in place of the memory disk. The
  controller is hardware: what the driver tells it is recorded as the sequence of port operations,
  and what it answers is an argument: the bytes that reads of the status port \<^verbatim>\<open>0x1f7\<close> deliver, and
  the block that \<^verbatim>\<open>insl\<close> reads. The theorems show that the queue of waiting buffers is served in
  the order of the requests, one command at a time, under every interleaving of requests and
  interrupts.
\<close>

section \<open>Ports\<close>

datatype port_op = Outb ushort uchar | Outsl ushort block

record ide_state = bio_state +
  idequeue :: "nat option"
  havedisk1 :: bool
  ide_out :: "port_op list"

abbreviation "IDE_BSY \<equiv> (0x80::uchar)"
abbreviation "IDE_DRDY \<equiv> (0x40::uchar)"
abbreviation "IDE_DF \<equiv> (0x20::uchar)"
abbreviation "IDE_ERR \<equiv> (0x01::uchar)"
abbreviation "IDE_CMD_READ \<equiv> (0x20::uchar)"
abbreviation "IDE_CMD_WRITE \<equiv> (0x30::uchar)"

text \<open>The bytes not read yet come back with the result; \<open>None\<close> when the disk does not become ready.\<close>

fun idewait :: "bool \<Rightarrow> uchar list \<Rightarrow> (int \<times> uchar list) option" where
  "idewait checkerr [] = None"
| "idewait checkerr (r # rs) =
     (if r AND (IDE_BSY OR IDE_DRDY) \<noteq> IDE_DRDY then idewait checkerr rs
      else if checkerr \<and> r AND (IDE_DF OR IDE_ERR) \<noteq> 0 then Some (-1, rs)
      else Some (0, rs))"

definition ideinit :: "uchar list \<Rightarrow> 'a ide_state_scheme \<Rightarrow> ('a ide_state_scheme, unit) outcome" where
  "ideinit rs s =
     (case idewait False rs of
        None \<Rightarrow> Undef ''idewait: the disk is never ready''
      | Some (_, rs) \<Rightarrow> Ret () (s\<lparr>ide_out := ide_out s @ [Outb 0x1f6 (0xe0 OR push_bit 4 1), Outb 0x1f6 0xe0],
          havedisk1 := havedisk1 s \<or> list_ex (\<lambda>r. r \<noteq> 0) (take 1000 rs)\<rparr>))"

text \<open>The port operations of \<^verbatim>\<open>idestart\<close>; with \<^verbatim>\<open>BSIZE\<close> equal to the sector size a block is one sector.\<close>

definition ide_command :: "buf \<Rightarrow> port_op list" where
  "ide_command b =
     (let sector = b_blockno b in
      [Outb 0x3f6 0, Outb 0x1f2 1, Outb 0x1f3 (ucast (sector AND 0xff)), Outb 0x1f4 (ucast (drop_bit 8 sector AND 0xff)),
       Outb 0x1f5 (ucast (drop_bit 16 sector AND 0xff)),
       Outb 0x1f6 (0xe0 OR push_bit 4 (ucast (b_dev b AND 1)) OR ucast (drop_bit 24 sector AND 0x0f))]
      @ (if b_flags b AND B_DIRTY \<noteq> 0 then [Outb 0x1f7 IDE_CMD_WRITE, Outsl 0x1f0 (b_data b)] else [Outb 0x1f7 IDE_CMD_READ]))"

definition idestart :: "nat option \<Rightarrow> uchar list \<Rightarrow> 'a ide_state_scheme \<Rightarrow> ('a ide_state_scheme, uchar list) outcome" where
  "idestart q rs s =
     (case q of
        None \<Rightarrow> Panic ''idestart''
      | Some b \<Rightarrow>
          if FSSIZE \<le> b_blockno (bufs s b) then Panic ''incorrect blockno''
          else case idewait False rs of
            None \<Rightarrow> Undef ''idewait: the disk is never ready''
          | Some (_, rs) \<Rightarrow> Ret rs (s\<lparr>ide_out := ide_out s @ ide_command (bufs s b)\<rparr>))"

section \<open>Interrupts and requests\<close>

text \<open>Taking in the answer to the active request \<open>b\<close>: the data of a read, and the flags.\<close>

definition ide_finish :: "nat \<Rightarrow> uchar list \<Rightarrow> block \<Rightarrow> 'a ide_state_scheme \<Rightarrow> ('a ide_state_scheme, uchar list) outcome" where
  "ide_finish b rs data s =
     andthen (if b_flags (bufs s b) AND B_DIRTY = 0 then
                case idewait True rs of
                  None \<Rightarrow> Undef ''idewait: the disk is never ready''
                | Some (r, rs) \<Rightarrow> Ret rs (if 0 \<le> r then upd_buf b (\<lambda>k. k\<lparr>b_data := data\<rparr>) s else s)
              else Ret rs s) (\<lambda>rs s.
     Ret rs (upd_buf b (\<lambda>k. k\<lparr>b_flags := (b_flags k OR B_VALID) AND NOT B_DIRTY\<rparr>) s))"

definition ideintr :: "uchar list \<Rightarrow> block \<Rightarrow> 'a ide_state_scheme \<Rightarrow> ('a ide_state_scheme, unit) outcome" where
  "ideintr rs data s =
     andthen (acquire LkIde s) (\<lambda>_ s.
     case idequeue s of
       None \<Rightarrow> release LkIde s
     | Some b \<Rightarrow>
         andthen (ide_finish b rs data (s\<lparr>idequeue := b_qnext (bufs s b)\<rparr>)) (\<lambda>rs s.
         andthen (wakeup (ChBuf b) s) (\<lambda>_ s.
         andthen (if idequeue s \<noteq> None then idestart (idequeue s) rs s else Ret rs s) (\<lambda>_ s.
         release LkIde s))))"

text \<open>The last buffer of the queue that starts at \<open>b\<close>; \<open>None\<close> when the queue is circular.\<close>

partial_function (option) ide_tail :: "(nat \<Rightarrow> buf) \<Rightarrow> nat \<Rightarrow> nat option" where
  "ide_tail B b = (case b_qnext (B b) of None \<Rightarrow> Some b | Some c \<Rightarrow> ide_tail B c)"

definition ide_append :: "nat \<Rightarrow> 'a ide_state_scheme \<Rightarrow> 'a ide_state_scheme option" where
  "ide_append b s =
     (let s = upd_buf b (\<lambda>k. k\<lparr>b_qnext := None\<rparr>) s in
      case idequeue s of
        None \<Rightarrow> Some (s\<lparr>idequeue := Some b\<rparr>)
      | Some h \<Rightarrow> map_option (\<lambda>l. upd_buf l (\<lambda>k. k\<lparr>b_qnext := Some b\<rparr>) s) (ide_tail (bufs s) h))"

text \<open>The loop that waits for the request, and the same after the process has slept in it.\<close>

definition ide_wait :: "nat \<Rightarrow> 'a ide_state_scheme \<Rightarrow> ('a ide_state_scheme, unit) outcome" where
  "ide_wait b s =
     (if b_flags (bufs s b) AND (B_VALID OR B_DIRTY) \<noteq> B_VALID then sleep (ChBuf b) LkIde s else release LkIde s)"

definition ide_resume :: "nat \<Rightarrow> 'a ide_state_scheme \<Rightarrow> ('a ide_state_scheme, unit) outcome" where
  "ide_resume b s = andthen (sleep_resume LkIde s) (\<lambda>_ s. ide_wait b s)"

definition ide_rw :: "nat \<Rightarrow> uchar list \<Rightarrow> 'a ide_state_scheme \<Rightarrow> ('a ide_state_scheme, unit) outcome" where
  "ide_rw b rs s =
     (if b_flags (bufs s b) AND B_BUSY = 0 then Panic ''iderw: buf not busy''
      else if b_flags (bufs s b) AND (B_VALID OR B_DIRTY) = B_VALID then Panic ''iderw: nothing to do''
      else if b_dev (bufs s b) \<noteq> 0 \<and> \<not> havedisk1 s then Panic ''iderw: ide disk 1 not present''
      else andthen (acquire LkIde s) (\<lambda>_ s.
        case ide_append b s of
          None \<Rightarrow> Undef ''iderw: the queue has no end''
        | Some s \<Rightarrow>
            andthen (if idequeue s = Some b then idestart (Some b) rs s else Ret rs s) (\<lambda>_ s.
            ide_wait b s)))"

section \<open>The queue\<close>

fun queued :: "(nat \<Rightarrow> buf) \<Rightarrow> nat option \<Rightarrow> nat list \<Rightarrow> bool" where
  "queued B q [] \<longleftrightarrow> q = None"
| "queued B q (b # bs) \<longleftrightarrow> q = Some b \<and> queued B (b_qnext (B b)) bs"

lemma queued_cong: "queued B q bs \<Longrightarrow> (\<And>b. b \<in> set bs \<Longrightarrow> b_qnext (B' b) = b_qnext (B b)) \<Longrightarrow> queued B' q bs"
  by (induction bs arbitrary: q) auto

lemma ide_tail_last: "queued B (Some h) bs \<Longrightarrow> ide_tail B h = Some (last bs)"
proof (induction bs arbitrary: h)
  case (Cons b bs)
  then show ?case by (subst ide_tail.simps) (cases bs; auto)
qed simp

lemma queued_snoc:
  assumes "queued B q bs" "bs \<noteq> []" "distinct bs" "b \<notin> set bs" "b_qnext (B b) = None"
  shows "queued (B(last bs := (B (last bs))\<lparr>b_qnext := Some b\<rparr>)) q (bs @ [b])"
  using assms
proof (induction bs arbitrary: q)
  case (Cons a bs)
  show ?case
  proof (cases bs)
    case Nil
    then show ?thesis using Cons.prems by auto
  next
    case (Cons c cs)
    then have "last (a # bs) = last bs" "a \<noteq> last bs" using Cons.prems(3) by auto
    then show ?thesis using Cons.IH [of "b_qnext (B a)"] Cons Cons.prems by auto
  qed
qed simp

text \<open>Appending puts the buffer behind those that wait, and changes nothing else of any buffer.\<close>

definition same_request :: "buf \<Rightarrow> buf \<Rightarrow> bool" where
  "same_request k l \<longleftrightarrow> k\<lparr>b_qnext := None\<rparr> = l\<lparr>b_qnext := None\<rparr>"

lemma ide_command_same: "same_request k l \<Longrightarrow> ide_command k = ide_command l"
proof -
  have "ide_command (k\<lparr>b_qnext := None\<rparr>) = ide_command k" for k by (simp add: ide_command_def)
  then show "same_request k l \<Longrightarrow> ide_command k = ide_command l" unfolding same_request_def by metis
qed

lemma ide_append_queued:
  assumes q: "queued (bufs s) (idequeue s) bs" and d: "distinct bs" "b \<notin> set bs"
  shows "\<exists>t. ide_append b s = Some t \<and> queued (bufs t) (idequeue t) (bs @ [b]) \<and> (\<forall>c. same_request (bufs t c) (bufs s c))
    \<and> ide_out t = ide_out s \<and> (idequeue t = Some b \<longleftrightarrow> bs = []) \<and> held t = held s"
proof -
  let ?s = "upd_buf b (\<lambda>k. k\<lparr>b_qnext := None\<rparr>) s"
  have q': "queued (bufs ?s) (idequeue s) bs" using q d(2) by (elim queued_cong) (auto simp: upd_buf_def)
  show ?thesis
  proof (cases bs)
    case Nil
    then show ?thesis using q by (auto simp: ide_append_def upd_buf_def same_request_def)
  next
    case (Cons h cs)
    then have h: "idequeue s = Some h" using q by simp
    have "ide_tail (bufs ?s) h = Some (last bs)" using ide_tail_last [of "bufs ?s" h bs] q' h by simp
    then have a: "ide_append b s = Some (upd_buf (last bs) (\<lambda>k. k\<lparr>b_qnext := Some b\<rparr>) ?s)" using h by (simp add: ide_append_def upd_buf_def)
    have "queued (bufs (upd_buf (last bs) (\<lambda>k. k\<lparr>b_qnext := Some b\<rparr>) ?s)) (idequeue s) (bs @ [b])"
      using queued_snoc [OF q' _ d] Cons by (simp add: upd_buf_def)
    then show ?thesis using a h d(2) Cons by (auto simp: upd_buf_def same_request_def)
  qed
qed

text \<open>A request that has to wait: what the driver's state is when the process goes to sleep.\<close>

lemma sleep_switch:
  fixes s :: "'a ide_state_scheme"
  assumes "sleep ch lk s = Switch t"
  shows "bufs t = bufs s" "idequeue t = idequeue s" "ide_out t = ide_out s"
proof -
  obtain p where p: "curproc s = Some p" using assms by (auto simp: sleep_def split: option.splits)
  define u where "u = (if lk \<noteq> LkPtable then s\<lparr>held := insert LkPtable (held s) - {lk}\<rparr> else s)"
  have "sched (upd_proc p (\<lambda>q. q\<lparr>p_chan := Some ch, p_state := SLEEPING\<rparr>) u) = Switch t"
    using assms by (simp add: sleep_def p u_def acquire_def release_def split: if_splits)
  then have "t = upd_proc p (\<lambda>q. q\<lparr>p_chan := Some ch, p_state := SLEEPING\<rparr>) u"
    by (simp add: sched_def split: if_splits option.splits)
  then show "bufs t = bufs s" "idequeue t = idequeue s" "ide_out t = ide_out s" by (simp_all add: u_def upd_proc_def)
qed

lemma ide_rw_queued:
  fixes s :: "'a ide_state_scheme"
  assumes r: "ide_rw b rs s = Switch t" and q: "queued (bufs s) (idequeue s) bs" and d: "distinct bs" "b \<notin> set bs"
  shows "queued (bufs t) (idequeue t) (bs @ [b])" "\<forall>c. same_request (bufs t c) (bufs s c)"
    "ide_out t = ide_out s @ (if bs = [] then ide_command (bufs s b) else [])"
proof -
  let ?s = "s\<lparr>held := insert LkIde (held s)\<rparr>"
  obtain u where u: "ide_append b ?s = Some u" "queued (bufs u) (idequeue u) (bs @ [b])" "\<forall>c. same_request (bufs u c) (bufs s c)"
    "ide_out u = ide_out s" "idequeue u = Some b \<longleftrightarrow> bs = []" using ide_append_queued [of ?s bs b] q d by auto
  obtain v where v: "sleep (ChBuf b) LkIde v = Switch t" "bufs v = bufs u" "idequeue v = idequeue u"
    "ide_out v = ide_out s @ (if bs = [] then ide_command (bufs s b) else [])"
    using r u(1,4,5) ide_command_same [OF u(3) [rule_format, of b]]
    by (auto simp: ide_rw_def acquire_def idestart_def ide_wait_def release_def split: if_splits option.splits)
  then show "queued (bufs t) (idequeue t) (bs @ [b])" "\<forall>c. same_request (bufs t c) (bufs s c)"
    "ide_out t = ide_out s @ (if bs = [] then ide_command (bufs s b) else [])" using sleep_switch [OF v(1)] u by simp_all
qed

text \<open>An interrupt finishes the first request of the queue and starts the second.\<close>

lemma ide_finish_eq:
  assumes "ide_finish b rs data s = Ret rs' t"
  shows "\<exists>k. t = upd_buf b (\<lambda>_. k) s \<and> b_qnext k = b_qnext (bufs s b) \<and> b_flags k = (b_flags (bufs s b) OR B_VALID) AND NOT B_DIRTY
    \<and> (b_flags (bufs s b) AND B_DIRTY \<noteq> 0 \<longrightarrow> b_data k = b_data (bufs s b))
    \<and> (b_flags (bufs s b) AND B_DIRTY = 0 \<longrightarrow> b_data k = (if \<exists>us. idewait True rs = Some (0, us) then data else b_data (bufs s b)))"
proof -
  have w: "idewait True xs = Some (r, us) \<Longrightarrow> r = 0 \<or> r = -1" for xs r us
    by (induction True xs rule: idewait.induct) (auto split: if_splits)
  have t: "t = upd_buf b (\<lambda>_. bufs t b) s"
    using assms by (auto simp: ide_finish_def upd_buf_def split: if_splits option.splits)
  have "b_qnext (bufs t b) = b_qnext (bufs s b) \<and> b_flags (bufs t b) = (b_flags (bufs s b) OR B_VALID) AND NOT B_DIRTY
    \<and> (b_flags (bufs s b) AND B_DIRTY \<noteq> 0 \<longrightarrow> b_data (bufs t b) = b_data (bufs s b))"
    using assms by (auto simp: ide_finish_def upd_buf_def split: if_splits option.splits)
  moreover have "b_data (bufs t b) = (if \<exists>us. idewait True rs = Some (0, us) then data else b_data (bufs s b))" if d: "b_flags (bufs s b) AND B_DIRTY = 0"
  proof -
    obtain r us where i: "idewait True rs = Some (r, us)" using assms d by (auto simp: ide_finish_def split: option.splits)
    then show ?thesis using w [OF i] assms d by (auto simp: ide_finish_def upd_buf_def)
  qed
  ultimately show ?thesis using t by blast
qed

lemma wakeup1_ide [simp]:
  fixes s :: "'a ide_state_scheme"
  shows "bufs (wakeup1 ch s) = bufs s" "idequeue (wakeup1 ch s) = idequeue s" "ide_out (wakeup1 ch s) = ide_out s"
  by (simp_all add: wakeup1_def)

lemma ideintr_spurious:
  fixes s :: "'a ide_state_scheme"
  shows "ideintr rs data s = Ret () t \<Longrightarrow> idequeue s = None \<Longrightarrow> t = s"
  by (auto simp: ideintr_def acquire_def release_def split: if_splits)

lemma ideintr_queued:
  fixes s :: "'a ide_state_scheme"
  assumes r: "ideintr rs data s = Ret () t" and q: "queued (bufs s) (idequeue s) (b # bs)" and d: "b \<notin> set bs"
  shows "queued (bufs t) (idequeue t) bs" "\<And>c. c \<noteq> b \<Longrightarrow> bufs t c = bufs s c"
    "ide_out t = ide_out s @ (if bs = [] then [] else ide_command (bufs s (hd bs)))"
    "b_flags (bufs t b) = (b_flags (bufs s b) OR B_VALID) AND NOT B_DIRTY"
proof -
  let ?s = "s\<lparr>held := insert LkIde (held s), idequeue := b_qnext (bufs s b)\<rparr>"
  have i: "idequeue s = Some b" using q by simp
  obtain rs' u where u: "ide_finish b rs data ?s = Ret rs' u"
    and t: "andthen (wakeup (ChBuf b) u) (\<lambda>_ s. andthen (if idequeue s \<noteq> None then idestart (idequeue s) rs' s else Ret rs' s) (\<lambda>_ s. release LkIde s)) = Ret () t"
    using r i by (auto simp: ideintr_def acquire_def andthen_eq_Ret split: if_splits)
  obtain k where k: "u = upd_buf b (\<lambda>_. k) ?s" "b_flags k = (b_flags (bufs s b) OR B_VALID) AND NOT B_DIRTY" using ide_finish_eq [OF u] by auto
  have "wakeup (ChBuf b) u = Ret () (wakeup1 (ChBuf b) u)" using t wakeup_eq wakeup_held by (cases "LkPtable \<in> held u") (fastforce simp: andthen_eq_Ret)+
  then have t: "andthen (if idequeue u \<noteq> None then idestart (idequeue u) rs' (wakeup1 (ChBuf b) u) else Ret rs' (wakeup1 (ChBuf b) u)) (\<lambda>_ s. release LkIde s) = Ret () t"
    using t by (simp split: if_splits)
  have qu: "queued (bufs u) (idequeue u) bs" using q d by (auto simp: k(1) upd_buf_def elim!: queued_cong)
  have e: "bufs t = bufs u" "idequeue t = idequeue u" "ide_out t = ide_out u @ (case idequeue u of None \<Rightarrow> [] | Some c \<Rightarrow> ide_command (bufs u c))"
    using t by (auto simp: idestart_def release_def split: option.splits if_splits)
  show "queued (bufs t) (idequeue t) bs" using qu e by simp
  show "bufs t c = bufs s c" if "c \<noteq> b" for c using that by (simp add: e k(1) upd_buf_def)
  show "b_flags (bufs t b) = (b_flags (bufs s b) OR B_VALID) AND NOT B_DIRTY" by (simp add: e k upd_buf_def)
  show "ide_out t = ide_out s @ (if bs = [] then [] else ide_command (bufs s (hd bs)))"
    using qu e(3) d by (cases bs) (auto simp: k(1) upd_buf_def)
qed

section \<open>Every interleaving\<close>

text \<open>
  Histories of the driver: \<open>rq\<close> are the requests made so far, each with the command that its buffer
  calls for, and \<open>dn\<close> the buffers finished so far. A buffer is requested again only after its
  request is finished, since its user holds it (\<^verbatim>\<open>B_BUSY\<close>) and sleeps until then; for the same reason
  the rest of the kernel leaves the buffers in the queue alone.
\<close>

inductive ide_run :: "(nat \<times> port_op list) list \<Rightarrow> nat list \<Rightarrow> ide_state \<Rightarrow> bool" where
  start: "idequeue s = None \<Longrightarrow> ide_out s = [] \<Longrightarrow> ide_run [] [] s"
| request: "ide_run rq dn s \<Longrightarrow> b \<notin> set (drop (length dn) (map fst rq)) \<Longrightarrow> ide_rw b rs s = Switch t
    \<Longrightarrow> ide_run (rq @ [(b, ide_command (bufs s b))]) dn t"
| interrupt: "ide_run rq dn s \<Longrightarrow> idequeue s = Some b \<Longrightarrow> ideintr rs data s = Ret () t \<Longrightarrow> ide_run rq (dn @ [b]) t"
| other: "ide_run rq dn s \<Longrightarrow> idequeue t = idequeue s \<Longrightarrow> ide_out t = ide_out s
    \<Longrightarrow> (\<And>b. b \<in> set (drop (length dn) (map fst rq)) \<Longrightarrow> bufs t b = bufs s b) \<Longrightarrow> ide_run rq dn t"

definition ide_inv :: "(nat \<times> port_op list) list \<Rightarrow> nat list \<Rightarrow> (nat \<times> port_op list) list \<Rightarrow> ide_state \<Rightarrow> bool" where
  "ide_inv rq dn wt s \<longleftrightarrow> (\<exists>fin. rq = fin @ wt \<and> map fst fin = dn \<and> distinct (map fst wt) \<and> queued (bufs s) (idequeue s) (map fst wt)
     \<and> (\<forall>(b, c)\<in>set wt. ide_command (bufs s b) = c) \<and> ide_out s = concat (map snd (fin @ take 1 wt)))"

lemma ide_run_inv: "ide_run rq dn s \<Longrightarrow> \<exists>wt. ide_inv rq dn wt s"
proof (induction rule: ide_run.induct)
  case (start s)
  then show ?case by (auto simp: ide_inv_def)
next
  case (request rq dn s b rs t)
  then obtain wt fin where i: "rq = fin @ wt" "map fst fin = dn" "distinct (map fst wt)" "queued (bufs s) (idequeue s) (map fst wt)"
    "\<forall>(b, c)\<in>set wt. ide_command (bufs s b) = c" "ide_out s = concat (map snd (fin @ take 1 wt))" by (auto simp: ide_inv_def)
  have b: "b \<notin> set (map fst wt)" using request(2) i(1,2) by auto
  note q = ide_rw_queued [OF request(3) i(4,3) b]
  have "ide_command (bufs t c) = ide_command (bufs s c)" for c using q(2) ide_command_same by blast
  then have "ide_inv (rq @ [(b, ide_command (bufs s b))]) dn (wt @ [(b, ide_command (bufs s b))]) t"
    unfolding ide_inv_def using i b q(1,3) by (intro exI [of _ fin]) (cases wt; auto)
  then show ?case by blast
next
  case (interrupt rq dn s b rs data t)
  then obtain wt fin where i: "rq = fin @ wt" "map fst fin = dn" "distinct (map fst wt)" "queued (bufs s) (idequeue s) (map fst wt)"
    "\<forall>(b, c)\<in>set wt. ide_command (bufs s b) = c" "ide_out s = concat (map snd (fin @ take 1 wt))" by (auto simp: ide_inv_def)
  then obtain c ws where w: "wt = (b, c) # ws" using interrupt(2) by (cases wt) auto
  have n: "queued (bufs s) (idequeue s) (b # map fst ws)" "b \<notin> set (map fst ws)" using i(3,4) w by auto
  note q = ideintr_queued [OF interrupt(3) n]
  have "bufs t a = bufs s a" if "a \<in> set (map fst ws)" for a using q(2) [of a] that n(2) by blast
  then have k: "\<forall>(a, c)\<in>set ws. ide_command (bufs t a) = c" using i(5) w by fastforce
  have o: "ide_out t = concat (map snd ((fin @ [(b, c)]) @ take 1 ws))" using q(3) i(5,6) w by (cases ws) auto
  have "ide_inv rq (dn @ [b]) ws t"
    unfolding ide_inv_def by (rule exI [of _ "fin @ [(b, c)]"]) (use i(1-3) w q(1) k o in simp)
  then show ?case by blast
next
  case (other rq dn s t)
  then obtain wt fin where i: "rq = fin @ wt" "map fst fin = dn" "distinct (map fst wt)" "queued (bufs s) (idequeue s) (map fst wt)"
    "\<forall>(b, c)\<in>set wt. ide_command (bufs s b) = c" "ide_out s = concat (map snd (fin @ take 1 wt))" by (auto simp: ide_inv_def)
  then have "bufs t b = bufs s b" if "b \<in> set (map fst wt)" for b using other(4) [of b] that by auto
  then have k: "\<forall>(b, c)\<in>set wt. ide_command (bufs t b) = c" "queued (bufs t) (idequeue t) (map fst wt)"
    using i(4,5) other(2) queued_cong [of "bufs s" "idequeue s" "map fst wt" "bufs t"] by fastforce+
  have "ide_inv rq dn wt t" unfolding ide_inv_def by (rule exI [of _ fin]) (use i(1-3,6) k other(3) in simp)
  then show ?case by blast
qed

section \<open>What the controller is told\<close>

text \<open>The four address registers of a command hold the number of the block.\<close>

lemma ide_command_block:
  assumes "b_blockno k < FSSIZE"
  shows "\<exists>l m h d rest. ide_command k = [Outb 0x3f6 0, Outb 0x1f2 1, Outb 0x1f3 l, Outb 0x1f4 m, Outb 0x1f5 h, Outb 0x1f6 d] @ rest
    \<and> ucast l OR push_bit 8 (ucast m) OR push_bit 16 (ucast h) OR push_bit 24 (ucast d AND 0x0f) = b_blockno k"
proof -
  let ?n = "b_blockno k"
  have z: "drop_bit 24 ?n = 0" using assms by (simp add: drop_bit_eq_div word_unat_eq_iff unat_div word_less_nat_alt)
  have d: "(0xe0 OR push_bit 4 (ucast (b_dev k AND 1)) :: uchar) AND 0x0f = 0"
  proof (rule bit_word_eqI)
    fix n
    assume "n < LENGTH(8)"
    then consider "n = 0" | "n = 1" | "n = 2" | "n = 3" | "n = 4" | "n = 5" | "n = 6" | "n = 7" by fastforce
    then show "bit ((0xe0 OR push_bit 4 (ucast (b_dev k AND 1)) :: uchar) AND 0x0f) n = bit (0 :: uchar) n"
      by cases (simp_all add: bit_simps)
  qed
  have m: "(ucast (w AND 0xff) :: uchar) = ucast w" for w :: uint
  proof -
    have "(0xff :: uint) = mask 8" by (simp add: mask_eq_exp_minus_1)
    then show ?thesis by (simp add: bit_eq_iff bit_simps)
  qed
  have "ucast (byte 0 ?n) OR push_bit 8 (ucast (byte 1 ?n)) OR push_bit 16 (ucast (byte 2 ?n)) = ?n"
    using join_bytes32 [of ?n] z by (simp add: byte_def)
  moreover have "(ucast (0xe0 OR push_bit 4 (ucast (b_dev k AND 1)) :: uchar) :: uint) AND 0x0f = 0"
    using arg_cong [OF d, of "ucast :: uchar \<Rightarrow> uint"] by (simp add: unsigned_and_eq)
  ultimately show ?thesis using z by (simp add: ide_command_def Let_def m byte_def del: push_bit_and)
qed

text \<open>
  When the disk reports an error, \<^verbatim>\<open>ideintr\<close> leaves the old bytes in the buffer but marks it valid: the
  failed read is taken for a successful one.
\<close>

lemma ide_read_error_unnoticed:
  assumes "ide_finish b rs data s = Ret rs' t" "b_flags (bufs s b) AND B_DIRTY = 0" "idewait True rs = Some (-1, us)"
  shows "b_data (bufs t b) = b_data (bufs s b)" "b_flags (bufs t b) AND B_VALID \<noteq> 0"
proof -
  obtain k where k: "t = upd_buf b (\<lambda>_. k) s" "b_flags k = (b_flags (bufs s b) OR B_VALID) AND NOT B_DIRTY" "b_data k = b_data (bufs s b)"
    using ide_finish_eq [OF assms(1)] assms(2,3) by auto
  then show "b_data (bufs t b) = b_data (bufs s b)" by (simp add: upd_buf_def)
  have "bit (b_flags k) 1" unfolding k(2) by (simp add: bit_simps)
  moreover have "bit (b_flags k AND B_VALID) 1 \<longleftrightarrow> bit (b_flags k) 1" by (simp add: bit_simps)
  ultimately have "b_flags k AND B_VALID \<noteq> 0" by (metis bit_0_eq bot_apply bot_bool_def)
  then show "b_flags (bufs t b) AND B_VALID \<noteq> 0" by (simp add: k(1) upd_buf_def)
qed

section \<open>Requests are served in order\<close>

text \<open>
  \<^bold>\<open>C28.\<close> The IDE driver serves requests first come, first served, one at a time. In every history of
  requests and interrupts, the finished buffers are exactly the oldest requests, the linked queue
  holds the others in the order they were made, and the controller has been given the command of
  every finished request and of the one at the head of the queue, in that order and no other
  command: none is lost, repeated, overtaken, or sent while another is active.
\<close>

theorem ide_fifo:
  assumes "ide_run rq dn s"
  shows "\<exists>fin wt. rq = fin @ wt \<and> map fst fin = dn \<and> queued (bufs s) (idequeue s) (map fst wt) \<and> ide_out s = concat (map snd (fin @ take 1 wt))"
proof -
  obtain wt where "ide_inv rq dn wt s" using ide_run_inv [OF assms] by blast
  then show ?thesis unfolding ide_inv_def by blast
qed

text \<open>A machine with an idle disk whose only process asks for block 7 through buffer 3.\<close>

definition ide_idle :: ide_state where
  "ide_idle = (undefined :: ide_state)\<lparr>held := {}, curproc := Some 0, idequeue := None, havedisk1 := True, ide_out := [],
     bufs := (\<lambda>_. \<lparr>b_flags = B_BUSY, b_dev = 1, b_blockno = 7, b_prev = 0, b_next = 0, b_qnext = None, b_data = (\<lambda>_. 0)\<rparr>)\<rparr>"

theorem ide_fifo_witness:
  "\<exists>t. ide_rw 3 [IDE_DRDY] ide_idle = Switch t \<and> ide_out t = ide_command (bufs ide_idle 3) \<and> idequeue t = Some 3"
proof -
  have l: "{LkPtable, LkIde} - {LkIde} = {LkPtable}" by auto
  have "ide_run [] [] ide_idle" by (rule ide_run.start) (simp_all add: ide_idle_def)
  moreover obtain t where t: "ide_rw 3 [IDE_DRDY] ide_idle = Switch t"
    by (simp add: ide_rw_def ide_idle_def ide_append_def upd_buf_def idestart_def ide_wait_def sleep_def sched_def release_def l)
  ultimately have "ide_run ([] @ [(3, ide_command (bufs ide_idle 3))]) [] t" by (intro ide_run.request [of "[]" "[]" ide_idle 3]) simp_all
  then show ?thesis using ide_fifo [of "[(3, ide_command (bufs ide_idle 3))]" "[]" t] t by (auto simp: Cons_eq_append_conv)
qed

end
