(* ===== verification/Spec2Isabelle.thy ===== *)
theory Spec2Isabelle
  imports Xv6_Spinlock Xv6_Kalloc Xv6_Storage Xv6_Pipe Xv6_Fwrite Xv6_Sched Xv6_Trap Xv6_Grep Xv6_Shrun Xv6_Umalloc Xv6_Mkfs Xv6_Ide
begin

text \<open>
  A verification library for an xv6 kernel for x86, its user programs and the program that builds
  its disk image. All file names below are relative to \<^verbatim>\<open>src/\<close>.

  \<^bold>\<open>How the program is represented.\<close> A kernel routine is a function from the kernel state to an
  outcome (\<^verbatim>\<open>Xv6_Prelude\<close>): \<open>Ret\<close>, a value and a new state; \<open>Panic\<close>, with the message; \<open>Switch\<close>, the state
  in which the routine gives up the processor; \<open>Undef\<close>, something C leaves undefined or a hardware
  wait that never ends. Kernel state is a chain of records, each extending the one before:
  \<open>kstate\<close>, \<open>kmem_state\<close>, \<open>bio_state\<close>, \<open>log_state\<close>, \<open>fs_state\<close>, \<open>con_state\<close>, \<open>file_state\<close>, \<open>trap_state\<close>.
  An operation is polymorphic in what comes after its own component. Machine integers are words
  (\<open>uchar\<close>, \<open>ushort\<close>, \<open>uint\<close>), memory is a function from 32-bit addresses to bytes, a disk block a
  function from offsets to bytes, and a pointer into a static table is an index. A routine runs on
  one processor; where several processors or processes matter, a step relation interleaves pieces.
  A routine that sleeps in a loop is modelled up to the switch and starts again at the loop head.

  \<^bold>\<open>Base.\<close>
  \<^item> \<^verbatim>\<open>Xv6_Prelude\<close>: words, little-endian loads and stores, outcomes, loops, and the rules \<open>returns\<close> and
    \<open>keeps\<close> about them.
  \<^item> \<^verbatim>\<open>Xv6_String\<close>: \<^verbatim>\<open>string.c\<close> and the string part of \<^verbatim>\<open>ulib.c\<close>; effect of each routine on every byte,
    overlapping moves included.
  \<^item> \<^verbatim>\<open>Xv6_Printf\<close>: \<^verbatim>\<open>printf.c\<close> and \<^verbatim>\<open>atoi\<close>; what is printed with \<^verbatim>\<open>%d\<close> is read back by \<^verbatim>\<open>atoi\<close>.
  \<^item> \<^verbatim>\<open>Xv6_Mmu\<close>: the address arithmetic of \<^verbatim>\<open>mmu.h\<close> and \<^verbatim>\<open>memlayout.h\<close>.
  \<^item> \<^verbatim>\<open>Xv6_Kernel\<close>: the state of \<^verbatim>\<open>proc.h\<close> that all parts share, \<^verbatim>\<open>sched\<close>, \<^verbatim>\<open>sleep\<close>, \<^verbatim>\<open>wakeup\<close>.

  \<^bold>\<open>Memory and locks.\<close>
  \<^item> \<^verbatim>\<open>Xv6_Kalloc\<close>: \<^verbatim>\<open>kalloc.c\<close>. The free list threaded through memory refines a stack of pages. The locale
    \<open>page_allocator\<close> is the contract, interpreted on \<^verbatim>\<open>kalloc\<close> and \<^verbatim>\<open>kfree\<close>.
  \<^item> \<^verbatim>\<open>Xv6_Spinlock\<close>: \<^verbatim>\<open>spinlock.c\<close>. \<^verbatim>\<open>acquire\<close> and \<^verbatim>\<open>release\<close> are cut at their atomic instructions and
    interleaved over any number of processors: mutual exclusion, interrupts off while a lock is held,
    and agreement with the set of held locks that the other theories use.
  \<^item> \<^verbatim>\<open>Xv6_Vm\<close>: \<^verbatim>\<open>vm.c\<close>, page tables and user address spaces.

  \<^bold>\<open>Storage.\<close>
  \<^item> \<^verbatim>\<open>Xv6_Dll\<close>, \<^verbatim>\<open>Xv6_Bio\<close>, \<^verbatim>\<open>Xv6_Bview\<close>: \<^verbatim>\<open>bio.c\<close> over the memory disk \<^verbatim>\<open>memide.c\<close>; the ring of buffers,
    least recently used replacement, and the effect of each routine on a client's view of the blocks.
  \<^item> \<^verbatim>\<open>Xv6_Ide\<close>: \<^verbatim>\<open>ide.c\<close>; requests are served in order in every interleaving with interrupts.
  \<^item> \<^verbatim>\<open>Xv6_Log\<close>, \<^verbatim>\<open>Xv6_Crash\<close>, \<^verbatim>\<open>Xv6_Tx\<close>, \<^verbatim>\<open>Xv6_Storage\<close>: \<^verbatim>\<open>log.c\<close>. A crash at any point of a commit, and any
    number of interrupted recoveries, leave the blocks as before or as after the transaction; a
    finished transaction is on disk. The locale \<open>block_tx\<close> is the contract of a transaction, interpreted
    on the buffer cache under the log.
  \<^item> \<^verbatim>\<open>Xv6_Inode\<close>, \<^verbatim>\<open>Xv6_Dir\<close>: \<^verbatim>\<open>fs.c\<close>. \<^verbatim>\<open>Xv6_Falloc\<close>, \<^verbatim>\<open>Xv6_Fdata\<close>, \<^verbatim>\<open>Xv6_Frw\<close>, \<^verbatim>\<open>Xv6_Fs\<close>: the allocator takes the
    lowest free block and zeroes it, inodes survive being written and read, and \<^verbatim>\<open>writei\<close> followed by
    \<^verbatim>\<open>readi\<close> gives the bytes back and touches no other file. The locale \<open>block_budget\<close> counts the blocks
    of a transaction; \<open>fs_ok\<close> is the layout invariant and \<open>file_wf\<close> that of one file.
  \<^item> \<^verbatim>\<open>Xv6_File\<close>, \<^verbatim>\<open>Xv6_Pipe\<close>, \<^verbatim>\<open>Xv6_Fwrite\<close>: \<^verbatim>\<open>file.c\<close> and \<^verbatim>\<open>pipe.c\<close>. A pipe is a bounded queue under every
    interleaving; \<^verbatim>\<open>filewrite\<close> is followed from the open file to the disk.
  \<^item> \<^verbatim>\<open>Xv6_Mkfs\<close>: \<^verbatim>\<open>mkfs.c\<close> on the host. It fails exactly when the files do not fit, and otherwise its image
    satisfies \<open>fs_ok\<close> and \<open>file_wf\<close> and every file reads back: what the kernel's theorems assume of the
    disk is what this program establishes.

  \<^bold>\<open>Processes, traps, devices.\<close>
  \<^item> \<^verbatim>\<open>Xv6_Proc\<close>, \<^verbatim>\<open>Xv6_Sched\<close>: \<^verbatim>\<open>proc.c\<close>. A round of the scheduler runs every process that stays
    runnable; two error paths of process creation and \<^verbatim>\<open>kill\<close> are followed to the end.
  \<^item> \<^verbatim>\<open>Xv6_Sysfile\<close>, \<^verbatim>\<open>Xv6_Exec\<close>, \<^verbatim>\<open>Xv6_Trap\<close>: \<^verbatim>\<open>sysfile.c\<close>, \<^verbatim>\<open>exec.c\<close>, \<^verbatim>\<open>sysproc.c\<close>, \<^verbatim>\<open>syscall.c\<close>, \<^verbatim>\<open>trap.c\<close>; preemption
    by the clock and what the priorities do to it.
  \<^item> \<^verbatim>\<open>Xv6_Console\<close>, \<^verbatim>\<open>Xv6_Kbd\<close>: \<^verbatim>\<open>console.c\<close>, \<^verbatim>\<open>kbd.c\<close>; typed lines arrive in order, the cursor stays on
    the screen, scan codes give characters in range.

  \<^bold>\<open>User programs.\<close>
  \<^item> \<^verbatim>\<open>Xv6_Sh\<close>, \<^verbatim>\<open>Xv6_Shell\<close>, \<^verbatim>\<open>Xv6_Shrun\<close>: \<^verbatim>\<open>sh.c\<close>. The parser returns on every line, reads back every
    printed command, and a pipeline starts its programs with the right descriptors.
  \<^item> \<^verbatim>\<open>Xv6_Umalloc\<close>: \<^verbatim>\<open>umalloc.c\<close>; used blocks and the free ring partition the memory the program got.
  \<^item> \<^verbatim>\<open>Xv6_Grep\<close>: \<^verbatim>\<open>grep.c\<close>; the matcher decides the language of the pattern, and the loop prints the
    matching lines.

  \<^bold>\<open>Bounds and fuel.\<close> Loops whose end depends on a well-formed list (the buffer ring, the IDE queue,
  the free ring of \<^verbatim>\<open>malloc\<close>, the tokenizer of the shell) are partial functions with \<open>None\<close> for
  divergence, and each is shown to return on the states that the invariants describe. The mutually
  recursive parsers of the shell take a call depth; \<open>parse_depth n = 4 * n + 4\<close> is proved to be enough
  for a line of \<open>n\<close> characters, since every fourth nested call consumes one. \<open>open_console\<close> stops after
  four descriptors, as the loop of \<^verbatim>\<open>sh.c\<close> closes the fourth one. All other loops are total.

  \<^bold>\<open>Parameters.\<close> What is not in the sources is an argument: the code of the first process, the linker's
  symbols, the bytes a device delivers, the answer of the kernel to \<^verbatim>\<open>sbrk\<close> and \<^verbatim>\<open>read\<close> in user programs,
  what a process does between two switches, and the host files given to \<^verbatim>\<open>mkfs\<close>.

  \<^bold>\<open>Not modelled.\<close> Programming of hardware registers (\<^verbatim>\<open>lapic.c\<close>, \<^verbatim>\<open>ioapic.c\<close>, \<^verbatim>\<open>picirq.c\<close>, \<^verbatim>\<open>timer.c\<close>,
  \<^verbatim>\<open>mp.c\<close>, \<^verbatim>\<open>uart.c\<close>, the descriptor tables of \<^verbatim>\<open>vm.c\<close> and \<^verbatim>\<open>trap.c\<close>): its meaning is the hardware's. The boot
  loader and the assembly files run outside the C execution model; \<^verbatim>\<open>main.c\<close> only calls initialisation
  routines in order. The small user programs (\<^verbatim>\<open>cat.c\<close>, \<^verbatim>\<open>echo.c\<close>, \<^verbatim>\<open>ls.c\<close>, \<^verbatim>\<open>wc.c\<close> and the like) are loops over
  their arguments around system calls that are modelled in the kernel. The test programs implement
  nothing. Memory for shell commands is assumed to be there, and host input and output in \<^verbatim>\<open>mkfs\<close> do
  not fail except for reads past the end of the image.
\<close>

end
